(* ===== verification/Polly_Prelude.thy ===== *)
theory Polly_Prelude
  imports Main
begin

text \<open>
  What the component theories share: the error values that stand for the ways polly stops
  (a failed \<^verbatim>\<open>assert\<close>, \<^verbatim>\<open>abort()\<close>, an exception, a memory error), the result type with its
  sequencing operator and a small weakest-precondition calculus, \<^verbatim>\<open>size_t\<close> arithmetic with its
  wrap-around, the two forms of \<^verbatim>\<open>std::copy\<close> and \<^verbatim>\<open>vector::resize\<close>, and two locales every
  component reuses: byte queues and invariant systems.
\<close>

section \<open>Errors and results\<close>

text \<open>
  The default build type is Debug (CMakeLists.txt), so a failed \<^verbatim>\<open>assert\<close> stops the program.
  The last four values are undefined behaviour that the model makes visible.
\<close>

datatype error =
    Assertion_failed
  | Aborted
  | Runtime_error string
  | Length_error
  | Out_of_bounds
  | Use_after_free
  | Dangling_reference
  | Null_dereference
  | Signed_overflow
  | Bad_weak_ptr

type_synonym 'a result = "error + 'a"

fun bindR :: "'a result \<Rightarrow> ('a \<Rightarrow> 'b result) \<Rightarrow> 'b result" where
  "bindR (Inl e) f = Inl e"
| "bindR (Inr x) f = f x"

definition assertR :: "bool \<Rightarrow> 'a result \<Rightarrow> 'a result" where
  "assertR P k = (if P then k else Inl Assertion_failed)"

definition boundsR :: "bool \<Rightarrow> 'a result \<Rightarrow> 'a result" where
  "boundsR P k = (if P then k else Inl Out_of_bounds)"

definition ptrR :: "error \<Rightarrow> 'a option \<Rightarrow> ('a \<Rightarrow> 'b result) \<Rightarrow> 'b result" where
  "ptrR e p k = (case p of None \<Rightarrow> Inl e | Some x \<Rightarrow> k x)"

fun foldR :: "('a \<Rightarrow> 's \<Rightarrow> 's result) \<Rightarrow> 'a list \<Rightarrow> 's \<Rightarrow> 's result" where
  "foldR f [] s = Inr s"
| "foldR f (x # xs) s = bindR (f x s) (foldR f xs)"

text \<open>\<open>okR m Q\<close>: the computation succeeds and its result satisfies \<open>Q\<close> (total correctness);
  \<open>safeR m Q\<close>: if it succeeds, the result satisfies \<open>Q\<close>.\<close>

definition okR :: "'a result \<Rightarrow> ('a \<Rightarrow> bool) \<Rightarrow> bool" where
  "okR m Q \<longleftrightarrow> (\<exists>x. m = Inr x \<and> Q x)"

definition safeR :: "'a result \<Rightarrow> ('a \<Rightarrow> bool) \<Rightarrow> bool" where
  "safeR m Q \<longleftrightarrow> (\<forall>x. m = Inr x \<longrightarrow> Q x)"

named_theorems result_simps \<open>equations that evaluate the result operators\<close>
named_theorems wp_simps \<open>weakest preconditions of the result operators\<close>

lemma bindR_assoc [result_simps]: "bindR (bindR m f) g = bindR m (\<lambda>x. bindR (f x) g)"
  by (cases m) simp_all

lemma bindR_eq_Inr [result_simps]: "bindR m f = Inr y \<longleftrightarrow> (\<exists>x. m = Inr x \<and> f x = Inr y)"
  by (cases m) simp_all

lemma assertR_eq_Inr [result_simps]: "assertR P k = Inr y \<longleftrightarrow> P \<and> k = Inr y"
  by (simp add: assertR_def)

lemma boundsR_eq_Inr [result_simps]: "boundsR P k = Inr y \<longleftrightarrow> P \<and> k = Inr y"
  by (simp add: boundsR_def)

lemma ptrR_eq_Inr [result_simps]: "ptrR e p k = Inr y \<longleftrightarrow> (\<exists>x. p = Some x \<and> k x = Inr y)"
  by (simp add: ptrR_def split: option.split)

lemma assertR_True [simp]: "assertR True k = k"
  by (simp add: assertR_def)

lemma boundsR_True [simp]: "boundsR True k = k"
  by (simp add: boundsR_def)

lemma assertR_False [simp]: "assertR False k = Inl Assertion_failed"
  by (simp add: assertR_def)

lemma boundsR_False [simp]: "boundsR False k = Inl Out_of_bounds"
  by (simp add: boundsR_def)

lemma ptrR_Some [simp]: "ptrR e (Some x) k = k x"
  by (simp add: ptrR_def)

lemma ptrR_None [simp]: "ptrR e None k = Inl e"
  by (simp add: ptrR_def)

lemma okR_Inr [simp, wp_simps]: "okR (Inr x) Q \<longleftrightarrow> Q x"
  by (simp add: okR_def)

lemma okR_Inl [simp, wp_simps]: "\<not> okR (Inl e) Q"
  by (simp add: okR_def)

lemma okR_bindR [wp_simps]: "okR (bindR m f) Q \<longleftrightarrow> okR m (\<lambda>x. okR (f x) Q)"
  by (cases m) simp_all

lemma okR_assertR [wp_simps]: "okR (assertR P k) Q \<longleftrightarrow> P \<and> okR k Q"
  by (simp add: assertR_def)

lemma okR_boundsR [wp_simps]: "okR (boundsR P k) Q \<longleftrightarrow> P \<and> okR k Q"
  by (simp add: boundsR_def)

lemma okR_ptrR [wp_simps]: "okR (ptrR e p k) Q \<longleftrightarrow> (\<exists>x. p = Some x \<and> okR (k x) Q)"
  by (simp add: ptrR_def split: option.split)

lemma safeR_Inr [simp, wp_simps]: "safeR (Inr x) Q \<longleftrightarrow> Q x"
  by (simp add: safeR_def)

lemma safeR_Inl [simp, wp_simps]: "safeR (Inl e) Q"
  by (simp add: safeR_def)

lemma safeR_bindR [wp_simps]: "safeR (bindR m f) Q \<longleftrightarrow> safeR m (\<lambda>x. safeR (f x) Q)"
  by (cases m) simp_all

lemma safeR_assertR [wp_simps]: "safeR (assertR P k) Q \<longleftrightarrow> (P \<longrightarrow> safeR k Q)"
  by (simp add: assertR_def)

lemma safeR_boundsR [wp_simps]: "safeR (boundsR P k) Q \<longleftrightarrow> (P \<longrightarrow> safeR k Q)"
  by (simp add: boundsR_def)

lemma safeR_ptrR [wp_simps]: "safeR (ptrR e p k) Q \<longleftrightarrow> (\<forall>x. p = Some x \<longrightarrow> safeR (k x) Q)"
  by (simp add: ptrR_def split: option.split)

lemma okR_mono: "okR m P \<Longrightarrow> (\<And>x. P x \<Longrightarrow> Q x) \<Longrightarrow> okR m Q"
  by (auto simp: okR_def)

lemma safeR_mono: "safeR m P \<Longrightarrow> (\<And>x. P x \<Longrightarrow> Q x) \<Longrightarrow> safeR m Q"
  by (auto simp: safeR_def)

lemma safeR_D: "safeR m Q \<Longrightarrow> m = Inr x \<Longrightarrow> Q x"
  by (simp add: safeR_def)

lemma safeR_conj: "safeR m P \<Longrightarrow> safeR m Q \<Longrightarrow> safeR m (\<lambda>x. P x \<and> Q x)"
  by (simp add: safeR_def)

lemma okR_imp_safeR: "okR m Q \<Longrightarrow> safeR m Q"
  by (auto simp: okR_def safeR_def)

lemma okR_safeR: "okR m P \<Longrightarrow> safeR m Q \<Longrightarrow> okR m (\<lambda>x. P x \<and> Q x)"
  by (auto simp: okR_def safeR_def)

lemma foldR_append: "foldR f (xs @ ys) s = bindR (foldR f xs s) (foldR f ys)"
proof (induction xs arbitrary: s)
  case (Cons x xs)
  then have "foldR f (xs @ ys) = (\<lambda>t. bindR (foldR f xs t) (foldR f ys))" by auto
  then show ?case by (simp add: bindR_assoc)
qed simp

lemma foldR_safe:
  assumes step: "\<And>x s. x \<in> set xs \<Longrightarrow> I s \<Longrightarrow> safeR (f x s) I" and "I s"
  shows "safeR (foldR f xs s) I"
  using assms
proof (induction xs arbitrary: s)
  case (Cons x xs)
  then have "safeR (f x s) I" by simp
  then have "safeR (f x s) (\<lambda>s'. safeR (foldR f xs s') I)"
    by (rule safeR_mono) (use Cons in simp)
  then show ?case by (simp add: wp_simps)
qed simp

lemma foldR_ok:
  assumes step: "\<And>x s. x \<in> set xs \<Longrightarrow> I s \<Longrightarrow> okR (f x s) I" and "I s"
  shows "okR (foldR f xs s) I"
  using assms
proof (induction xs arbitrary: s)
  case (Cons x xs)
  then have "okR (f x s) I" by simp
  then have "okR (f x s) (\<lambda>s'. okR (foldR f xs s') I)"
    by (rule okR_mono) (use Cons in simp)
  then show ?case by (simp add: wp_simps)
qed simp

text \<open>\<open>failR E m Q\<close>: the computation succeeds with \<open>Q\<close> or fails with one of the errors in \<open>E\<close>.\<close>

definition failR :: "error set \<Rightarrow> 'a result \<Rightarrow> ('a \<Rightarrow> bool) \<Rightarrow> bool" where
  "failR E m Q \<longleftrightarrow> (case m of Inl e \<Rightarrow> e \<in> E | Inr x \<Rightarrow> Q x)"

lemma failR_Inr [simp, wp_simps]: "failR E (Inr x) Q \<longleftrightarrow> Q x"
  by (simp add: failR_def)

lemma failR_Inl [simp, wp_simps]: "failR E (Inl e) Q \<longleftrightarrow> e \<in> E"
  by (simp add: failR_def)

lemma failR_bindR [wp_simps]: "failR E (bindR m f) Q \<longleftrightarrow> failR E m (\<lambda>x. failR E (f x) Q)"
  by (cases m) simp_all

lemma failR_assertR [wp_simps]: "failR E (assertR P k) Q \<longleftrightarrow> (if P then failR E k Q else Assertion_failed \<in> E)"
  by (simp add: assertR_def)

lemma failR_boundsR [wp_simps]: "failR E (boundsR P k) Q \<longleftrightarrow> (if P then failR E k Q else Out_of_bounds \<in> E)"
  by (simp add: boundsR_def)

lemma failR_mono: "failR E m P \<Longrightarrow> E \<subseteq> F \<Longrightarrow> (\<And>x. P x \<Longrightarrow> Q x) \<Longrightarrow> failR F m Q"
  by (cases m) auto

lemma okR_failR: "okR m Q \<longleftrightarrow> failR {} m Q"
  by (cases m) simp_all

lemma failR_okR: "okR m Q \<Longrightarrow> failR E m Q"
  by (auto simp: okR_def)

lemma failR_safeR: "failR E m P \<Longrightarrow> safeR m Q \<Longrightarrow> failR E m (\<lambda>x. P x \<and> Q x)"
  by (cases m) auto

text \<open>The invariant of a fold may count the elements done.\<close>

lemma foldR_fail:
  assumes "\<And>x s i. x \<in> set xs \<Longrightarrow> i < length xs \<Longrightarrow> I i s \<Longrightarrow> failR E (f x s) (I (Suc i))" and "I 0 s"
  shows "failR E (foldR f xs s) (I (length xs))"
  using assms
proof (induction xs arbitrary: s I)
  case (Cons x xs)
  have "failR E (foldR f xs t) (I (Suc (length xs)))" if "I 1 t" for t
    using that Cons.prems(1) by (intro Cons.IH [of "\<lambda>i. I (Suc i)"]) auto
  moreover have "failR E (f x s) (I 1)" using Cons.prems(1) [of x 0 s] Cons.prems(2) by simp
  ultimately show ?case by (auto simp: failR_bindR intro: failR_mono)
qed simp

section \<open>\<open>size_t\<close>\<close>

text \<open>A \<^verbatim>\<open>size_t\<close> value is a natural number below \<open>2 ^ 64\<close>; sums and differences wrap.\<close>

definition size_t_mod :: nat where
  "size_t_mod = 18446744073709551616"

definition sz_add :: "nat \<Rightarrow> nat \<Rightarrow> nat" where
  "sz_add a b = (a + b) mod size_t_mod"

definition sz_sub :: "nat \<Rightarrow> nat \<Rightarrow> nat" where
  "sz_sub a b = (a + size_t_mod - b) mod size_t_mod"

lemma sz_add_small [simp]: "a + b < size_t_mod \<Longrightarrow> sz_add a b = a + b"
  by (simp add: sz_add_def)

lemma sz_sub_small [simp]: "b \<le> a \<Longrightarrow> a < size_t_mod \<Longrightarrow> sz_sub a b = a - b"
proof -
  assume "b \<le> a" "a < size_t_mod"
  then have "a + size_t_mod - b = (a - b) + size_t_mod" "a - b < size_t_mod" by linarith+
  then show ?thesis by (simp only: sz_sub_def mod_add_self2 mod_less)
qed

lemma sz_sub_wraps: "a < b \<Longrightarrow> b < size_t_mod \<Longrightarrow> sz_sub a b = a + size_t_mod - b"
  by (simp add: sz_sub_def)

text \<open>\<^verbatim>\<open>std::vector<char>::max_size()\<close>: the largest object size, \<open>2 ^ 63 - 1\<close>.\<close>

definition max_size :: nat where
  "max_size = 9223372036854775807"

lemma le_max_size_less [simp]: "n \<le> max_size \<Longrightarrow> n < size_t_mod"
  by (simp add: max_size_def size_t_mod_def)

lemma max_size_add_less [simp]: "a \<le> max_size \<Longrightarrow> b \<le> max_size \<Longrightarrow> a + b < size_t_mod"
  by (simp add: max_size_def size_t_mod_def)

section \<open>\<open>std::copy\<close> and \<open>vector::resize\<close>\<close>

text \<open>\<open>std_copy xs d p\<close>: copy a separate range \<open>xs\<close> into \<open>d\<close> from position \<open>p\<close> on, element by
  element; \<open>copy_within n s d xs\<close>: copy \<open>n\<close> elements from position \<open>s\<close> to position \<open>d\<close> of the
  same array, reading each element from the array as it is then.\<close>

fun std_copy :: "'a list \<Rightarrow> 'a list \<Rightarrow> nat \<Rightarrow> 'a list" where
  "std_copy [] d p = d"
| "std_copy (x # xs) d p = std_copy xs (d[p := x]) (Suc p)"

fun copy_within :: "nat \<Rightarrow> nat \<Rightarrow> nat \<Rightarrow> 'a list \<Rightarrow> 'a list" where
  "copy_within 0 s d xs = xs"
| "copy_within (Suc n) s d xs = copy_within n (Suc s) (Suc d) (xs[d := xs ! s])"

definition vector_resize :: "nat \<Rightarrow> char list \<Rightarrow> char list result" where
  "vector_resize n xs =
     (if max_size < n then Inl Length_error
      else Inr (take n xs @ replicate (n - length xs) (CHR 0x00)))"

lemma length_std_copy [simp]: "length (std_copy xs d p) = length d"
  by (induction xs d p rule: std_copy.induct) simp_all

lemma length_copy_within [simp]: "length (copy_within n s d xs) = length xs"
  by (induction n s d xs rule: copy_within.induct) simp_all

lemma std_copy_eq:
  "p + length xs \<le> length d \<Longrightarrow> std_copy xs d p = take p d @ xs @ drop (p + length xs) d"
proof (induction xs d p rule: std_copy.induct)
  case (2 x xs d p)
  then have "std_copy xs (d[p := x]) (Suc p) =
      take (Suc p) (d[p := x]) @ xs @ drop (Suc p + length xs) (d[p := x])"
    by simp
  also have "take (Suc p) (d[p := x]) = take p d @ [x]"
    using "2.prems" by (simp add: take_Suc_conv_app_nth)
  finally show ?case by simp
qed simp

lemma copy_within_eq:
  "d \<le> s \<Longrightarrow> s + n \<le> length xs \<Longrightarrow>
   copy_within n s d xs = take d xs @ take n (drop s xs) @ drop (d + n) xs"
proof (induction n s d xs rule: copy_within.induct)
  case (2 n s d xs)
  let ?ys = "xs[d := xs ! s]"
  have "copy_within n (Suc s) (Suc d) ?ys =
      take (Suc d) ?ys @ take n (drop (Suc s) ?ys) @ drop (Suc d + n) ?ys"
    using 2 by simp
  also have "take (Suc d) ?ys = take d xs @ [xs ! s]"
    using "2.prems" by (simp add: take_Suc_conv_app_nth)
  also have "drop (Suc s) ?ys = drop (Suc s) xs"
    using "2.prems" by simp
  also have "drop (Suc d + n) ?ys = drop (Suc d + n) xs"
    by simp
  finally have "copy_within n (Suc s) (Suc d) ?ys =
      take d xs @ (xs ! s # take n (drop (Suc s) xs)) @ drop (Suc d + n) xs"
    by simp
  also have "xs ! s # take n (drop (Suc s) xs) = take (Suc n) (drop s xs)"
    using "2.prems" by (subst Cons_nth_drop_Suc [symmetric]) simp_all
  finally show ?case by simp
qed simp

section \<open>\<open>std::map\<close>\<close>

text \<open>The list of its entries in the order of the keys, each key at most once: \<^verbatim>\<open>m[k] = v\<close> and \<^verbatim>\<open>m.erase(k)\<close>.\<close>

fun map_assign :: "'k::linorder \<Rightarrow> 'v \<Rightarrow> ('k \<times> 'v) list \<Rightarrow> ('k \<times> 'v) list" where
  "map_assign k v [] = [(k, v)]"
| "map_assign k v ((a, b) # ps) =
     (if k < a then (k, v) # (a, b) # ps else if k = a then (k, v) # ps else (a, b) # map_assign k v ps)"

definition map_erase :: "'k \<Rightarrow> ('k \<times> 'v) list \<Rightarrow> ('k \<times> 'v) list" where
  "map_erase k ps = filter (\<lambda>p. fst p \<noteq> k) ps"

definition map_sorted :: "('k::linorder \<times> 'v) list \<Rightarrow> bool" where
  "map_sorted ps \<longleftrightarrow> sorted_wrt (<) (map fst ps)"

lemma map_sorted_simps [simp]:
  "map_sorted []" "map_sorted (p # ps) \<longleftrightarrow> (\<forall>q \<in> set ps. fst p < fst q) \<and> map_sorted ps"
  by (auto simp: map_sorted_def)

lemma set_map_assign: "set (map_assign k v ps) \<subseteq> insert (k, v) (set ps)"
  by (induction k v ps rule: map_assign.induct) auto

lemma map_of_assign [simp]: "map_of (map_assign k v ps) = (map_of ps)(k \<mapsto> v)"
  by (induction k v ps rule: map_assign.induct) (auto simp: fun_eq_iff)

lemma map_sorted_assign: "map_sorted ps \<Longrightarrow> map_sorted (map_assign k v ps)"
  by (induction k v ps rule: map_assign.induct) (use set_map_assign in fastforce)+

lemma map_of_erase [simp]: "map_of (map_erase k ps) = (map_of ps)(k := None)"
  by (induction ps) (auto simp: map_erase_def fun_eq_iff)

lemma map_sorted_erase: "map_sorted ps \<Longrightarrow> map_sorted (map_erase k ps)"
  by (induction ps) (auto simp: map_erase_def)

lemma map_of_sorted: "map_sorted ps \<Longrightarrow> (k, v) \<in> set ps \<Longrightarrow> map_of ps k = Some v"
  by (induction ps) (auto split: if_splits)

section \<open>Contracts shared by the components\<close>

text \<open>
  A sink for bytes: \<open>content\<close> is what it holds, \<open>add\<close> appends, and \<open>fits\<close> says when adding
  cannot fail. The first law is partial correctness, the second one total.
\<close>

locale byte_sink =
  fixes inv :: "'q \<Rightarrow> bool"
    and content :: "'q \<Rightarrow> char list"
    and add :: "char list \<Rightarrow> 'q \<Rightarrow> 'q result"
    and fits :: "char list \<Rightarrow> 'q \<Rightarrow> bool"
  assumes add_safe: "inv q \<Longrightarrow> add d q = Inr q' \<Longrightarrow> inv q' \<and> content q' = content q @ d"
    and add_total: "inv q \<Longrightarrow> fits d q \<Longrightarrow> \<exists>q'. add d q = Inr q'"
begin

lemma add_ok: "inv q \<Longrightarrow> fits d q \<Longrightarrow> okR (add d q) (\<lambda>q'. inv q' \<and> content q' = content q @ d)"
  using add_total [of q d] add_safe [of q d] by (auto simp: okR_def)

lemma foldR_add:
  "inv q \<Longrightarrow> foldR add ds q = Inr q' \<Longrightarrow> inv q' \<and> content q' = content q @ concat ds"
proof (induction ds arbitrary: q)
  case (Cons d ds)
  then obtain r where "add d q = Inr r" "foldR add ds r = Inr q'"
    by (auto simp: result_simps)
  with Cons.IH [of r] add_safe [of q d r] Cons.prems(1) show ?case by simp
qed simp

end

text \<open>A queue of bytes is a sink from whose front bytes are taken. A run of additions and
  removals delivers the bytes in the order they were added, none lost or repeated.\<close>

datatype queue_op = Put "char list" | Get nat

fun queue_run ::
  "(char list \<Rightarrow> 'q \<Rightarrow> 'q result) \<Rightarrow> (nat \<Rightarrow> 'q \<Rightarrow> 'q result) \<Rightarrow> ('q \<Rightarrow> char list) \<Rightarrow>
   queue_op list \<Rightarrow> 'q \<Rightarrow> (char list \<times> 'q) result" where
  "queue_run add remove content [] q = Inr ([], q)"
| "queue_run add remove content (Put d # ops) q =
     bindR (add d q) (queue_run add remove content ops)"
| "queue_run add remove content (Get n # ops) q =
     bindR (remove n q) (\<lambda>q'. bindR (queue_run add remove content ops q')
       (\<lambda>(out, r). Inr (take n (content q) @ out, r)))"

fun puts :: "queue_op list \<Rightarrow> char list" where
  "puts [] = []"
| "puts (Put d # ops) = d @ puts ops"
| "puts (Get n # ops) = puts ops"

locale byte_queue = byte_sink inv content add fits
  for inv :: "'q \<Rightarrow> bool" and content and add and fits +
  fixes remove :: "nat \<Rightarrow> 'q \<Rightarrow> 'q result"
  assumes remove_ok: "inv q \<Longrightarrow> n \<le> length (content q) \<Longrightarrow>
      \<exists>q'. remove n q = Inr q' \<and> inv q' \<and> content q' = drop n (content q)"
    and remove_guard: "inv q \<Longrightarrow> length (content q) < n \<Longrightarrow> remove n q = Inl Assertion_failed"
begin

lemma remove_safe:
  "inv q \<Longrightarrow> remove n q = Inr q' \<Longrightarrow> n \<le> length (content q) \<and> inv q' \<and> content q' = drop n (content q)"
  using remove_ok [of q n] remove_guard [of q n] by (cases "n \<le> length (content q)") auto

lemma run_fifo:
  "inv q \<Longrightarrow> queue_run add remove content ops q = Inr (out, r) \<Longrightarrow>
   inv r \<and> out @ content r = content q @ puts ops"
proof (induction ops arbitrary: q out)
  case (Cons op ops)
  show ?case
  proof (cases op)
    case (Put d)
    with Cons.prems(2) obtain q' where q': "add d q = Inr q'"
        "queue_run add remove content ops q' = Inr (out, r)"
      by (auto simp: bindR_eq_Inr)
    have "inv q'" "content q' = content q @ d"
      using add_safe [OF Cons.prems(1) q'(1)] by simp_all
    with Cons.IH [OF _ q'(2)] Put show ?thesis by simp
  next
    case (Get n)
    with Cons.prems(2) obtain q' out' where q': "remove n q = Inr q'"
        "queue_run add remove content ops q' = Inr (out', r)" "out = take n (content q) @ out'"
      by (auto simp: bindR_eq_Inr)
    have "inv q'" "content q' = drop n (content q)"
      using remove_safe [OF Cons.prems(1) q'(1)] by simp_all
    with Cons.IH [OF _ q'(2)] have "inv r" "out' @ content r = drop n (content q) @ puts ops"
      by simp_all
    with q'(3) Get show ?thesis by simp
  qed
qed simp

end

text \<open>A transition system with an invariant: every reachable state satisfies it.\<close>

locale invariant_system =
  fixes init :: "'s \<Rightarrow> bool" and step :: "'s \<Rightarrow> 's \<Rightarrow> bool" and inv :: "'s \<Rightarrow> bool"
  assumes init_inv: "init s \<Longrightarrow> inv s"
    and step_inv: "inv s \<Longrightarrow> step s s' \<Longrightarrow> inv s'"
begin

lemma steps_inv: "step\<^sup>*\<^sup>* s s' \<Longrightarrow> inv s \<Longrightarrow> inv s'"
  by (induction rule: rtranclp_induct) (auto intro: step_inv)

lemma reachable_inv: "init s \<Longrightarrow> step\<^sup>*\<^sup>* s s' \<Longrightarrow> inv s'"
  using init_inv steps_inv by blast

end

end
