(* ===== verification/Formatting.thy ===== *)
theory Formatting
  imports Complex_Main Polly_Prelude
begin

text \<open>
  The conversions of \<^verbatim>\<open>printf\<close> that polly uses (\<^verbatim>\<open>%d\<close> with width and zero padding, \<^verbatim>\<open>%u\<close>) and
  \<^verbatim>\<open>std::to_string\<close>, with the readers that invert them. What is shown: reading what was printed
  gives the number back, so printing is injective, and how long a printed number is.
\<close>

section \<open>Decimal digits\<close>

definition digit :: "nat \<Rightarrow> char" where
  "digit n = char_of (48 + n)"

definition digit_val :: "char \<Rightarrow> nat" where
  "digit_val c = of_char c - 48"

definition is_digit :: "char \<Rightarrow> bool" where
  "is_digit c \<longleftrightarrow> 48 \<le> (of_char c :: nat) \<and> (of_char c :: nat) \<le> 57"

fun dec :: "nat \<Rightarrow> string" where
  "dec n = (if n < 10 then [digit n] else dec (n div 10) @ [digit (n mod 10)])"

declare dec.simps [simp del]

definition undec :: "string \<Rightarrow> nat" where
  "undec s = foldl (\<lambda>a c. 10 * a + digit_val c) 0 s"

lemma of_char_digit: "n < 10 \<Longrightarrow> of_char (digit n) = 48 + n"
  by (simp add: digit_def)

lemma digit_val_digit [simp]: "n < 10 \<Longrightarrow> digit_val (digit n) = n"
  by (simp add: digit_val_def of_char_digit)

lemma is_digit_digit [simp]: "n < 10 \<Longrightarrow> is_digit (digit n)"
  by (simp add: is_digit_def of_char_digit)

lemma undec_snoc [simp]: "undec (s @ [c]) = 10 * undec s + digit_val c"
  by (simp add: undec_def)

lemma undec_Nil [simp]: "undec [] = 0"
  by (simp add: undec_def)

lemma undec_dec [simp]: "undec (dec n) = n"
proof (induction n rule: dec.induct)
  case (1 n)
  show ?case
  proof (cases "n < 10")
    case True
    then show ?thesis using undec_snoc [of "[]" "digit n"] by (simp add: dec.simps)
  next
    case False
    then show ?thesis using 1 by (subst dec.simps) simp
  qed
qed

lemma dec_digits: "c \<in> set (dec n) \<Longrightarrow> is_digit c"
proof (induction n rule: dec.induct)
  case (1 n)
  then show ?case by (subst (asm) (2) dec.simps) (auto split: if_splits)
qed

lemma dec_not_Nil [simp]: "dec n \<noteq> []"
  by (subst dec.simps) simp

lemma dec_length: "0 < w \<Longrightarrow> length (dec n) \<le> w \<longleftrightarrow> n < 10 ^ w"
proof (induction n arbitrary: w rule: dec.induct)
  case (1 n)
  show ?case
  proof (cases "n < 10")
    case True
    with 1 have "n < 10 ^ w" by (cases w) (auto intro: less_le_trans [of n 10])
    with True show ?thesis using 1(2) by (subst dec.simps) simp
  next
    case big: False
    then have len: "length (dec n) = Suc (length (dec (n div 10)))" by (subst dec.simps) simp
    show ?thesis
    proof (cases "w = 1")
      case True
      then show ?thesis using big len by (cases "dec (n div 10)") auto
    next
      case False
      then obtain v where v: "w = Suc v" "0 < v" using 1(2) by (cases w) auto
      then have "n div 10 < 10 ^ v \<longleftrightarrow> n < 10 ^ w"
        by (simp add: div_less_iff_less_mult mult.commute)
      then show ?thesis using 1(1) [OF big v(2)] len v by simp
    qed
  qed
qed

lemma dec_length_le: "n < 10 ^ w \<Longrightarrow> 0 < w \<Longrightarrow> length (dec n) \<le> w"
  by (simp add: dec_length)

section \<open>Signed conversions\<close>

definition printf_d :: "int \<Rightarrow> string" where
  "printf_d i = (if i < 0 then CHR ''-'' # dec (nat (- i)) else dec (nat i))"

definition pad_left :: "char \<Rightarrow> nat \<Rightarrow> string \<Rightarrow> string" where
  "pad_left c w s = replicate (w - length s) c @ s"

text \<open>\<^verbatim>\<open>%0<w>d\<close>: the zeros go between the sign and the digits.\<close>

definition printf_0d :: "nat \<Rightarrow> int \<Rightarrow> string" where
  "printf_0d w i =
     (if i < 0 then CHR ''-'' # pad_left CHR ''0'' (w - 1) (dec (nat (- i)))
      else pad_left CHR ''0'' w (dec (nat i)))"

text \<open>\<^verbatim>\<open>%<w>d\<close>.\<close>

definition printf_wd :: "nat \<Rightarrow> int \<Rightarrow> string" where
  "printf_wd w i = pad_left CHR '' '' w (printf_d i)"

text \<open>\<^verbatim>\<open>%u\<close> takes an \<^verbatim>\<open>unsigned int\<close>; of a wider argument, the low 32 bits are what it prints.\<close>

definition printf_u :: "nat \<Rightarrow> string" where
  "printf_u n = dec (n mod 2 ^ 32)"

text \<open>What \<^verbatim>\<open>snprintf\<close> leaves in a buffer of \<open>n\<close> bytes.\<close>

definition snprintf :: "nat \<Rightarrow> string \<Rightarrow> string" where
  "snprintf n s = take (n - 1) s"

definition strtol :: "string \<Rightarrow> int" where
  "strtol s = (case s of [] \<Rightarrow> 0 | c # cs \<Rightarrow> if c = CHR ''-'' then - int (undec cs) else int (undec s))"

lemma is_digit_minus: "is_digit c \<Longrightarrow> c \<noteq> CHR ''-''"
  by (auto simp: is_digit_def)

lemma dec_Cons: obtains c cs where "dec n = c # cs" "is_digit c"
  using dec_not_Nil [of n] dec_digits [of _ n] by (cases "dec n") auto

lemma strtol_printf_d [simp]: "strtol (printf_d i) = i"
proof (cases "i < 0")
  case True
  then show ?thesis by (simp add: printf_d_def strtol_def)
next
  case False
  obtain c cs where "dec (nat i) = c # cs" "is_digit c" by (rule dec_Cons)
  then show ?thesis using False undec_dec [of "nat i"]
    by (simp add: printf_d_def strtol_def is_digit_minus)
qed

lemma inj_printf_d: "inj printf_d"
  by (rule inj_on_inverseI [of _ strtol]) simp

lemma undec_zeros: "undec (replicate n CHR ''0'' @ s) = undec s"
proof -
  have "foldl (\<lambda>a c. 10 * a + digit_val c) 0 (replicate n CHR ''0'') = 0"
    by (induction n) (simp_all add: digit_val_def)
  then show ?thesis by (simp add: undec_def)
qed

lemma undec_printf_0d: "0 \<le> i \<Longrightarrow> undec (printf_0d w i) = nat i"
  by (simp add: printf_0d_def pad_left_def undec_zeros)

lemma length_pad_left [simp]: "length (pad_left c w s) = max w (length s)"
  by (simp add: pad_left_def)

lemma length_printf_0d: "0 \<le> i \<Longrightarrow> 0 < w \<Longrightarrow> length (printf_0d w i) = w \<longleftrightarrow> i < 10 ^ w"
  using dec_length [of w "nat i"] by (auto simp: printf_0d_def max_def nat_less_iff)

lemma printf_0d_digits: "0 \<le> i \<Longrightarrow> c \<in> set (printf_0d w i) \<Longrightarrow> is_digit c"
  by (auto simp: printf_0d_def pad_left_def is_digit_def dest: dec_digits)

lemma length_printf_d: "0 < w \<Longrightarrow> \<bar>i\<bar> < 10 ^ w \<Longrightarrow> length (printf_d i) \<le> Suc w"
  using dec_length [of w "nat \<bar>i\<bar>"] by (auto simp: printf_d_def nat_less_iff)

lemma snprintf_fits: "length s < n \<Longrightarrow> snprintf n s = s"
  by (simp add: snprintf_def)

end
