(* ===== verification/Timestamps.thy ===== *)
theory Timestamps
  imports Formatting "HOL-Library.Signed_Division" "HOL-Library.Log_Nat"
begin

text \<open>
  \<^verbatim>\<open>Timestamp\<close> (util/timestamp.h, util/timestamp.cc). A timestamp is its \<^verbatim>\<open>int64_t\<close> count of
  microseconds, an integer here; an operation whose result leaves the range of \<^verbatim>\<open>int64_t\<close> is
  undefined in C++ and is the error \<open>Signed_overflow\<close>. A (finite) \<^verbatim>\<open>double\<close> is the rational number it
  denotes, and \<open>to_double\<close> rounds the exact result of an operation to the nearest double, ties to
  even. The calendar of \<^verbatim>\<open>gmtime_r\<close> is computed year by year. What is shown: adding a delay is exact
  for whole seconds and never shortens a delay below a whole number of microseconds; both textual forms
  determine the timestamp; \<^verbatim>\<open>valid()\<close> holds for every timestamp.
\<close>

section \<open>\<open>int64_t\<close>\<close>

definition int64_ok :: "int \<Rightarrow> bool" where
  "int64_ok i \<longleftrightarrow> - 9223372036854775808 \<le> i \<and> i \<le> 9223372036854775807"

definition int64R :: "int \<Rightarrow> int result" where
  "int64R i = (if int64_ok i then Inr i else Inl Signed_overflow)"

section \<open>\<open>double\<close>\<close>

definition round_half_even :: "rat \<Rightarrow> int" where
  "round_half_even x =
     (let f = \<lfloor>x\<rfloor>; r = x - of_int f
      in if r < 1/2 \<or> (r = 1/2 \<and> even f) then f else f + 1)"

definition double_exponent :: "rat \<Rightarrow> int" where
  "double_exponent x =
     (let (n, d) = quotient_of x; e = bitlen n - bitlen d
      in max (- 1022) (if 2 powi e \<le> x then e else e - 1))"

definition to_double :: "rat \<Rightarrow> rat" where
  "to_double x =
     (if x = 0 then 0
      else let ulp = 2 powi (double_exponent \<bar>x\<bar> - 52)
           in of_int (round_half_even (x / ulp)) * ulp)"

text \<open>A cast from \<^verbatim>\<open>double\<close> to \<^verbatim>\<open>int64_t\<close> drops the fraction.\<close>

definition trunc :: "rat \<Rightarrow> int" where
  "trunc x = (if x < 0 then \<lceil>x\<rceil> else \<lfloor>x\<rfloor>)"

lemma round_half_even_ge: "of_int n \<le> x \<Longrightarrow> n \<le> round_half_even x"
  by (auto simp: round_half_even_def Let_def le_floor_iff intro: order_trans [of n "\<lfloor>x\<rfloor>"])

lemma round_half_even_int [simp]: "round_half_even (of_int n) = n"
  by (simp add: round_half_even_def)

lemma round_half_even_le: "x \<le> of_int n \<Longrightarrow> round_half_even x \<le> n"
proof -
  assume x: "x \<le> of_int n"
  show "round_half_even x \<le> n"
  proof (cases "x = of_int n")
    case False
    with x have "\<lfloor>x\<rfloor> < n" by (simp add: floor_less_iff)
    then show ?thesis by (simp add: round_half_even_def Let_def)
  qed simp
qed

lemma bitlen_powi:
  assumes "0 < n"
  shows "2 powi (bitlen n - 1) \<le> (of_int n :: rat)" "(of_int n :: rat) < 2 powi bitlen n"
proof -
  have "0 \<le> bitlen n - 1" using assms bitlen_eq_zero_iff [of n] bitlen_nonneg [of n] by linarith
  then have *: "(2 :: rat) powi (bitlen n - 1) = of_int (2 ^ nat (bitlen n - 1))"
    by (simp add: power_int_def)
  have **: "(2 :: rat) powi (bitlen n) = of_int (2 ^ nat (bitlen n))"
    using bitlen_nonneg [of n] by (simp add: power_int_def)
  show "2 powi (bitlen n - 1) \<le> (of_int n :: rat)"
    using bitlen_bounds [OF assms] unfolding * of_int_le_iff by simp
  show "(of_int n :: rat) < 2 powi bitlen n"
    using bitlen_bounds [OF assms] unfolding ** of_int_less_iff by simp
qed

lemma double_exponent_bounds:
  assumes "0 < x"
  shows "2 powi double_exponent x \<le> x \<or> double_exponent x = - 1022"
    and "x < 2 powi (double_exponent x + 1)"
proof -
  obtain n d where q: "quotient_of x = (n, d)" by (cases "quotient_of x")
  then have d: "0 < d" and x: "x = of_int n / of_int d"
    using quotient_of_denom_pos quotient_of_div by auto
  with assms have n: "0 < n" by (simp add: zero_less_divide_iff)
  define e where "e = (if 2 powi (bitlen n - bitlen d) \<le> x then bitlen n - bitlen d
    else bitlen n - bitlen d - 1)"
  have de: "double_exponent x = max (- 1022) e"
    by (simp add: double_exponent_def q e_def Let_def)
  have "2 powi (bitlen n - 1) / 2 powi (bitlen d) \<le> x"
    unfolding x using bitlen_powi [OF n] bitlen_powi [OF d] n d by (intro frac_le) auto
  moreover have "2 powi (bitlen n - bitlen d - 1) = 2 powi (bitlen n - 1) / (2 powi (bitlen d) :: rat)"
    by (simp add: power_int_diff)
  ultimately have lo: "2 powi e \<le> x" by (auto simp: e_def)
  have "x < 2 powi (bitlen n) / 2 powi (bitlen d - 1)"
    unfolding x using bitlen_powi [OF n] bitlen_powi [OF d] n d by (intro frac_less) auto
  moreover have "2 powi (bitlen n - bitlen d + 1) = 2 powi (bitlen n) / (2 powi (bitlen d - 1) :: rat)"
    by (simp add: power_int_diff power_int_add)
  ultimately have hi: "x < 2 powi (e + 1)" by (auto simp: e_def)
  show "2 powi double_exponent x \<le> x \<or> double_exponent x = - 1022"
    using lo by (auto simp: de max_def)
  have "(2 :: rat) powi (e + 1) \<le> 2 powi (double_exponent x + 1)"
    by (intro power_int_increasing) (auto simp: de)
  with hi show "x < 2 powi (double_exponent x + 1)" by simp
qed

lemma double_exponent_ge1:
  assumes "1 \<le> x"
  shows "0 \<le> double_exponent x" and "2 ^ nat (double_exponent x) \<le> x"
proof -
  show nn: "0 \<le> double_exponent x"
  proof (rule ccontr)
    assume "\<not> 0 \<le> double_exponent x"
    then have "(2 :: rat) powi (double_exponent x + 1) \<le> 2 powi 0" by (intro power_int_increasing) auto
    with double_exponent_bounds(2) [of x] assms show False by simp
  qed
  with double_exponent_bounds(1) [of x] assms show "2 ^ nat (double_exponent x) \<le> x"
    by (auto simp: power_int_def)
qed

text \<open>The spacing of doubles in the binade of \<open>x\<close>: its inverse is an integer up to \<open>2 ^ 53\<close>.\<close>

lemma to_double_pos:
  assumes "0 < x"
  defines "e \<equiv> double_exponent x"
  shows "e \<le> 52 \<Longrightarrow> to_double x = of_int (round_half_even (x * 2 ^ nat (52 - e))) / 2 ^ nat (52 - e)"
    and "52 < e \<Longrightarrow> to_double x = of_int (round_half_even (x / 2 ^ nat (e - 52))) * 2 ^ nat (e - 52)"
proof -
  have "(2 :: rat) powi (e - 52) = inverse (2 ^ nat (52 - e))" if "e \<le> 52"
    using that by (auto simp: power_int_def power_one_over inverse_eq_divide)
  then show "to_double x = of_int (round_half_even (x * 2 ^ nat (52 - e))) / 2 ^ nat (52 - e)" if "e \<le> 52"
    using assms that by (auto simp: to_double_def Let_def divide_inverse)
  show "to_double x = of_int (round_half_even (x / 2 ^ nat (e - 52))) * 2 ^ nat (e - 52)" if "52 < e"
    using assms that by (auto simp: to_double_def Let_def power_int_def)
qed

lemma to_double_ge:
  assumes "of_int n \<le> x" "1 \<le> n" "n \<le> 2 ^ 53"
  shows "of_int n \<le> to_double x"
proof -
  have x: "1 \<le> x" using assms(1,2) order_trans [of 1 "of_int n" x] by simp
  then have x0: "0 < x" by simp
  define e where "e = double_exponent x"
  show ?thesis
  proof (cases "e \<le> 52")
    case True
    define m where "m = nat (52 - e)"
    have "of_int (n * 2 ^ m) \<le> x * 2 ^ m" using assms(1) by simp
    then have "n * 2 ^ m \<le> round_half_even (x * 2 ^ m)" by (rule round_half_even_ge)
    then have "(of_int (n * 2 ^ m) :: rat) \<le> of_int (round_half_even (x * 2 ^ m))"
      by (simp only: of_int_le_iff)
    then have "of_int n * 2 ^ m \<le> (of_int (round_half_even (x * 2 ^ m)) :: rat)" by simp
    then show ?thesis using to_double_pos(1) [OF x0] True by (simp add: e_def m_def pos_le_divide_eq)
  next
    case False
    define m where "m = nat (e - 52)"
    have e: "nat e = 52 + m" using False by (simp add: m_def)
    have "of_int (2 ^ 52) \<le> x / 2 ^ m"
      using double_exponent_ge1(2) [OF x] by (simp add: e_def [symmetric] e power_add pos_le_divide_eq)
    then have "2 ^ 52 \<le> round_half_even (x / 2 ^ m)" by (rule round_half_even_ge)
    then have "(of_int (2 ^ 52) :: rat) \<le> of_int (round_half_even (x / 2 ^ m))"
      by (simp only: of_int_le_iff)
    then have "(2 ^ 52 :: rat) \<le> of_int (round_half_even (x / 2 ^ m))" by simp
    then have "2 ^ 52 * 2 ^ m \<le> to_double x"
      using to_double_pos(2) [OF x0] False by (simp add: e_def m_def)
    moreover have "(2 :: rat) ^ 1 \<le> 2 ^ m" using False by (intro power_increasing) (auto simp: m_def)
    then have "(2 :: rat) ^ 52 * 2 \<le> 2 ^ 52 * 2 ^ m" by simp
    moreover have "of_int n \<le> (of_int (2 ^ 53) :: rat)" using assms(3) by (simp only: of_int_le_iff)
    ultimately show ?thesis by simp
  qed
qed

lemma to_double_le:
  assumes "x \<le> of_int n" "0 < x" "n \<le> 2 ^ 53"
  shows "to_double x \<le> of_int n"
proof -
  define e where "e = double_exponent x"
  have "of_int n \<le> (of_int (2 ^ 53) :: rat)" using assms(3) by (simp only: of_int_le_iff)
  then have n: "of_int n \<le> (2 ^ 53 :: rat)" by simp
  show ?thesis
  proof (cases "e \<le> 52")
    case True
    define m where "m = nat (52 - e)"
    have "x * 2 ^ m \<le> of_int (n * 2 ^ m)" using assms(1) by simp
    then have "round_half_even (x * 2 ^ m) \<le> n * 2 ^ m" by (rule round_half_even_le)
    then have "of_int (round_half_even (x * 2 ^ m)) \<le> (of_int (n * 2 ^ m) :: rat)"
      by (simp only: of_int_le_iff)
    then have "(of_int (round_half_even (x * 2 ^ m)) :: rat) \<le> of_int n * 2 ^ m" by simp
    then show ?thesis using to_double_pos(1) [OF assms(2)] True
      by (simp add: e_def m_def pos_divide_le_eq)
  next
    case False
    have "(2 :: rat) ^ 53 \<le> 2 ^ nat e" using False by (intro power_increasing) auto
    moreover have ex: "2 ^ nat e \<le> x"
      using double_exponent_bounds(1) [OF assms(2)] False by (auto simp: e_def power_int_def)
    ultimately have "2 ^ 53 \<le> x" by simp
    with assms(1) n have x: "x = 2 ^ 53" and nn: "of_int n = (2 ^ 53 :: rat)" by linarith+
    have "e = 53"
    proof -
      have "(2 :: rat) powi e \<le> 2 powi 53" using ex x False by (simp add: power_int_def)
      then have "e \<le> 53" by (rule power_int_le_imp_le_exp [rotated]) simp_all
      with False show ?thesis by simp
    qed
    moreover have "round_half_even (2 ^ 52) = (2 ^ 52 :: int)"
      using round_half_even_int [of "2 ^ 52"] by simp
    ultimately show ?thesis using to_double_pos(2) [OF assms(2)] by (simp add: e_def x nn)
  qed
qed

lemma to_double_int: "1 \<le> n \<Longrightarrow> n \<le> 2 ^ 53 \<Longrightarrow> to_double (of_int n) = of_int n"
  by (intro order_antisym to_double_le to_double_ge) auto

section \<open>Timestamps\<close>

type_synonym Timestamp = int

definition kMicroSecondsPerSecond :: int where
  "kMicroSecondsPerSecond = 1000 * 1000"

definition Timestamp_plus :: "Timestamp \<Rightarrow> rat \<Rightarrow> Timestamp result" where
  "Timestamp_plus t seconds =
     bindR (int64R (trunc (to_double (seconds * of_int kMicroSecondsPerSecond)))) (\<lambda>delta.
     int64R (t + delta))"

definition Timestamp_valid :: "Timestamp \<Rightarrow> bool" where
  "Timestamp_valid t \<longleftrightarrow> t \<noteq> 0 \<or> t \<noteq> - 1"

definition Timestamp_toString :: "Timestamp \<Rightarrow> string" where
  "Timestamp_toString t =
     (let seconds = t sdiv kMicroSecondsPerSecond; micro = t smod kMicroSecondsPerSecond
      in snprintf 31 (printf_d seconds @ ''.'' @ printf_0d 6 micro))"

section \<open>The calendar of \<open>gmtime_r\<close>\<close>

definition leap_year :: "int \<Rightarrow> bool" where
  "leap_year y \<longleftrightarrow> 4 dvd y \<and> (\<not> 100 dvd y \<or> 400 dvd y)"

definition year_days :: "int \<Rightarrow> int" where
  "year_days y = (if leap_year y then 366 else 365)"

definition month_days :: "int \<Rightarrow> int list" where
  "month_days y = [31, if leap_year y then 29 else 28, 31, 30, 31, 30, 31, 31, 30, 31, 30, 31]"

text \<open>The year and the day of the year of day \<open>d\<close>, counted from the first of January of year \<open>y\<close>.\<close>

function find_year :: "int \<Rightarrow> int \<Rightarrow> int \<times> int" where
  "find_year y d =
     (if d < 0 then find_year (y - 1) (d + year_days (y - 1))
      else if year_days y \<le> d then find_year (y + 1) (d - year_days y)
      else (y, d))"
  by auto
termination
  by (relation "measure (\<lambda>(y, d). if d < 0 then nat (- d) + 366 else nat d)")
    (auto simp: year_days_def split: if_splits)

declare find_year.simps [simp del]

fun find_month :: "int list \<Rightarrow> int \<Rightarrow> int \<Rightarrow> int \<times> int" where
  "find_month [] m d = (m, d)"
| "find_month (l # ls) m d = (if d < l then (m, d) else find_month ls (m + 1) (d - l))"

record tm =
  tm_year :: int
  tm_mon :: int
  tm_mday :: int
  tm_hour :: int
  tm_min :: int
  tm_sec :: int

definition gmtime_r :: "int \<Rightarrow> tm" where
  "gmtime_r t =
     (let (y, yd) = find_year 1970 (t div 86400);
          (m, d) = find_month (month_days y) 0 yd;
          r = t mod 86400
      in \<lparr>tm_year = y - 1900, tm_mon = m, tm_mday = d + 1,
          tm_hour = r div 3600, tm_min = r mod 3600 div 60, tm_sec = r mod 60\<rparr>)"

definition tm_string :: "tm \<Rightarrow> string" where
  "tm_string tm =
     printf_wd 4 (tm_year tm + 1900) @ printf_0d 2 (tm_mon tm + 1) @ printf_0d 2 (tm_mday tm) @ '' '' @
     printf_0d 2 (tm_hour tm) @ '':'' @ printf_0d 2 (tm_min tm) @ '':'' @ printf_0d 2 (tm_sec tm)"

definition Timestamp_toFormatedString :: "bool \<Rightarrow> Timestamp \<Rightarrow> string" where
  "Timestamp_toFormatedString showMicroseconds t =
     (let tm = gmtime_r (t sdiv kMicroSecondsPerSecond)
      in if showMicroseconds
         then snprintf 32 (tm_string tm @ ''.'' @ printf_0d 6 (t smod kMicroSecondsPerSecond))
         else snprintf 32 (tm_string tm))"

section \<open>The calendar is right\<close>

text \<open>The day number of the first of January of year \<open>y\<close> in closed form, and the inverse of
  \<open>gmtime_r\<close>.\<close>

definition leaps_before :: "int \<Rightarrow> int" where
  "leaps_before y = (y - 1) div 4 - (y - 1) div 100 + (y - 1) div 400"

definition days_to_year :: "int \<Rightarrow> int" where
  "days_to_year y = 365 * (y - 1970) + leaps_before y - leaps_before 1970"

definition timegm :: "tm \<Rightarrow> int" where
  "timegm tm =
     (days_to_year (tm_year tm + 1900) +
      sum_list (take (nat (tm_mon tm)) (month_days (tm_year tm + 1900))) + tm_mday tm - 1) * 86400 +
     tm_hour tm * 3600 + tm_min tm * 60 + tm_sec tm"

lemma div_pred: "0 < k \<Longrightarrow> y div k - (y - 1) div k = (if k dvd y then 1 else 0)" for y k :: int
proof -
  assume k: "0 < k"
  show ?thesis
  proof (cases "k dvd y")
    case True
    then obtain q where q: "y = k * q" ..
    have "(k * q - 1) div k = q - 1"
      using k by (intro int_div_pos_eq [where r = "k - 1"]) (auto simp: algebra_simps)
    with q k True show ?thesis by simp
  next
    case False
    then have "y mod k \<noteq> 0" by (simp add: mod_eq_0_iff_dvd)
    moreover have "0 \<le> y mod k" "y mod k < k" using k by simp_all
    ultimately have "(y - 1) div k = y div k"
      by (intro int_div_pos_eq [where r = "y mod k - 1"]) auto
    with False show ?thesis by simp
  qed
qed

lemma days_to_year_Suc: "days_to_year (y + 1) = days_to_year y + year_days y"
proof -
  define a b c where dv: "a \<longleftrightarrow> 4 dvd y" "b \<longleftrightarrow> 100 dvd y" "c \<longleftrightarrow> 400 dvd y"
  have imp: "b \<Longrightarrow> a" "c \<Longrightarrow> b"
    unfolding dv using dvd_trans [of 4 100 y] dvd_trans [of 100 400 y] by simp_all
  have "leaps_before (y + 1) - leaps_before y =
      (y div 4 - (y - 1) div 4) - (y div 100 - (y - 1) div 100) + (y div 400 - (y - 1) div 400)"
    by (simp add: leaps_before_def)
  also have "\<dots> = (if a then 1 else 0) - (if b then 1 else 0) + (if c then 1 else 0)"
    unfolding dv by (simp only: div_pred zero_less_numeral)
  also have "\<dots> = (if a \<and> (\<not> b \<or> c) then 1 else 0)"
    using imp by (cases a; cases b; cases c) simp_all
  also have "a \<and> (\<not> b \<or> c) \<longleftrightarrow> leap_year y" by (simp add: leap_year_def dv)
  finally have "leaps_before (y + 1) - leaps_before y = (if leap_year y then 1 else 0)" .
  then show ?thesis by (simp add: days_to_year_def year_days_def split: if_splits)
qed

lemma find_year_spec:
  "find_year y d = (y', d') \<Longrightarrow>
   days_to_year y' + d' = days_to_year y + d \<and> 0 \<le> d' \<and> d' < year_days y'"
proof (induction y d rule: find_year.induct)
  case (1 y d)
  show ?case
  proof (cases "d < 0")
    case True
    with 1(1,3) show ?thesis using days_to_year_Suc [of "y - 1"] by (simp add: find_year.simps [of y])
  next
    case False
    with 1(2,3) show ?thesis using days_to_year_Suc [of y]
      by (auto simp: find_year.simps [of y] split: if_splits)
  qed
qed

lemma find_month_spec:
  assumes "find_month ls m d = (m', d')" "0 \<le> d" "d < sum_list ls" "\<forall>l \<in> set ls. 0 < l"
  shows "m \<le> m' \<and> nat (m' - m) < length ls \<and> d = sum_list (take (nat (m' - m)) ls) + d' \<and>
    0 \<le> d' \<and> d' < ls ! nat (m' - m)"
  using assms
proof (induction ls m d rule: find_month.induct)
  case (2 l ls m d)
  show ?case
  proof (cases "d < l")
    case True
    with 2 show ?thesis by simp
  next
    case False
    with 2 have IH: "m + 1 \<le> m' \<and> nat (m' - (m + 1)) < length ls \<and>
        d - l = sum_list (take (nat (m' - (m + 1))) ls) + d' \<and> 0 \<le> d' \<and> d' < ls ! nat (m' - (m + 1))"
      by (intro "2.IH") auto
    then have "nat (m' - m) = Suc (nat (m' - (m + 1)))" by linarith
    with IH show ?thesis by auto
  qed
qed simp

lemma sum_month_days: "sum_list (month_days y) = year_days y"
  by (simp add: month_days_def year_days_def)

lemma month_days_list: "length (month_days y) = 12" "l \<in> set (month_days y) \<Longrightarrow> 0 < l \<and> l \<le> 31"
  by (auto simp: month_days_def split: if_splits)

definition tm_ok :: "tm \<Rightarrow> bool" where
  "tm_ok tm \<longleftrightarrow> 0 \<le> tm_mon tm \<and> tm_mon tm < 12 \<and>
     1 \<le> tm_mday tm \<and> tm_mday tm \<le> month_days (tm_year tm + 1900) ! nat (tm_mon tm) \<and>
     0 \<le> tm_hour tm \<and> tm_hour tm < 24 \<and> 0 \<le> tm_min tm \<and> tm_min tm < 60 \<and>
     0 \<le> tm_sec tm \<and> tm_sec tm < 60"

lemma gmtime_r_ok: "tm_ok (gmtime_r t) \<and> timegm (gmtime_r t) = t"
proof -
  obtain y yd where y: "find_year 1970 (t div 86400) = (y, yd)" by (cases "find_year 1970 (t div 86400)")
  obtain m d where m: "find_month (month_days y) 0 yd = (m, d)" by (cases "find_month (month_days y) 0 yd")
  have Y: "days_to_year y + yd = t div 86400" "0 \<le> yd" "yd < year_days y"
    using find_year_spec [OF y] by (auto simp: days_to_year_def)
  have M: "0 \<le> m \<and> nat m < 12 \<and> yd = sum_list (take (nat m) (month_days y)) + d \<and>
      0 \<le> d \<and> d < month_days y ! nat m"
    using find_month_spec [OF m Y(2)] Y(3)
    by (simp add: sum_month_days month_days_list)
  define r where "r = t mod 86400"
  have r: "0 \<le> r" "r < 86400" by (simp_all add: r_def)
  define hr mn sc q where defs: "hr = r div 3600" "mn = r mod 3600 div 60" "sc = r mod 60" "q = r mod 3600"
  have h: "r = hr * 3600 + q" "0 \<le> q" "q < 3600" by (simp_all add: defs)
  have "r mod 3600 mod 60 = r mod 60" by (simp add: mod_mod_cancel)
  then have mi: "q = mn * 60 + sc" "0 \<le> sc" "sc < 60"
    using div_mult_mod_eq [of "r mod 3600" 60] by (simp_all add: defs)
  have tm: "gmtime_r t = \<lparr>tm_year = y - 1900, tm_mon = m, tm_mday = d + 1,
      tm_hour = hr, tm_min = mn, tm_sec = sc\<rparr>"
    unfolding gmtime_r_def y m defs r_def Let_def prod.case by (rule refl)
  have D: "days_to_year y + sum_list (take (nat m) (month_days y)) + d = t div 86400"
    using Y(1) M by simp
  have "timegm (gmtime_r t) = (days_to_year y + sum_list (take (nat m) (month_days y)) + d) * 86400 + r"
    using h mi by (simp add: tm timegm_def)
  also have "\<dots> = t" unfolding D by (simp add: r_def)
  finally have T: "timegm (gmtime_r t) = t" .
  have "0 \<le> hr" "hr < 24" "0 \<le> mn" "mn < 60" using r h mi by linarith+
  moreover have "m < 12" using M by linarith
  ultimately have "tm_ok (gmtime_r t)" using M mi by (simp add: tm tm_ok_def)
  with T show ?thesis by simp
qed

section \<open>Properties\<close>

lemma Timestamp_valid_always [simp]: "Timestamp_valid t"
  by (simp add: Timestamp_valid_def)

lemma to_double_nonneg: "0 \<le> x \<Longrightarrow> 0 \<le> to_double x"
  by (simp add: to_double_def Let_def round_half_even_ge)

lemma Timestamp_plus_ok:
  assumes "\<lfloor>s * 1000000\<rfloor> = m" and "0 \<le> m" and "m < 2 ^ 53"
    and "int64_ok t" and "int64_ok (t + m + 1)"
  shows "\<exists>d. Timestamp_plus t s = Inr (t + d) \<and> m \<le> d \<and> d \<le> m + 1 \<and> (s * 1000000 = of_int m \<longrightarrow> d = m)"
proof -
  define x where "x = s * 1000000"
  have lo: "of_int m \<le> x" and hi: "x \<le> of_int (m + 1)"
    using assms(1) floor_correct [of x] by (auto simp: x_def)
  define d where "d = trunc (to_double x)"
  have x: "0 \<le> x" using lo assms(2) order_trans [of 0 "of_int m" x] by simp
  then have nn: "0 \<le> to_double x" by (rule to_double_nonneg)
  have "of_int m \<le> to_double x"
    using nn to_double_ge [OF lo] assms(2,3) by (cases "m = 0") auto
  moreover have "to_double x \<le> of_int (m + 1)"
    using to_double_le [OF hi] x assms(2,3) by (cases "x = 0") (auto simp: to_double_def)
  ultimately have D: "of_int m \<le> to_double x" "to_double x \<le> of_int (m + 1)" .
  have "\<not> to_double x < 0" using nn by simp
  then have d: "m \<le> d" "d \<le> m + 1"
    using D floor_mono [OF D(2)] by (simp_all add: d_def trunc_def le_floor_iff)
  have ex: "d = m" if "x = of_int m"
    using that assms(2,3) to_double_int [of m] by (cases "m = 0") (auto simp: d_def trunc_def to_double_def)
  have "int64_ok d" "int64_ok (t + d)" using d assms by (auto simp: int64_ok_def)
  then have "Timestamp_plus t s = Inr (t + d)"
    by (simp add: Timestamp_plus_def kMicroSecondsPerSecond_def d_def x_def int64R_def)
  with d ex show ?thesis by (auto simp: x_def)
qed

text \<open>Adding a delay that is not negative to a timestamp moves it by at least the whole
  microseconds of the delay and at most one more, for the rounding of the multiplication; a delay that
  is a whole number of microseconds is added exactly.\<close>

lemma Timestamp_plus_accuracy:
  assumes "\<lfloor>s * 1000000\<rfloor> = m" and "0 \<le> m" and "m < 2 ^ 53"
    and "int64_ok t" and "int64_ok (t + m + 1)"
  shows "\<exists>d. Timestamp_plus t s = Inr (t + d) \<and> m \<le> d \<and> d \<le> m + 1 \<and> (s * 1000000 = of_int m \<longrightarrow> d = m)"
  using assms by (rule Timestamp_plus_ok)

text \<open>Readers for the two textual forms.\<close>

definition parse_seconds :: "string \<Rightarrow> int" where
  "parse_seconds s =
     strtol (takeWhile is_digit s) * 1000000 + int (undec (tl (dropWhile is_digit s)))"

definition field :: "nat \<Rightarrow> nat \<Rightarrow> string \<Rightarrow> int" where
  "field i w s = int (undec (take w (drop i s)))"

definition parse_tm :: "string \<Rightarrow> tm" where
  "parse_tm s =
     \<lparr>tm_year = field 0 4 s - 1900, tm_mon = field 4 2 s - 1, tm_mday = field 6 2 s,
      tm_hour = field 9 2 s, tm_min = field 12 2 s, tm_sec = field 15 2 s\<rparr>"

definition parse_formated :: "string \<Rightarrow> int" where
  "parse_formated s = timegm (parse_tm s) * 1000000 + field 18 6 s"

lemma sdiv_smod_nonneg: "0 \<le> t \<Longrightarrow> 0 < k \<Longrightarrow> t sdiv k = t div k \<and> t smod k = t mod k" for t k :: int
  by (cases "t = 0")
    (auto simp: signed_divide_int_def signed_modulo_int_def minus_mult_div_eq_mod mult.commute sgn_if)

lemma printf_d_nonneg: "0 \<le> i \<Longrightarrow> c \<in> set (printf_d i) \<Longrightarrow> is_digit c"
  by (auto simp: printf_d_def dest: dec_digits)

lemma takeWhile_digits:
  "\<forall>c \<in> set xs. is_digit c \<Longrightarrow> \<not> is_digit d \<Longrightarrow>
   takeWhile is_digit (xs @ d # ys) = xs \<and> dropWhile is_digit (xs @ d # ys) = d # ys"
  by (induction xs) auto

text \<open>\<^verbatim>\<open>toString\<close> of a timestamp from the epoch on fits its buffer and determines the timestamp:
  reading the seconds and the microseconds back gives it.\<close>

lemma Timestamp_toString_roundtrip:
  assumes "0 \<le> t" and "int64_ok t"
  shows "length (Timestamp_toString t) < 31 \<and> parse_seconds (Timestamp_toString t) = t"
proof -
  define a b where ab: "a = t div 1000000" "b = t mod 1000000"
  have a: "0 \<le> a" "\<bar>a\<bar> < 10 ^ 13" using assms by (auto simp: ab int64_ok_def)
  have b: "0 \<le> b" "b < 10 ^ 6" by (simp_all add: ab)
  have len: "length (printf_d a) \<le> 14" using length_printf_d [OF _ a(2)] by simp
  have lb: "length (printf_0d 6 b) = 6" using b by (simp add: length_printf_0d)
  let ?s = "printf_d a @ ''.'' @ printf_0d 6 b"
  have s: "Timestamp_toString t = ?s"
    using sdiv_smod_nonneg [OF assms(1), of 1000000] len lb
    by (simp add: Timestamp_toString_def kMicroSecondsPerSecond_def ab snprintf_def)
  have "takeWhile is_digit ?s = printf_d a \<and> dropWhile is_digit ?s = CHR ''.'' # printf_0d 6 b"
    using takeWhile_digits [of "printf_d a" "CHR ''.''" "printf_0d 6 b"] printf_d_nonneg [OF a(1)]
    by (simp add: is_digit_def)
  then have "parse_seconds ?s = a * 1000000 + b" using b by (simp add: parse_seconds_def undec_printf_0d)
  then show ?thesis using len lb by (simp add: s ab)
qed

text \<open>Up to the end of the year 9999 every field of the formatted string has its nominal width.\<close>

lemma days_to_year_mono: "y \<le> y' \<Longrightarrow> days_to_year y \<le> days_to_year y'"
proof (induction rule: int_ge_induct)
  case (step i)
  then show ?case using days_to_year_Suc [of i] by (simp add: year_days_def split: if_splits)
qed simp

lemma gmtime_r_year:
  assumes "0 \<le> t" "t < 253402300800"
  shows "1970 \<le> tm_year (gmtime_r t) + 1900 \<and> tm_year (gmtime_r t) + 1900 \<le> 9999"
proof -
  obtain y yd where y: "find_year 1970 (t div 86400) = (y, yd)" by (cases "find_year 1970 (t div 86400)")
  have Y: "days_to_year y + yd = t div 86400" "0 \<le> yd" "yd < year_days y"
    using find_year_spec [OF y] by (auto simp: days_to_year_def)
  have d: "0 \<le> t div 86400" "t div 86400 < 2932897" using assms by auto
  have "y \<le> 9999"
  proof (rule ccontr)
    assume "\<not> y \<le> 9999"
    then have "days_to_year 10000 \<le> days_to_year y" by (intro days_to_year_mono) simp
    with Y(1,2) d show False by (simp add: days_to_year_def leaps_before_def)
  qed
  moreover have "1970 \<le> y"
  proof (rule ccontr)
    assume "\<not> 1970 \<le> y"
    then have "days_to_year (y + 1) \<le> days_to_year 1970" by (intro days_to_year_mono) simp
    then have "days_to_year y + year_days y \<le> 0"
      using days_to_year_Suc [of y] by (simp add: days_to_year_def)
    with Y d show False by simp
  qed
  ultimately show ?thesis by (simp add: gmtime_r_def y Let_def split: prod.split)
qed

lemma length_printf_d_exact: "1000 \<le> y \<Longrightarrow> y \<le> 9999 \<Longrightarrow> length (printf_d y) = 4"
  using dec_length [of 4 "nat y"] dec_length [of 3 "nat y"] by (auto simp: printf_d_def)

lemma tm_fields:
  assumes "tm_ok tm"
  shows "length (printf_0d 2 (tm_mon tm + 1)) = 2" "undec (printf_0d 2 (tm_mon tm + 1)) = nat (tm_mon tm + 1)"
    "length (printf_0d 2 (tm_mday tm)) = 2" "undec (printf_0d 2 (tm_mday tm)) = nat (tm_mday tm)"
    "length (printf_0d 2 (tm_hour tm)) = 2" "undec (printf_0d 2 (tm_hour tm)) = nat (tm_hour tm)"
    "length (printf_0d 2 (tm_min tm)) = 2" "undec (printf_0d 2 (tm_min tm)) = nat (tm_min tm)"
    "length (printf_0d 2 (tm_sec tm)) = 2" "undec (printf_0d 2 (tm_sec tm)) = nat (tm_sec tm)"
proof -
  have D: "tm_mday tm \<le> 31"
  proof -
    have "month_days (tm_year tm + 1900) ! nat (tm_mon tm) \<in> set (month_days (tm_year tm + 1900))"
      using assms by (intro nth_mem) (simp add: month_days_list tm_ok_def nat_less_iff)
    from month_days_list(2) [OF this] show ?thesis using assms by (simp add: tm_ok_def)
  qed
  have L: "length (printf_0d 2 i) = 2 \<and> undec (printf_0d 2 i) = nat i" if "0 \<le> i" "i < 100" for i
    using that by (simp add: length_printf_0d undec_printf_0d)
  show "length (printf_0d 2 (tm_mon tm + 1)) = 2" "undec (printf_0d 2 (tm_mon tm + 1)) = nat (tm_mon tm + 1)"
    "length (printf_0d 2 (tm_mday tm)) = 2" "undec (printf_0d 2 (tm_mday tm)) = nat (tm_mday tm)"
    "length (printf_0d 2 (tm_hour tm)) = 2" "undec (printf_0d 2 (tm_hour tm)) = nat (tm_hour tm)"
    "length (printf_0d 2 (tm_min tm)) = 2" "undec (printf_0d 2 (tm_min tm)) = nat (tm_min tm)"
    "length (printf_0d 2 (tm_sec tm)) = 2" "undec (printf_0d 2 (tm_sec tm)) = nat (tm_sec tm)"
    using assms D by (simp_all add: L tm_ok_def)
qed

lemma tm_string_fields:
  assumes "tm_ok tm" "1000 \<le> tm_year tm + 1900" "tm_year tm + 1900 \<le> 9999"
  shows "length (tm_string tm) = 17 \<and> parse_tm (tm_string tm @ s) = tm"
proof -
  have y: "length (printf_wd 4 (tm_year tm + 1900)) = 4"
      "undec (printf_wd 4 (tm_year tm + 1900)) = nat (tm_year tm + 1900)"
    using length_printf_d_exact [OF assms(2,3)] assms(2)
    by (simp_all add: printf_wd_def pad_left_def) (simp add: printf_d_def)
  show ?thesis
    using assms by (simp add: tm_string_def parse_tm_def field_def tm_fields y tm_ok_def)
qed

text \<open>C39: \<^verbatim>\<open>toFormatedString(true)\<close> of an instant from the epoch up to the year 9999 has 24 characters
  and determines the instant to the microsecond: the calendar fields read back from it are those of
  that instant.\<close>

theorem Timestamp_toFormatedString_roundtrip:
  assumes "0 \<le> t" and "t < 253402300800000000"
  shows "length (Timestamp_toFormatedString True t) = 24 \<and>
    parse_formated (Timestamp_toFormatedString True t) = t"
proof -
  define a b where ab: "a = t div 1000000" "b = t mod 1000000"
  have b: "0 \<le> b" "b < 10 ^ 6" by (simp_all add: ab)
  have a: "0 \<le> a" "a < 253402300800" using assms by (auto simp: ab)
  have lb: "length (printf_0d 6 b) = 6" using b by (simp add: length_printf_0d)
  have tm: "length (tm_string (gmtime_r a)) = 17" "parse_tm (tm_string (gmtime_r a) @ s) = gmtime_r a" for s
    using tm_string_fields [of "gmtime_r a"] gmtime_r_ok [of a] gmtime_r_year [OF a] by auto
  have s: "Timestamp_toFormatedString True t = tm_string (gmtime_r a) @ ''.'' @ printf_0d 6 b"
    using sdiv_smod_nonneg [OF assms(1), of 1000000] tm lb
    by (simp add: Timestamp_toFormatedString_def kMicroSecondsPerSecond_def ab snprintf_def)
  have "field 18 6 (tm_string (gmtime_r a) @ ''.'' @ printf_0d 6 b) = b"
    using tm(1) lb b by (simp add: field_def undec_printf_0d)
  then show ?thesis
    using gmtime_r_ok [of a] tm lb by (simp add: s parse_formated_def ab)
qed

theorem Timestamp_toFormatedString_roundtrip_witness:
  "parse_formated (Timestamp_toFormatedString True 1500000000000042) = 1500000000000042"
  using Timestamp_toFormatedString_roundtrip [of 1500000000000042] by simp

end
