(* ===== verification/Net_State.thy ===== *)
theory Net_State
  imports Timestamps "HOL-Library.Word"
begin

unbundle bit_operations_syntax

text \<open>
  The state the reactor's components share. Objects live at addresses (natural numbers); an address
  with no object is freed memory, and touching it is the error \<open>Use_after_free\<close>. The closures that
  polly stores in \<^verbatim>\<open>std::function\<close> members and in the functor queue are written as data, one
  constructor per lambda or \<^verbatim>\<open>std::bind\<close> of the source; what a closure does is given where the
  component it calls is defined. The operating system is a parameter, a record of functions from
  the number of system calls made so far to the answer of the next one. The log statements of the
  net/ sources have no effect on this state.
\<close>

section \<open>Closures\<close>

text \<open>
  \<open>Capture\<close> addresses name the variables a lambda captured by reference: the parameters of the
  function that created it.
\<close>

datatype closure =
    Acceptor_handleRead_fn
  | EventLoop_handleRead_fn
  | TimerQueue_HandleRead_fn
  | Conn_HandleRead_fn nat
  | Conn_HandleWrite_fn nat
  | Conn_HandleClose_fn nat
  | Conn_sendInLoop_fn nat nat
  | Conn_shutdownInLoop_fn nat
  | Conn_ConnectDestroyed_fn nat
  | Conn_writeComplete_fn nat
  | TimerQueue_addTimer_fn nat
  | User_fn nat

section \<open>The operating system\<close>

text \<open>\<^verbatim>\<open>struct pollfd\<close>: two of its members are \<^verbatim>\<open>short\<close>.\<close>

record pollfd =
  pfd_fd :: int
  pfd_events :: "16 word"
  pfd_revents :: "16 word"

text \<open>The members of \<^verbatim>\<open>struct sockaddr_in\<close> that vary, in network byte order.\<close>

record sockaddr_in =
  sin_port :: "16 word"
  sin_addr :: "32 word"

text \<open>
  \<open>k_write\<close> answers with the return value and \<^verbatim>\<open>errno\<close>, \<open>k_readv\<close> with \<^verbatim>\<open>errno\<close> or the bytes read,
  \<open>k_accept\<close> with the new descriptor and the peer's address, \<open>k_name\<close> with
  the return value and the address \<^verbatim>\<open>getsockname\<close> and \<^verbatim>\<open>getpeername\<close> store, \<open>k_settime\<close> with the return value of
  \<^verbatim>\<open>timerfd_settime\<close>, \<open>k_call\<close> with the return value of every other call.
\<close>

record kernel =
  k_time :: "nat \<Rightarrow> int \<times> int"
  k_poll :: "nat \<Rightarrow> pollfd list \<Rightarrow> int \<times> 16 word list"
  k_write :: "nat \<Rightarrow> int \<Rightarrow> char list \<Rightarrow> int \<times> int"
  k_readv :: "nat \<Rightarrow> int \<Rightarrow> nat list \<Rightarrow> int + char list"
  k_accept :: "nat \<Rightarrow> int \<times> sockaddr_in"
  k_name :: "nat \<Rightarrow> int \<times> sockaddr_in"
  k_settime :: "nat \<Rightarrow> int"
  k_call :: "nat \<Rightarrow> int"

text \<open>\<^verbatim>\<open>gettimeofday\<close> answers with seconds and microseconds.\<close>

definition Timestamp_now :: "kernel \<Rightarrow> nat \<Rightarrow> Timestamp" where
  "Timestamp_now k t =
     (let (tv_sec, tv_usec) = k_time k t in tv_sec * kMicroSecondsPerSecond + tv_usec)"

text \<open>
  What the code relies on: \<^verbatim>\<open>poll(2)\<close> answers for every entry, never reports on a negative
  descriptor, never sets the sign bit of \<^verbatim>\<open>revents\<close>, and a positive return value is the number of
  entries with events; \<^verbatim>\<open>write(2)\<close> returns -1 or the number of bytes taken, at most those offered;
  \<^verbatim>\<open>readv(2)\<close> delivers at most the bytes the ranges can hold.
\<close>

definition poll_ok :: "kernel \<Rightarrow> bool" where
  "poll_ok k \<longleftrightarrow> (\<forall>t ps. let (n, revs) = k_poll k t ps in
     length revs = length ps \<and>
     (\<forall>i < length ps. 0 \<le> sint (revs ! i) \<and> (pfd_fd (ps ! i) < 0 \<longrightarrow> revs ! i = 0)) \<and>
     (0 < n \<longrightarrow> n = int (length (filter (\<lambda>r. r \<noteq> 0) revs))))"

definition write_ok :: "kernel \<Rightarrow> bool" where
  "write_ok k \<longleftrightarrow> (\<forall>t fd bs. - 1 \<le> fst (k_write k t fd bs) \<and> fst (k_write k t fd bs) \<le> int (length bs))"

text \<open>\<^verbatim>\<open>timerfd_settime\<close> succeeds, and the clock stays far from the ends of \<^verbatim>\<open>int64_t\<close>.\<close>

definition settime_ok :: "kernel \<Rightarrow> bool" where
  "settime_ok k \<longleftrightarrow> (\<forall>t. k_settime k t = 0)"

definition clock_ok :: "kernel \<Rightarrow> bool" where
  "clock_ok k \<longleftrightarrow> (\<forall>t. 0 \<le> Timestamp_now k t \<and> Timestamp_now k t < 2 ^ 60)"

definition kernel_readv_ok :: "kernel \<Rightarrow> bool" where
  "kernel_readv_ok k \<longleftrightarrow> (\<forall>t fd lens bs. k_readv k t fd lens = Inr bs \<longrightarrow> length bs \<le> sum_list lens)"

text \<open>A system on which nothing happens, for concrete runs.\<close>

definition null_kernel :: kernel where
  "null_kernel = \<lparr>k_time = (\<lambda>_. (0, 5)), k_poll = (\<lambda>_ ps. (0, map (\<lambda>_. 0) ps)),
     k_write = (\<lambda>_ _ _. (0, 0)), k_readv = (\<lambda>_ _ _. Inl 0),
     k_accept = (\<lambda>_. (- 1, \<lparr>sin_port = 0, sin_addr = 0\<rparr>)),
     k_name = (\<lambda>_. (- 1, \<lparr>sin_port = 0, sin_addr = 0\<rparr>)), k_settime = (\<lambda>_. 0), k_call = (\<lambda>_. 0)\<rparr>"

section \<open>Channels, the poller and the loop\<close>

record Channel =
  ch_loop :: nat
  ch_fd :: int
  ch_events :: "32 word"
  ch_revents :: "32 word"
  ch_index :: int
  ch_read_cb :: "closure option"
  ch_write_cb :: "closure option"
  ch_error_cb :: "closure option"
  ch_close_cb :: "closure option"

text \<open>
  One event loop: the calling thread and the number of system calls so far, the \<^verbatim>\<open>Channel\<close> objects,
  the members of its \<^verbatim>\<open>Poller\<close> (\<open>pollfds\<close>, \<open>channels\<close>), its own members, the counter of its eventfd
  and the by-reference captures that are still alive, with the next free address for one.
\<close>

datatype capture =
    Captured_timer closure Timestamp rat
  | Captured_string string

record loop_state =
  tick :: nat
  cur_tid :: int
  chans :: "nat \<Rightarrow> Channel option"
  pollfds :: "pollfd list"
  channels :: "int \<Rightarrow> nat option"
  loop_addr :: nat
  threadId :: int
  looping :: bool
  quit_flag :: bool
  active_channels :: "nat list"
  wakeup_fd :: int
  wakeup_count :: nat
  functors :: "closure list"
  captures :: "nat \<Rightarrow> capture option"
  next_capture :: nat

end
