(* ===== verification/Polling.thy ===== *)
theory Polling
  imports Net_State
begin

unbundle bit_operations_syntax

text \<open>
  \<^verbatim>\<open>Channel\<close> (net/channel.h, net/channel.cc), \<^verbatim>\<open>Poller\<close> (net/poller.h, net/poller.cc) and the path
  between them through \<^verbatim>\<open>EventLoop::update\<close>. The invariant \<open>Poller_inv\<close> ties the vector of
  \<^verbatim>\<open>pollfd\<close>s, the map from descriptors to channels and the index each channel remembers. It is
  kept by registering a channel, by changing its events and by removing the last entry. Removing
  any other entry leaves the channels behind it with an index that is one too large: their next
  update fails an assertion.
\<close>

section \<open>Event bits\<close>

definition POLLIN :: "'a::len word" where "POLLIN = 0x001"

definition POLLPRI :: "'a::len word" where "POLLPRI = 0x002"

definition POLLOUT :: "'a::len word" where "POLLOUT = 0x004"

definition POLLERR :: "'a::len word" where "POLLERR = 0x008"

definition POLLHUP :: "'a::len word" where "POLLHUP = 0x010"

definition POLLNVAL :: "'a::len word" where "POLLNVAL = 0x020"

definition POLLRDHUP :: "'a::len word" where "POLLRDHUP = 0x2000"

lemmas poll_bits = POLLIN_def POLLPRI_def POLLOUT_def POLLERR_def POLLHUP_def POLLNVAL_def POLLRDHUP_def

definition kNoneEvent :: "32 word" where
  "kNoneEvent = 0"

definition kReadEvent :: "32 word" where
  "kReadEvent = POLLIN OR POLLPRI"

definition kWriteEvent :: "32 word" where
  "kWriteEvent = POLLOUT"

section \<open>\<open>Channel\<close>\<close>

definition Channel_new :: "nat \<Rightarrow> int \<Rightarrow> Channel" where
  "Channel_new loop fd =
     \<lparr>ch_loop = loop, ch_fd = fd, ch_events = 0, ch_revents = 0, ch_index = - 1,
      ch_read_cb = None, ch_write_cb = None, ch_error_cb = None, ch_close_cb = None\<rparr>"

definition Channel_SetReadCallback :: "closure \<Rightarrow> Channel \<Rightarrow> Channel" where
  [simp]: "Channel_SetReadCallback cb ch = ch\<lparr>ch_read_cb := Some cb\<rparr>"

definition Channel_SetWriteCallback :: "closure \<Rightarrow> Channel \<Rightarrow> Channel" where
  [simp]: "Channel_SetWriteCallback cb ch = ch\<lparr>ch_write_cb := Some cb\<rparr>"

definition Channel_SetErrorCallback :: "closure \<Rightarrow> Channel \<Rightarrow> Channel" where
  [simp]: "Channel_SetErrorCallback cb ch = ch\<lparr>ch_error_cb := Some cb\<rparr>"

definition Channel_SetCloseCallback :: "closure \<Rightarrow> Channel \<Rightarrow> Channel" where
  [simp]: "Channel_SetCloseCallback cb ch = ch\<lparr>ch_close_cb := Some cb\<rparr>"

definition isWritingEnabled :: "Channel \<Rightarrow> bool" where
  "isWritingEnabled ch \<longleftrightarrow> ch_events ch AND kWriteEvent \<noteq> 0"

definition isNoneEvent :: "Channel \<Rightarrow> bool" where
  "isNoneEvent ch \<longleftrightarrow> ch_events ch = kNoneEvent"

definition isInLoopThread :: "'a loop_state_scheme \<Rightarrow> bool" where
  "isInLoopThread s \<longleftrightarrow> threadId s = cur_tid s"

definition assertInLoopThread :: "'a loop_state_scheme \<Rightarrow> 'b result \<Rightarrow> 'b result" where
  "assertInLoopThread s k =
     (if \<not> isInLoopThread s then Inl (Runtime_error ''abortNotInLoopThread()'') else k)"

section \<open>\<open>Poller::UpdateChannel\<close> and the operations that reach it\<close>

definition Poller_UpdateChannel :: "nat \<Rightarrow> 'a loop_state_scheme \<Rightarrow> 'a loop_state_scheme result" where
  "Poller_UpdateChannel c s =
     assertInLoopThread s (ptrR Use_after_free (chans s c) (\<lambda>ch.
       if ch_index ch < 0
       then assertR (channels s (ch_fd ch) = None)
              (let pfd = \<lparr>pfd_fd = ch_fd ch, pfd_events = ucast (ch_events ch), pfd_revents = 0\<rparr>;
                   pfds = pollfds s @ [pfd]
               in Inr (s\<lparr>pollfds := pfds,
                         chans := (chans s)(c \<mapsto> ch\<lparr>ch_index := int (length pfds) - 1\<rparr>),
                         channels := (channels s)(ch_fd ch \<mapsto> c)\<rparr>))
       else assertR (channels s (ch_fd ch) \<noteq> None)
              (assertR (channels s (ch_fd ch) = Some c)
                (let idx = ch_index ch
                 in assertR (0 \<le> idx \<and> idx < int (length (pollfds s)))
                      (let pfd = pollfds s ! nat idx
                       in assertR (pfd_fd pfd = ch_fd ch \<or> pfd_fd pfd = - 1)
                            (let pfds = (pollfds s)[nat idx := pfd\<lparr>pfd_events := ucast (ch_events ch),
                                                                  pfd_revents := 0\<rparr>]
                             in if isNoneEvent ch
                                then Inr (s\<lparr>channels := (channels s)(pfd_fd pfd := None),
                                            pollfds := take (nat idx) pfds @ drop (Suc (nat idx)) pfds\<rparr>)
                                else Inr (s\<lparr>pollfds := pfds\<rparr>)))))))"

definition EventLoop_update :: "nat \<Rightarrow> 'a loop_state_scheme \<Rightarrow> 'a loop_state_scheme result" where
  "EventLoop_update c s =
     ptrR Use_after_free (chans s c) (\<lambda>ch.
       assertR (ch_loop ch = loop_addr s) (assertInLoopThread s (Poller_UpdateChannel c s)))"

text \<open>The channel operations that change \<^verbatim>\<open>events_\<close>: set it, then \<^verbatim>\<open>update()\<close>.\<close>

definition Channel_set_events ::
  "(32 word \<Rightarrow> 32 word) \<Rightarrow> nat \<Rightarrow> 'a loop_state_scheme \<Rightarrow> 'a loop_state_scheme result" where
  "Channel_set_events f c s =
     ptrR Use_after_free (chans s c) (\<lambda>ch.
       EventLoop_update c (s\<lparr>chans := (chans s)(c \<mapsto> ch\<lparr>ch_events := f (ch_events ch)\<rparr>)\<rparr>))"

definition Channel_EnableReading :: "nat \<Rightarrow> 'a loop_state_scheme \<Rightarrow> 'a loop_state_scheme result" where
  "Channel_EnableReading = Channel_set_events (\<lambda>e. e OR kReadEvent)"

definition Channel_EnableWriting :: "nat \<Rightarrow> 'a loop_state_scheme \<Rightarrow> 'a loop_state_scheme result" where
  "Channel_EnableWriting = Channel_set_events (\<lambda>e. e OR kWriteEvent)"

definition Channel_DisableWriting :: "nat \<Rightarrow> 'a loop_state_scheme \<Rightarrow> 'a loop_state_scheme result" where
  "Channel_DisableWriting = Channel_set_events (\<lambda>e. e AND NOT kWriteEvent)"

definition Channel_DisbaleAll :: "nat \<Rightarrow> 'a loop_state_scheme \<Rightarrow> 'a loop_state_scheme result" where
  "Channel_DisbaleAll = Channel_set_events (\<lambda>_. kNoneEvent)"

section \<open>\<open>Poller::Poll\<close>\<close>

fun fillActiveChannels ::
  "pollfd list \<Rightarrow> int \<Rightarrow> 'a loop_state_scheme \<Rightarrow> 'a loop_state_scheme result" where
  "fillActiveChannels [] numEvents s = Inr s"
| "fillActiveChannels (it # its) numEvents s =
     (if 0 \<le> pfd_fd it \<and> 0 < sint (pfd_revents it)
      then case channels s (pfd_fd it) of
             None \<Rightarrow> Inl Assertion_failed
           | Some c \<Rightarrow> ptrR Use_after_free (chans s c) (\<lambda>ch.
               assertR (ch_fd ch = pfd_fd it)
                 (let s' = s\<lparr>chans := (chans s)(c \<mapsto> ch\<lparr>ch_revents := scast (pfd_revents it)\<rparr>),
                             active_channels := active_channels s @ [c]\<rparr>
                  in if numEvents - 1 = 0 then Inr s' else fillActiveChannels its (numEvents - 1) s'))
      else fillActiveChannels its numEvents s)"

definition set_revents :: "pollfd list \<Rightarrow> 16 word list \<Rightarrow> pollfd list" where
  "set_revents ps revs = map2 (\<lambda>p r. p\<lparr>pfd_revents := r\<rparr>) ps revs"

definition Poller_Poll :: "kernel \<Rightarrow> 'a loop_state_scheme \<Rightarrow> (int \<times> 'a loop_state_scheme) result" where
  "Poller_Poll k s =
     (let (numEvents, revs) = k_poll k (tick s) (pollfds s);
          now = Timestamp_now k (Suc (tick s));
          s = s\<lparr>pollfds := set_revents (pollfds s) revs, tick := tick s + 2\<rparr>
      in if 0 < numEvents
         then bindR (fillActiveChannels (pollfds s) numEvents s) (\<lambda>s'. Inr (now, s'))
         else Inr (now, s))"

section \<open>\<open>Channel::HandleEvent\<close>\<close>

text \<open>
  The member function runs callbacks that may free the channel it belongs to, so every access to a
  member after a callback looks the channel up again. \<open>run\<close> executes a closure.
\<close>

definition call_cb ::
  "(closure \<Rightarrow> 's \<Rightarrow> 's result) \<Rightarrow> closure option \<Rightarrow> 's \<Rightarrow> 's result" where
  "call_cb run cb s = (case cb of None \<Rightarrow> Inr s | Some f \<Rightarrow> run f s)"

definition HandleEvent_stage ::
  "(closure \<Rightarrow> 'a loop_state_scheme \<Rightarrow> 'a loop_state_scheme result) \<Rightarrow> 32 word \<Rightarrow>
   (Channel \<Rightarrow> closure option) \<Rightarrow> nat \<Rightarrow> 'a loop_state_scheme \<Rightarrow> 'a loop_state_scheme result" where
  "HandleEvent_stage run bits cb c s =
     ptrR Use_after_free (chans s c) (\<lambda>ch.
       if ch_revents ch AND bits \<noteq> 0 then call_cb run (cb ch) s else Inr s)"

definition Channel_HandleEvent ::
  "(closure \<Rightarrow> 'a loop_state_scheme \<Rightarrow> 'a loop_state_scheme result) \<Rightarrow> nat \<Rightarrow>
   'a loop_state_scheme \<Rightarrow> 'a loop_state_scheme result" where
  "Channel_HandleEvent run c s =
     ptrR Use_after_free (chans s c) (\<lambda>ch.
       if ch_revents ch AND POLLHUP \<noteq> 0 \<and> ch_close_cb ch \<noteq> None
       then call_cb run (ch_close_cb ch) s
       else bindR (HandleEvent_stage run (POLLERR OR POLLNVAL) ch_error_cb c s) (\<lambda>s.
            bindR (HandleEvent_stage run (POLLIN OR POLLPRI OR POLLRDHUP) ch_read_cb c s) (\<lambda>s.
            HandleEvent_stage run POLLOUT ch_write_cb c s)))"

section \<open>The poller's invariant\<close>

text \<open>\<open>registered s i c ch\<close>: entry \<open>i\<close> of the vector belongs to the channel object \<open>ch\<close> at \<open>c\<close>.\<close>

definition registered :: "'a loop_state_scheme \<Rightarrow> nat \<Rightarrow> nat \<Rightarrow> Channel \<Rightarrow> bool" where
  "registered s i c ch \<longleftrightarrow> i < length (pollfds s) \<and>
     channels s (pfd_fd (pollfds s ! i)) = Some c \<and> chans s c = Some ch \<and>
     ch_fd ch = pfd_fd (pollfds s ! i) \<and> ch_index ch = int i \<and>
     pfd_events (pollfds s ! i) = ucast (ch_events ch) \<and> ch_loop ch = loop_addr s"

definition Poller_inv :: "'a loop_state_scheme \<Rightarrow> bool" where
  "Poller_inv s \<longleftrightarrow>
     distinct (map pfd_fd (pollfds s)) \<and> - 1 \<notin> set (map pfd_fd (pollfds s)) \<and>
     dom (channels s) = set (map pfd_fd (pollfds s)) \<and>
     (\<forall>i < length (pollfds s). \<exists>c ch. registered s i c ch)"

lemma Poller_inv_fd_inj:
  "Poller_inv s \<Longrightarrow> i < length (pollfds s) \<Longrightarrow> j < length (pollfds s) \<Longrightarrow>
   pfd_fd (pollfds s ! i) = pfd_fd (pollfds s ! j) \<longleftrightarrow> i = j"
  by (auto simp: Poller_inv_def distinct_conv_nth)

lemma Poller_inv_fd_valid: "Poller_inv s \<Longrightarrow> i < length (pollfds s) \<Longrightarrow> pfd_fd (pollfds s ! i) \<noteq> - 1"
  unfolding Poller_inv_def by (metis length_map nth_map nth_mem)

lemma Poller_inv_lookup:
  assumes "Poller_inv s" "channels s fd = Some c"
  obtains i ch where "registered s i c ch" "ch_fd ch = fd"
proof -
  from assms have "fd \<in> set (map pfd_fd (pollfds s))" by (auto simp: Poller_inv_def)
  then obtain i where i: "i < length (pollfds s)" "fd = pfd_fd (pollfds s ! i)"
    by (auto simp: in_set_conv_nth)
  with assms obtain c' ch where "registered s i c' ch" by (auto simp: Poller_inv_def)
  with assms i that [of i ch] show thesis by (auto simp: registered_def)
qed

lemma set_events_new:
  assumes "isInLoopThread s" "chans s c = Some ch" "ch_index ch < 0" "ch_loop ch = loop_addr s"
    "channels s (ch_fd ch) = None"
  shows "Channel_set_events f c s = Inr (s\<lparr>
     pollfds := pollfds s @ [\<lparr>pfd_fd = ch_fd ch, pfd_events = ucast (f (ch_events ch)), pfd_revents = 0\<rparr>],
     chans := (chans s)(c \<mapsto> ch\<lparr>ch_events := f (ch_events ch), ch_index := int (length (pollfds s))\<rparr>),
     channels := (channels s)(ch_fd ch \<mapsto> c)\<rparr>)"
  using assms
  by (simp add: Channel_set_events_def EventLoop_update_def Poller_UpdateChannel_def
      assertInLoopThread_def isInLoopThread_def Let_def)

lemma set_events_registered:
  assumes "isInLoopThread s" "registered s i c ch"
  shows "Channel_set_events f c s = Inr (
     if f (ch_events ch) = kNoneEvent
     then s\<lparr>chans := (chans s)(c \<mapsto> ch\<lparr>ch_events := kNoneEvent\<rparr>),
            channels := (channels s)(ch_fd ch := None),
            pollfds := take i (pollfds s) @ drop (Suc i) (pollfds s)\<rparr>
     else s\<lparr>chans := (chans s)(c \<mapsto> ch\<lparr>ch_events := f (ch_events ch)\<rparr>),
            pollfds := (pollfds s)[i := (pollfds s ! i)\<lparr>pfd_events := ucast (f (ch_events ch)),
                                                       pfd_revents := 0\<rparr>]\<rparr>)"
  using assms
  by (simp add: Channel_set_events_def EventLoop_update_def Poller_UpdateChannel_def registered_def
      assertInLoopThread_def isInLoopThread_def isNoneEvent_def Let_def)

lemma set_events_new_inv:
  assumes inv: "Poller_inv s" and new: "isInLoopThread s" "chans s c = Some ch" "ch_index ch < 0"
    "ch_loop ch = loop_addr s" "channels s (ch_fd ch) = None" and fd: "ch_fd ch \<noteq> - 1"
  shows "okR (Channel_set_events f c s) (\<lambda>s'. Poller_inv s' \<and>
    registered s' (length (pollfds s)) c (ch\<lparr>ch_events := f (ch_events ch), ch_index := int (length (pollfds s))\<rparr>))"
proof -
  have other: "registered s i c' ch' \<Longrightarrow> c' \<noteq> c \<and> ch_fd ch' \<noteq> ch_fd ch" for i c' ch'
    using new by (auto simp: registered_def)
  have fds: "ch_fd ch \<notin> set (map pfd_fd (pollfds s))"
    using inv new(5) by (auto simp: Poller_inv_def)
  let ?s = "s\<lparr>pollfds := pollfds s @ [\<lparr>pfd_fd = ch_fd ch, pfd_events = ucast (f (ch_events ch)), pfd_revents = 0\<rparr>],
     chans := (chans s)(c \<mapsto> ch\<lparr>ch_events := f (ch_events ch), ch_index := int (length (pollfds s))\<rparr>),
     channels := (channels s)(ch_fd ch \<mapsto> c)\<rparr>"
  have last: "registered ?s (length (pollfds s)) c
      (ch\<lparr>ch_events := f (ch_events ch), ch_index := int (length (pollfds s))\<rparr>)"
    using new by (simp add: registered_def)
  have old: "registered ?s i c' ch'" if "registered s i c' ch'" for i c' ch'
    using that other [OF that] by (auto simp: registered_def nth_append)
  have all: "\<exists>c' ch'. registered ?s i c' ch'" if "i < length (pollfds ?s)" for i
  proof (cases "i < length (pollfds s)")
    case True
    with inv obtain c' ch' where "registered s i c' ch'" by (auto simp: Poller_inv_def)
    with old show ?thesis by blast
  next
    case False
    with that last show ?thesis by (auto simp: less_Suc_eq)
  qed
  have "Poller_inv ?s"
    unfolding Poller_inv_def using inv fd fds all by (intro conjI) (auto simp: Poller_inv_def)
  with last show ?thesis by (simp add: set_events_new [OF new])
qed

lemma registered_inj:
  "registered s i c ch \<Longrightarrow> registered s j c ch' \<Longrightarrow> j = i \<and> ch' = ch"
  by (auto simp: registered_def)

lemma map_pfd_fd_update:
  "i < length ps \<Longrightarrow> pfd_fd p = pfd_fd (ps ! i) \<Longrightarrow> map pfd_fd (ps[i := p]) = map pfd_fd ps"
  by (metis list_update_id map_update)

lemma set_events_update_inv:
  assumes inv: "Poller_inv s" and thr: "isInLoopThread s" and reg: "registered s i c ch"
    and some: "f (ch_events ch) \<noteq> kNoneEvent"
  shows "okR (Channel_set_events f c s) (\<lambda>s'. Poller_inv s' \<and>
    registered s' i c (ch\<lparr>ch_events := f (ch_events ch)\<rparr>) \<and>
    (\<forall>j c' ch'. j \<noteq> i \<longrightarrow> registered s j c' ch' \<longrightarrow> registered s' j c' ch'))"
proof -
  let ?ch = "ch\<lparr>ch_events := f (ch_events ch)\<rparr>"
  let ?s = "s\<lparr>chans := (chans s)(c \<mapsto> ?ch),
     pollfds := (pollfds s)[i := (pollfds s ! i)\<lparr>pfd_events := ucast (f (ch_events ch)), pfd_revents := 0\<rparr>]\<rparr>"
  have new: "registered ?s i c ?ch" using reg by (simp add: registered_def)
  have old: "registered ?s j c' ch'" if "j \<noteq> i" "registered s j c' ch'" for j c' ch'
    using that registered_inj [OF reg, of j ch'] by (auto simp: registered_def)
  have all: "\<exists>c' ch'. registered ?s j c' ch'" if "j < length (pollfds ?s)" for j
  proof (cases "j = i")
    case False
    with that inv obtain c' ch' where "registered s j c' ch'" by (auto simp: Poller_inv_def)
    with old False show ?thesis by blast
  qed (use new in blast)
  have "map pfd_fd (pollfds ?s) = map pfd_fd (pollfds s)"
    using reg by (simp add: map_pfd_fd_update registered_def)
  then have "Poller_inv ?s" using inv all by (simp only: Poller_inv_def) simp
  then show ?thesis
    using new old some by (simp add: set_events_registered [OF thr reg])
qed

text \<open>A change of one entry and its channel leaves the other entries alone.\<close>

lemma registered_update:
  assumes reg: "registered s i b ch"
    and s': "chans s' = (chans s)(b \<mapsto> ch')" "ch_index ch' = ch_index ch" "pollfds s' = (pollfds s)[i := p]"
      "channels s' = channels s" "loop_addr s' = loop_addr s"
    and j: "j \<noteq> i"
  shows "registered s' j d dh \<longleftrightarrow> registered s j d dh"
  using reg j s'(2) by (auto simp: registered_def s'(1,3-5))

lemma Poller_inv_update:
  assumes inv: "Poller_inv s" and reg: "registered s i b ch" "registered s' i b ch'"
    and s': "chans s' = (chans s)(b \<mapsto> ch')" "ch_index ch' = ch_index ch" "pollfds s' = (pollfds s)[i := p]"
      "channels s' = channels s" "loop_addr s' = loop_addr s" and p: "pfd_fd p = ch_fd ch"
  shows "Poller_inv s'"
proof -
  have fds: "map pfd_fd (pollfds s') = map pfd_fd (pollfds s)"
    using reg(1) p by (simp add: s'(3) map_pfd_fd_update registered_def)
  have "\<exists>d dh. registered s' j d dh" if "j < length (pollfds s')" for j
  proof (cases "j = i")
    case False
    then show ?thesis
      using that inv registered_update [OF reg(1) s' False] by (auto simp: Poller_inv_def s'(3))
  qed (use reg(2) in blast)
  then show ?thesis using inv by (simp only: Poller_inv_def fds s'(4)) blast
qed

section \<open>Removing an entry\<close>

definition removed :: "'a loop_state_scheme \<Rightarrow> nat \<Rightarrow> nat \<Rightarrow> Channel \<Rightarrow> 'a loop_state_scheme" where
  "removed s i c ch = s\<lparr>chans := (chans s)(c \<mapsto> ch\<lparr>ch_events := kNoneEvent\<rparr>),
     channels := (channels s)(ch_fd ch := None),
     pollfds := take i (pollfds s) @ drop (Suc i) (pollfds s)\<rparr>"

lemma DisbaleAll_registered:
  "isInLoopThread s \<Longrightarrow> registered s i c ch \<Longrightarrow> Channel_DisbaleAll c s = Inr (removed s i c ch)"
  by (simp add: Channel_DisbaleAll_def set_events_registered removed_def)

lemma removed_before:
  assumes "Poller_inv s" "registered s i c ch" "registered s j c' ch'" "j < i"
  shows "registered (removed s i c ch) j c' ch'"
proof -
  have "c' \<noteq> c" using assms(2-4) registered_inj by blast
  moreover have "ch_fd ch' \<noteq> ch_fd ch"
    using assms Poller_inv_fd_inj [OF assms(1), of j i] by (auto simp: registered_def)
  ultimately show ?thesis
    using assms(2-4) by (auto simp: registered_def removed_def nth_append)
qed

lemma removed_last_inv:
  assumes inv: "Poller_inv s" and reg: "registered s i c ch" and last: "Suc i = length (pollfds s)"
  shows "Poller_inv (removed s i c ch)"
proof -
  let ?s = "removed s i c ch" and ?ps = "pollfds s"
  have ps: "?ps = take i ?ps @ [?ps ! i]"
    using last by (metis lessI take_Suc_conv_app_nth take_all order_refl)
  have pfds: "pollfds ?s = take i ?ps" using last by (simp add: removed_def)
  have fd: "ch_fd ch = pfd_fd (?ps ! i)" using reg by (simp add: registered_def)
  have "distinct (map pfd_fd (take i ?ps @ [?ps ! i]))"
    using inv ps by (metis Poller_inv_def)
  then have d: "distinct (map pfd_fd (take i ?ps))" "ch_fd ch \<notin> set (map pfd_fd (take i ?ps))"
    by (simp_all add: fd)
  have "dom (channels s) = set (map pfd_fd (take i ?ps @ [?ps ! i]))"
    using inv ps by (metis Poller_inv_def)
  then have "dom (channels ?s) = set (map pfd_fd (take i ?ps))"
    using d(2) by (auto simp: removed_def fd)
  moreover have "- 1 \<notin> set (map pfd_fd (take i ?ps))"
    using inv by (auto simp: Poller_inv_def dest: in_set_takeD)
  moreover have "\<exists>c' ch'. registered ?s j c' ch'" if "j < i" for j
  proof -
    from that last inv obtain c' ch' where "registered s j c' ch'"
      unfolding Poller_inv_def by (metis Suc_lessD Suc_mono)
    from removed_before [OF inv reg this that] show ?thesis by blast
  qed
  ultimately show ?thesis using d(1) last by (simp add: Poller_inv_def pfds)
qed

lemma removed_behind_stale:
  assumes inv: "Poller_inv s" and thr: "isInLoopThread s" and reg: "registered s i c ch"
    and later: "registered s j c' ch'" "i < j"
  shows "Channel_set_events f c' (removed s i c ch) = Inl Assertion_failed"
proof -
  let ?s = "removed s i c ch" and ?ps = "pollfds s"
  have j: "j < length ?ps" and i: "i < length ?ps" using reg later by (auto simp: registered_def)
  have c': "c' \<noteq> c" using reg later registered_inj by blast
  have fd: "ch_fd ch' \<noteq> ch_fd ch"
    using later reg Poller_inv_fd_inj [OF inv, of j i] by (auto simp: registered_def)
  have len: "length (pollfds ?s) = length ?ps - 1" using i by (simp add: removed_def)
  have "pfd_fd (pollfds ?s ! j) \<noteq> ch_fd ch' \<and> pfd_fd (pollfds ?s ! j) \<noteq> - 1"
    if "j < length (pollfds ?s)"
  proof -
    from that len have "Suc j < length ?ps" by simp
    moreover have "pollfds ?s ! j = ?ps ! Suc j"
      using later(2) \<open>Suc j < length ?ps\<close> by (simp add: removed_def nth_append min_def)
    ultimately show ?thesis
      using later(1) Poller_inv_fd_inj [OF inv, of "Suc j" j] Poller_inv_fd_valid [OF inv, of "Suc j"]
      by (auto simp: registered_def)
  qed
  moreover have "chans ?s c' = Some ch'" "channels ?s (ch_fd ch') = Some c'" "ch_index ch' = int j"
      "ch_loop ch' = loop_addr ?s" "isInLoopThread ?s"
    using later c' fd thr by (auto simp: registered_def removed_def isInLoopThread_def)
  ultimately show ?thesis
    by (auto simp: Channel_set_events_def EventLoop_update_def Poller_UpdateChannel_def
        assertInLoopThread_def isInLoopThread_def Let_def assertR_def)
qed

lemma removed_again:
  assumes "isInLoopThread s" "registered s i c ch"
  shows "Channel_set_events f c (removed s i c ch) = Inl Assertion_failed"
  using assms
  by (simp add: Channel_set_events_def EventLoop_update_def Poller_UpdateChannel_def removed_def
      registered_def assertInLoopThread_def isInLoopThread_def)

section \<open>Filling the list of active channels\<close>

text \<open>The effect of the loop body for one entry with events, and the entries it applies to.\<close>

definition mark :: "pollfd \<Rightarrow> 'a loop_state_scheme \<Rightarrow> 'a loop_state_scheme" where
  "mark p s = (case channels s (pfd_fd p) of None \<Rightarrow> s | Some c \<Rightarrow>
     (case chans s c of None \<Rightarrow> s | Some ch \<Rightarrow>
        s\<lparr>chans := (chans s)(c \<mapsto> ch\<lparr>ch_revents := scast (pfd_revents p)\<rparr>),
          active_channels := active_channels s @ [c]\<rparr>))"

definition hot :: "pollfd \<Rightarrow> bool" where
  "hot p \<longleftrightarrow> 0 < sint (pfd_revents p)"

definition known :: "'a loop_state_scheme \<Rightarrow> pollfd \<Rightarrow> bool" where
  "known s p \<longleftrightarrow> (\<exists>c ch. channels s (pfd_fd p) = Some c \<and> chans s c = Some ch \<and> ch_fd ch = pfd_fd p)"

lemma mark_simps [simp]:
  "channels (mark p s) = channels s" "pollfds (mark p s) = pollfds s" "loop_addr (mark p s) = loop_addr s"
  by (simp_all add: mark_def split: option.split)

lemma known_mark: "known s p \<Longrightarrow> known (mark q s) p"
  by (auto simp: known_def mark_def split: option.splits)

lemma fillActiveChannels_fold:
  assumes "\<forall>p \<in> set its. known s p" "\<forall>p \<in> set its. hot p \<longrightarrow> 0 \<le> pfd_fd p"
    "n = int (length (filter hot its))"
  shows "fillActiveChannels its n s = Inr (fold mark (filter hot its) s)"
  using assms
proof (induction its arbitrary: n s)
  case (Cons p its)
  show ?case
  proof (cases "hot p")
    case True
    from Cons.prems(1) obtain c ch where c: "channels s (pfd_fd p) = Some c" "chans s c = Some ch"
        "ch_fd ch = pfd_fd p"
      by (auto simp: known_def)
    then have m: "mark p s = s\<lparr>chans := (chans s)(c \<mapsto> ch\<lparr>ch_revents := scast (pfd_revents p)\<rparr>),
        active_channels := active_channels s @ [c]\<rparr>"
      by (simp add: mark_def)
    have "fillActiveChannels (p # its) n s =
        (if n - 1 = 0 then Inr (mark p s) else fillActiveChannels its (n - 1) (mark p s))"
      using True Cons.prems(2) c by (simp add: hot_def m)
    moreover have "fillActiveChannels its (n - 1) (mark p s) = Inr (fold mark (filter hot its) (mark p s))"
      using Cons.prems True known_mark by (intro Cons.IH) auto
    ultimately show ?thesis using True Cons.prems(3) by auto
  next
    case False
    then have "fillActiveChannels (p # its) n s = fillActiveChannels its n s" by (simp add: hot_def)
    with Cons False show ?thesis by simp
  qed
qed simp

lemma registered_mark:
  assumes inv: "Poller_inv s" and reg: "registered s i c ch" and j: "j < length (pollfds s)"
  shows "registered (mark (pollfds s ! j) s) i c
    (if i = j then ch\<lparr>ch_revents := scast (pfd_revents (pollfds s ! j))\<rparr> else ch)"
proof -
  from inv j obtain d dh where d: "registered s j d dh" by (auto simp: Poller_inv_def)
  then have m: "mark (pollfds s ! j) s =
      s\<lparr>chans := (chans s)(d \<mapsto> dh\<lparr>ch_revents := scast (pfd_revents (pollfds s ! j))\<rparr>),
        active_channels := active_channels s @ [d]\<rparr>"
    by (simp add: mark_def registered_def)
  show ?thesis
  proof (cases "i = j")
    case True
    with d reg have "d = c" "dh = ch" by (auto simp: registered_def)
    with True reg show ?thesis by (auto simp: m registered_def)
  next
    case False
    with d reg registered_inj have "d \<noteq> c" by blast
    with False reg show ?thesis by (auto simp: m registered_def)
  qed
qed

lemma Poller_inv_mark:
  assumes "Poller_inv s" "j < length (pollfds s)"
  shows "Poller_inv (mark (pollfds s ! j) s)"
proof -
  have "\<exists>c ch. registered (mark (pollfds s ! j) s) i c ch" if "i < length (pollfds s)" for i
    using that registered_mark [OF assms(1) _ assms(2)] assms(1) unfolding Poller_inv_def by meson
  with assms show ?thesis by (simp add: Poller_inv_def)
qed

lemma active_mark:
  "known s p \<Longrightarrow> active_channels (mark p s) = active_channels s @ [the (channels s (pfd_fd p))]"
  by (auto simp: known_def mark_def)

lemma Poller_inv_known: "Poller_inv s \<Longrightarrow> i < length (pollfds s) \<Longrightarrow> known s (pollfds s ! i)"
  unfolding Poller_inv_def known_def registered_def by fastforce

lemma fold_mark:
  assumes "Poller_inv s" "\<forall>j \<in> set js. j < length (pollfds s)"
  shows "Poller_inv (fold (\<lambda>j. mark (pollfds s ! j)) js s) \<and>
    active_channels (fold (\<lambda>j. mark (pollfds s ! j)) js s) =
      active_channels s @ map (\<lambda>j. the (channels s (pfd_fd (pollfds s ! j)))) js \<and>
    (registered s i c ch \<longrightarrow> registered (fold (\<lambda>j. mark (pollfds s ! j)) js s) i c
       (if i \<in> set js then ch\<lparr>ch_revents := scast (pfd_revents (pollfds s ! i))\<rparr> else ch))"
  using assms
proof (induction js arbitrary: s ch)
  case (Cons j js)
  let ?s = "mark (pollfds s ! j) s"
  have j: "j < length (pollfds s)" using Cons.prems by simp
  have inv: "Poller_inv ?s" using Cons.prems j by (simp add: Poller_inv_mark)
  note IH = Cons.IH [OF inv, simplified]
  have act: "active_channels ?s = active_channels s @ [the (channels s (pfd_fd (pollfds s ! j)))]"
    using Poller_inv_known [OF Cons.prems(1) j] by (rule active_mark)
  have reg: "registered s i c ch \<Longrightarrow> registered ?s i c
      (if i = j then ch\<lparr>ch_revents := scast (pfd_revents (pollfds s ! j))\<rparr> else ch)"
    using registered_mark [OF Cons.prems(1) _ j] .
  show ?case
    using IH [of "if i = j then ch\<lparr>ch_revents := scast (pfd_revents (pollfds s ! j))\<rparr> else ch"]
      Cons.prems reg by (auto simp: act split: if_splits)
qed simp

lemma filter_nth_indices:
  "filter P xs = map ((!) xs) (filter (\<lambda>i. P (xs ! i)) [0..<length xs])"
proof -
  have "filter P xs = filter P (map ((!) xs) [0..<length xs])" by (simp add: map_nth)
  then show ?thesis by (simp add: filter_map comp_def)
qed

lemma length_set_revents [simp]: "length rs = length ps \<Longrightarrow> length (set_revents ps rs) = length ps"
  by (simp add: set_revents_def)

lemma nth_set_revents [simp]:
  "i < length ps \<Longrightarrow> length rs = length ps \<Longrightarrow> set_revents ps rs ! i = (ps ! i)\<lparr>pfd_revents := rs ! i\<rparr>"
  by (simp add: set_revents_def)

lemma map_fd_set_revents [simp]:
  "length rs = length ps \<Longrightarrow> map pfd_fd (set_revents ps rs) = map pfd_fd ps"
  by (rule nth_equalityI) simp_all

lemma registered_set_revents:
  "length rs = length (pollfds s) \<Longrightarrow>
   registered (s\<lparr>pollfds := set_revents (pollfds s) rs, tick := t\<rparr>) i c ch \<longleftrightarrow> registered s i c ch"
  by (auto simp: registered_def)

lemma Poller_inv_set_revents:
  assumes "Poller_inv s" "length rs = length (pollfds s)"
  shows "Poller_inv (s\<lparr>pollfds := set_revents (pollfds s) rs, tick := t\<rparr>)"
  unfolding Poller_inv_def
proof (intro conjI allI impI)
  fix i assume "i < length (pollfds (s\<lparr>pollfds := set_revents (pollfds s) rs, tick := t\<rparr>))"
  with assms have "\<exists>c ch. registered s i c ch" by (simp add: Poller_inv_def)
  then show "\<exists>c ch. registered (s\<lparr>pollfds := set_revents (pollfds s) rs, tick := t\<rparr>) i c ch"
    using assms(2) by (simp only: registered_set_revents)
qed (use assms in \<open>auto simp: Poller_inv_def simp del: set_map\<close>)

section \<open>A concrete poller\<close>

text \<open>Two channels, descriptors 3 and 4, both waiting for input; the witnesses below use it.\<close>

definition two_channels :: loop_state where
  "two_channels = \<lparr>tick = 0, cur_tid = 7,
     chans = [1 \<mapsto> (Channel_new 0 3)\<lparr>ch_events := kReadEvent, ch_revents := POLLIN, ch_index := 0,
                      ch_read_cb := Some (User_fn 1)\<rparr>,
              2 \<mapsto> (Channel_new 0 4)\<lparr>ch_events := kReadEvent, ch_index := 1\<rparr>],
     pollfds = [\<lparr>pfd_fd = 3, pfd_events = 3, pfd_revents = 0\<rparr>, \<lparr>pfd_fd = 4, pfd_events = 3, pfd_revents = 0\<rparr>],
     channels = [3 \<mapsto> 1, 4 \<mapsto> 2], loop_addr = 0, threadId = 7, looping = True, quit_flag = False,
     active_channels = [], wakeup_fd = 9, wakeup_count = 0, functors = [], captures = Map.empty, next_capture = 0\<rparr>"

lemma two_channels_registered:
  "registered two_channels 0 1 ((Channel_new 0 3)\<lparr>ch_events := kReadEvent, ch_revents := POLLIN, ch_index := 0,
      ch_read_cb := Some (User_fn 1)\<rparr>)"
  "registered two_channels (Suc 0) 2 ((Channel_new 0 4)\<lparr>ch_events := kReadEvent, ch_index := 1\<rparr>)"
  by (simp_all add: registered_def two_channels_def Channel_new_def kReadEvent_def poll_bits)

lemma two_channels_inv: "Poller_inv two_channels" "isInLoopThread two_channels"
proof -
  have "\<exists>c ch. registered two_channels i c ch" if "i < length (pollfds two_channels)" for i
  proof -
    from that have "i = 0 \<or> i = Suc 0" by (auto simp: two_channels_def)
    then show ?thesis using two_channels_registered by blast
  qed
  then show "Poller_inv two_channels"
    by (auto simp: Poller_inv_def two_channels_def split: if_splits)
  show "isInLoopThread two_channels" by (simp add: isInLoopThread_def two_channels_def)
qed

section \<open>Properties\<close>

text \<open>Polling changes only the \<^verbatim>\<open>revents\<close> of entries and channels, the list of active channels and the count of
  system calls.\<close>

definition marked :: "16 word set \<Rightarrow> 'a loop_state_scheme \<Rightarrow> 'a loop_state_scheme \<Rightarrow> bool" where
  "marked R s s' \<longleftrightarrow> (\<exists>cs as. s' = s\<lparr>chans := cs, active_channels := as\<rparr> \<and>
     (\<forall>b. rel_option (\<lambda>ch ch'. \<exists>r. ch' = ch\<lparr>ch_revents := r\<rparr> \<and> (r = ch_revents ch \<or> r \<in> scast ` R)) (chans s b) (cs b)))"

lemma marked_refl: "marked R s s"
proof -
  have "\<exists>r. ch = ch\<lparr>ch_revents := r\<rparr> \<and> (r = ch_revents ch \<or> r \<in> scast ` R)" for ch
    by (intro exI [of _ "ch_revents ch"]) simp
  then show ?thesis unfolding marked_def
    by (intro exI [of _ "chans s"] exI [of _ "active_channels s"] conjI allI option.rel_refl_strong) simp_all
qed

lemma marked_step:
  assumes "chans s c = Some ch" "r \<in> R" "marked R (s\<lparr>chans := (chans s)(c \<mapsto> ch\<lparr>ch_revents := scast r\<rparr>), active_channels := as\<rparr>) s'"
  shows "marked R s s'"
  using assms unfolding marked_def by (force simp: option_rel_Some1 split: if_splits)

lemma fillActiveChannels_marked:
  "fillActiveChannels its n s = Inr s' \<Longrightarrow> pfd_revents ` set its \<subseteq> R \<Longrightarrow> marked R s s'"
proof (induction its n s rule: fillActiveChannels.induct)
  case (2 it its n s)
  show ?case
  proof (cases "0 \<le> pfd_fd it \<and> 0 < sint (pfd_revents it)")
    case False
    with 2 show ?thesis by (auto split: if_splits)
  next
    case True
    then obtain c dh where c: "channels s (pfd_fd it) = Some c" "chans s c = Some dh" "ch_fd dh = pfd_fd it"
      using 2(3) by (auto simp: ptrR_def assertR_def split: option.splits if_splits)
    let ?t = "s\<lparr>chans := (chans s)(c \<mapsto> dh\<lparr>ch_revents := scast (pfd_revents it)\<rparr>), active_channels := active_channels s @ [c]\<rparr>"
    have "marked R ?t s'"
    proof (cases "n - 1 = 0")
      case False
      have "fillActiveChannels its (n - 1) ?t = Inr s'" using 2(3) True c False by (simp add: Let_def)
      then show ?thesis using 2(1) [OF True c(1) refl False] 2(4) by simp
    qed (use 2(3) True c in \<open>simp add: Let_def marked_refl\<close>)
    then show ?thesis using c(2) 2(4) by (intro marked_step [of s c dh "pfd_revents it"]) auto
  qed
qed (simp add: marked_refl)

lemma Poller_Poll_marked:
  assumes "Poller_Poll k s = Inr (now, s')" "k_poll k (tick s) (pollfds s) = (n, revs)"
  shows "marked (pfd_revents ` set (set_revents (pollfds s) revs)) (s\<lparr>pollfds := set_revents (pollfds s) revs, tick := tick s + 2\<rparr>) s'"
  using assms fillActiveChannels_marked [OF _ order_refl]
  by (auto simp: Poller_Poll_def Let_def result_simps marked_refl split: if_splits)

lemma Poller_Poll_ok:
  assumes inv: "Poller_inv s" and k: "poll_ok k" and p: "k_poll k (tick s) (pollfds s) = (n, revs)"
  shows "okR (Poller_Poll k s) (\<lambda>(now, s'). now = Timestamp_now k (Suc (tick s)) \<and> Poller_inv s' \<and>
    active_channels s' = active_channels s @
      (if 0 < n then map (\<lambda>i. the (channels s (pfd_fd (pollfds s ! i))))
                       (filter (\<lambda>i. revs ! i \<noteq> 0) [0..<length (pollfds s)]) else []) \<and>
    (\<forall>i c ch. registered s i c ch \<longrightarrow> registered s' i c
       (if 0 < n \<and> revs ! i \<noteq> 0 then ch\<lparr>ch_revents := scast (revs ! i)\<rparr> else ch)))"
proof -
  let ?s = "s\<lparr>pollfds := set_revents (pollfds s) revs, tick := tick s + 2\<rparr>"
  have len: "length revs = length (pollfds s)"
    and rev: "i < length (pollfds s) \<Longrightarrow> 0 \<le> sint (revs ! i) \<and> (pfd_fd (pollfds s ! i) < 0 \<longrightarrow> revs ! i = 0)"
    and n: "0 < n \<Longrightarrow> n = int (length (filter (\<lambda>r. r \<noteq> 0) revs))" for i
    using k p unfolding poll_ok_def by (fastforce dest!: spec [of _ "tick s"] spec [of _ "pollfds s"])+
  have inv': "Poller_inv ?s" using inv len by (rule Poller_inv_set_revents)
  define js where "js = filter (\<lambda>i. revs ! i \<noteq> 0) [0..<length (pollfds s)]"
  have hot: "hot (pollfds ?s ! i) \<longleftrightarrow> revs ! i \<noteq> 0" if "i < length (pollfds s)" for i
    using that rev [OF that] len by (auto simp: hot_def less_le signed_eq_0_iff)
  have "filter (\<lambda>i. hot (pollfds ?s ! i)) [0..<length (pollfds s)] = js"
    unfolding js_def by (rule filter_cong [OF refl], rule hot) simp
  then have fl: "filter hot (pollfds ?s) = map ((!) (pollfds ?s)) js"
    using len filter_nth_indices [of hot "pollfds ?s"] by simp
  have js: "\<forall>j \<in> set js. j < length (pollfds ?s)" using len by (auto simp: js_def)
  show ?thesis
  proof (cases "0 < n")
    case True
    have "n = int (length (filter hot (pollfds ?s)))"
      using n [OF True] len fl by (simp add: js_def filter_nth_indices [of "\<lambda>r. r \<noteq> 0" revs])
    moreover have "\<forall>q \<in> set (pollfds ?s). known ?s q" "\<forall>q \<in> set (pollfds ?s). hot q \<longrightarrow> 0 \<le> pfd_fd q"
      using Poller_inv_known [OF inv'] hot rev len by (fastforce simp: in_set_conv_nth)+
    ultimately have "fillActiveChannels (pollfds ?s) n ?s = Inr (fold mark (filter hot (pollfds ?s)) ?s)"
      by (intro fillActiveChannels_fold)
    moreover define t where "t = fold (\<lambda>j. mark (pollfds ?s ! j)) js ?s"
    ultimately have fill: "fillActiveChannels (pollfds ?s) n ?s = Inr t"
      by (simp only: fl fold_map comp_def)
    have t: "Poller_inv t"
      "active_channels t = active_channels s @ map (\<lambda>j. the (channels s (pfd_fd (pollfds ?s ! j)))) js"
      using fold_mark [OF inv' js] by (simp_all add: t_def)
    have "map (\<lambda>j. the (channels s (pfd_fd (pollfds ?s ! j)))) js =
        map (\<lambda>j. the (channels s (pfd_fd (pollfds s ! j)))) js"
      using js len by (intro map_cong) simp_all
    moreover have "registered t i c (if revs ! i \<noteq> 0 then ch\<lparr>ch_revents := scast (revs ! i)\<rparr> else ch)"
      if reg: "registered s i c ch" for i c ch
    proof -
      have i: "i < length (pollfds s)" using reg by (simp add: registered_def)
      have "registered ?s i c ch" using reg by (simp only: registered_set_revents [OF len])
      with fold_mark [OF inv' js, of i c ch] i show ?thesis
        using len by (cases "revs ! i = 0") (simp_all add: t_def js_def)
    qed
    ultimately show ?thesis
      using True p t fill by (simp add: Poller_Poll_def js_def)
  next
    case False
    with p inv' registered_set_revents [OF len, of "tick s + 2"] show ?thesis
      by (simp add: Poller_Poll_def Let_def)
  qed
qed

text \<open>C26: one call of \<^verbatim>\<open>Poller::Poll\<close> on a consistent poller fails no assertion and keeps it
  consistent. When \<^verbatim>\<open>poll(2)\<close> reports events, the active list is extended by exactly the channels
  whose entry has events, in the order of the vector, although the loop counts the reported events
  down and stops early; each of these channels gets the reported \<^verbatim>\<open>revents\<close>, and no other channel
  changes.\<close>

theorem Poller_Poll_correct:
  assumes inv: "Poller_inv s" and k: "poll_ok k" and p: "k_poll k (tick s) (pollfds s) = (n, revs)"
  shows "okR (Poller_Poll k s) (\<lambda>(now, s'). now = Timestamp_now k (Suc (tick s)) \<and> Poller_inv s' \<and>
    active_channels s' = active_channels s @
      (if 0 < n then map (\<lambda>i. the (channels s (pfd_fd (pollfds s ! i))))
                       (filter (\<lambda>i. revs ! i \<noteq> 0) [0..<length (pollfds s)]) else []) \<and>
    (\<forall>i c ch. registered s i c ch \<longrightarrow> registered s' i c
       (if 0 < n \<and> revs ! i \<noteq> 0 then ch\<lparr>ch_revents := scast (revs ! i)\<rparr> else ch)))"
  using assms by (rule Poller_Poll_ok)

theorem Poller_Poll_correct_witness:
  "\<exists>k. poll_ok k \<and> Poller_inv two_channels \<and>
     k_poll k (tick two_channels) (pollfds two_channels) = (1, [0, 1]) \<and>
     okR (Poller_Poll k two_channels) (\<lambda>(now, s'). now = 5 \<and> active_channels s' = [2])"
proof -
  define k where "k = null_kernel\<lparr>
    k_poll := (\<lambda>t ps. if map pfd_fd ps = [3, 4] then (1, [0, 1]) else (0, map (\<lambda>_. 0) ps))\<rparr>"
  have k: "poll_ok k"
    by (auto simp: poll_ok_def k_def less_Suc_eq nth_Cons' Cons_eq_map_conv map_eq_Cons_conv)
  have p: "k_poll k (tick two_channels) (pollfds two_channels) = (1, [0, 1])"
    by (simp add: k_def two_channels_def)
  have "okR (Poller_Poll k two_channels) (\<lambda>(now, s'). now = 5 \<and> active_channels s' = [2])"
    using Poller_Poll_correct [OF two_channels_inv(1) k p]
    by (rule okR_mono) (auto simp: k_def two_channels_def null_kernel_def Timestamp_now_def)
  with k p two_channels_inv show ?thesis by blast
qed

text \<open>C25: on a consistent poller, setting the events of a registered channel to anything but none, or
  removing the channel in the last slot, fails no assertion and keeps the poller consistent; so
  does registering a channel whose descriptor is not in the map.\<close>

theorem Poller_update_keeps_inv:
  assumes inv: "Poller_inv s" and thr: "isInLoopThread s" and c: "chans s c = Some ch" "ch_loop ch = loop_addr s"
    and how: "(registered s i c ch \<and> (f (ch_events ch) \<noteq> kNoneEvent \<or> Suc i = length (pollfds s))) \<or>
      (ch_index ch < 0 \<and> channels s (ch_fd ch) = None \<and> ch_fd ch \<noteq> - 1)"
  shows "okR (Channel_set_events f c s) Poller_inv"
  using how
proof
  assume new: "ch_index ch < 0 \<and> channels s (ch_fd ch) = None \<and> ch_fd ch \<noteq> - 1"
  with set_events_new_inv [OF inv thr c(1) _ c(2), of f] show ?thesis by (auto elim: okR_mono)
next
  assume reg: "registered s i c ch \<and> (f (ch_events ch) \<noteq> kNoneEvent \<or> Suc i = length (pollfds s))"
  show ?thesis
  proof (cases "f (ch_events ch) = kNoneEvent")
    case True
    with reg removed_last_inv [OF inv, of i c ch] set_events_registered [OF thr, of i c ch f] show ?thesis
      by (simp add: removed_def)
  next
    case False
    with reg set_events_update_inv [OF inv thr, of i c ch f] show ?thesis by (auto elim: okR_mono)
  qed
qed

theorem Poller_update_keeps_inv_witness:
  "Poller_inv two_channels \<and> isInLoopThread two_channels \<and>
   okR (Channel_EnableWriting 1 two_channels) Poller_inv \<and> okR (Channel_DisbaleAll 2 two_channels) Poller_inv"
proof -
  note inv = two_channels_inv and reg = two_channels_registered
  have c: "chans two_channels 1 = Some ((Channel_new 0 3)\<lparr>ch_events := kReadEvent, ch_revents := POLLIN,
      ch_index := 0, ch_read_cb := Some (User_fn 1)\<rparr>)"
    "chans two_channels 2 = Some ((Channel_new 0 4)\<lparr>ch_events := kReadEvent, ch_index := 1\<rparr>)"
    by (simp_all add: two_channels_def)
  have e: "kReadEvent OR kWriteEvent \<noteq> kNoneEvent"
    by (simp add: kReadEvent_def kWriteEvent_def kNoneEvent_def poll_bits)
  have "okR (Channel_EnableWriting 1 two_channels) Poller_inv"
    unfolding Channel_EnableWriting_def
    using Poller_update_keeps_inv [OF inv c(1), of 0 "\<lambda>e. e OR kWriteEvent"] reg(1) e
    by (simp add: two_channels_def Channel_new_def)
  moreover have "okR (Channel_DisbaleAll 2 two_channels) Poller_inv"
    unfolding Channel_DisbaleAll_def
    using Poller_update_keeps_inv [OF inv c(2), of "Suc 0" "\<lambda>_. kNoneEvent"] reg(2)
    by (simp add: two_channels_def Channel_new_def)
  ultimately show ?thesis using inv by blast
qed

text \<open>C28: when a channel that is not in the last slot is removed (\<^verbatim>\<open>DisbaleAll\<close>), the indices the
  channels behind it remember are stale: whatever such a channel does next to its events
  (\<open>EnableWriting\<close>, \<open>DisableWriting\<close>, \<open>DisbaleAll\<close>, for any change \<open>f\<close>) stops the program at an
  assertion.\<close>

theorem Poller_remove_leaves_stale_index:
  assumes "Poller_inv s" and "isInLoopThread s" and "registered s i c ch"
    and "registered s j c' ch'" and "i < j"
  shows "okR (Channel_DisbaleAll c s) (\<lambda>s'. Channel_set_events f c' s' = Inl Assertion_failed)"
  using assms by (simp add: DisbaleAll_registered removed_behind_stale)

theorem Poller_remove_leaves_stale_index_witness:
  "Poller_inv two_channels \<and> isInLoopThread two_channels \<and>
   okR (Channel_DisbaleAll 1 two_channels) (\<lambda>s'. Channel_EnableWriting 2 s' = Inl Assertion_failed)"
  using two_channels_inv
    Poller_remove_leaves_stale_index [OF two_channels_inv two_channels_registered, of "\<lambda>e. e OR kWriteEvent"]
  by (simp add: Channel_EnableWriting_def)

text \<open>A removed channel keeps its old index, so enabling any event on it again stops the program
  at an assertion.\<close>

lemma Channel_reenable_fails:
  assumes "isInLoopThread s" and "registered s i c ch"
  shows "okR (Channel_DisbaleAll c s) (\<lambda>s'. Channel_set_events f c s' = Inl Assertion_failed)"
  using assms by (simp add: DisbaleAll_registered removed_again)

section \<open>Dispatch\<close>

text \<open>The closures \<open>HandleEvent\<close> runs for a channel, in order.\<close>

definition opt_list :: "bool \<Rightarrow> 'b option \<Rightarrow> 'b list" where
  "opt_list b x = (if b then (case x of None \<Rightarrow> [] | Some y \<Rightarrow> [y]) else [])"

definition closing :: "Channel \<Rightarrow> bool" where
  "closing ch \<longleftrightarrow> ch_revents ch AND POLLHUP \<noteq> 0 \<and> ch_close_cb ch \<noteq> None"

text \<open>After those of \<open>early\<close> the channel is looked at again, after that of \<open>final\<close> it is not.\<close>

definition early :: "Channel \<Rightarrow> closure list" where
  "early ch = (if closing ch then []
     else opt_list (ch_revents ch AND (POLLERR OR POLLNVAL) \<noteq> 0) (ch_error_cb ch) @
          opt_list (ch_revents ch AND (POLLIN OR POLLPRI OR POLLRDHUP) \<noteq> 0) (ch_read_cb ch))"

definition final :: "Channel \<Rightarrow> closure list" where
  "final ch = (if closing ch then opt_list True (ch_close_cb ch) else opt_list (ch_revents ch AND POLLOUT \<noteq> 0) (ch_write_cb ch))"

definition dispatched :: "Channel \<Rightarrow> closure list" where
  "dispatched ch = early ch @ final ch"

text \<open>What a callback must leave alone for the dispatch to go on as it began, in the states in which it is called.\<close>

definition same_channel :: "Channel \<Rightarrow> Channel \<Rightarrow> bool" where
  "same_channel ch ch' \<longleftrightarrow> ch_revents ch' = ch_revents ch \<and> ch_read_cb ch' = ch_read_cb ch \<and>
     ch_write_cb ch' = ch_write_cb ch \<and> ch_error_cb ch' = ch_error_cb ch"

definition unchanged :: "nat \<Rightarrow> Channel \<Rightarrow> 'a loop_state_scheme \<Rightarrow> bool" where
  "unchanged c ch s \<longleftrightarrow> (case chans s c of None \<Rightarrow> False | Some ch' \<Rightarrow> same_channel ch ch')"

fun intact ::
  "(closure \<Rightarrow> 'a loop_state_scheme \<Rightarrow> 'a loop_state_scheme result) \<Rightarrow> nat \<Rightarrow> Channel \<Rightarrow> closure list \<Rightarrow>
   'a loop_state_scheme \<Rightarrow> bool" where
  "intact run c ch [] s \<longleftrightarrow> True"
| "intact run c ch (f # fs) s \<longleftrightarrow> safeR (run f s) (\<lambda>s'. unchanged c ch s' \<and> intact run c ch fs s')"

lemma intact_append: "intact run c ch (xs @ ys) s \<longleftrightarrow> intact run c ch xs s \<and> safeR (foldR run xs s) (intact run c ch ys)"
proof (induction xs arbitrary: s)
  case (Cons f xs)
  then show ?case by (cases "run f s") auto
qed simp

lemma intact_unchanged: "unchanged c ch s \<Longrightarrow> intact run c ch xs s \<Longrightarrow> safeR (foldR run xs s) (unchanged c ch)"
proof (induction xs arbitrary: s)
  case (Cons f xs)
  then show ?case by (cases "run f s") auto
qed simp

lemma HandleEvent_stage_eq:
  assumes "unchanged c ch s" and "cb \<in> {ch_read_cb, ch_write_cb, ch_error_cb}"
  shows "HandleEvent_stage run bits cb c s = foldR run (opt_list (ch_revents ch AND bits \<noteq> 0) (cb ch)) s"
proof -
  obtain ch' where ch': "chans s c = Some ch'" "same_channel ch ch'" using assms(1) by (auto simp: unchanged_def split: option.splits)
  then have "cb ch' = cb ch" "ch_revents ch' = ch_revents ch" using assms(2) by (auto simp: same_channel_def)
  moreover have one: "foldR run [f] s = run f s" for f by (cases "run f s") simp_all
  ultimately show ?thesis
    using ch'(1) by (cases "cb ch") (simp_all add: HandleEvent_stage_def call_cb_def opt_list_def one del: foldR.simps(2))
qed

lemma HandleEvent_stage_freed: "chans s c = None \<Longrightarrow> HandleEvent_stage run bits cb c s = Inl Use_after_free"
  by (simp add: HandleEvent_stage_def)

lemma foldR_append_cong:
  assumes "m = foldR f xs s" and "\<And>s'. m = Inr s' \<Longrightarrow> k s' = foldR f ys s'"
  shows "bindR m k = foldR f (xs @ ys) s"
  using assms by (cases m) (simp_all add: foldR_append flip: assms(1))

text \<open>\<^verbatim>\<open>HandleEvent\<close> as the sequence of callbacks its \<^verbatim>\<open>revents\<close> call for.\<close>

lemma HandleEvent_intact:
  assumes c: "chans s c = Some ch" and ok: "intact run c ch (early ch) s"
  shows "Channel_HandleEvent run c s = foldR run (dispatched ch) s"
proof (cases "closing ch")
  case True
  then obtain f where "ch_close_cb ch = Some f" by (auto simp: closing_def)
  then show ?thesis
    using True c by (cases "run f s")
      (simp_all add: Channel_HandleEvent_def dispatched_def early_def final_def opt_list_def call_cb_def, simp_all add: closing_def)
next
  case False
  let ?st = "HandleEvent_stage run"
  let ?E = "opt_list (ch_revents ch AND (POLLERR OR POLLNVAL) \<noteq> 0) (ch_error_cb ch)"
    and ?R = "opt_list (ch_revents ch AND (POLLIN OR POLLPRI OR POLLRDHUP) \<noteq> 0) (ch_read_cb ch)"
    and ?W = "opt_list (ch_revents ch AND POLLOUT \<noteq> 0) (ch_write_cb ch)"
  have s: "unchanged c ch s" using c by (simp add: unchanged_def same_channel_def)
  have E: "?st (POLLERR OR POLLNVAL) ch_error_cb c s = foldR run ?E s" by (rule HandleEvent_stage_eq [OF s]) simp
  have iE: "intact run c ch ?E s" "safeR (foldR run ?E s) (intact run c ch ?R)"
    using ok False by (simp_all add: early_def intact_append)
  have "bindR (?st (POLLERR OR POLLNVAL) ch_error_cb c s) (\<lambda>s.
      bindR (?st (POLLIN OR POLLPRI OR POLLRDHUP) ch_read_cb c s) (?st POLLOUT ch_write_cb c)) = foldR run (?E @ ?R @ ?W) s"
  proof (rule foldR_append_cong [OF E])
    fix s1 assume s1: "?st (POLLERR OR POLLNVAL) ch_error_cb c s = Inr s1"
    then have u1: "unchanged c ch s1" and i1: "intact run c ch ?R s1"
      using intact_unchanged [OF s iE(1)] iE(2) unfolding E by (auto dest: safeR_D)
    have R: "?st (POLLIN OR POLLPRI OR POLLRDHUP) ch_read_cb c s1 = foldR run ?R s1" by (rule HandleEvent_stage_eq [OF u1]) simp
    show "bindR (?st (POLLIN OR POLLPRI OR POLLRDHUP) ch_read_cb c s1) (?st POLLOUT ch_write_cb c) = foldR run (?R @ ?W) s1"
    proof (rule foldR_append_cong [OF R])
      fix s2 assume "?st (POLLIN OR POLLPRI OR POLLRDHUP) ch_read_cb c s1 = Inr s2"
      then have "unchanged c ch s2" using intact_unchanged [OF u1 i1] unfolding R by (rule safeR_D [rotated])
      then show "?st POLLOUT ch_write_cb c s2 = foldR run ?W s2" by (rule HandleEvent_stage_eq) simp
    qed
  qed
  then show ?thesis
    using c False by (auto simp: Channel_HandleEvent_def dispatched_def early_def final_def closing_def)
qed

text \<open>A callback that frees the channel, with a look at it still to come.\<close>

lemma HandleEvent_freed:
  assumes c: "chans s c = Some ch" and e: "early ch = xs @ f # ys" and ok: "intact run c ch xs s"
    and run: "foldR run (xs @ [f]) s = Inr s'" and free: "chans s' c = None"
  shows "Channel_HandleEvent run c s = Inl Use_after_free"
proof -
  let ?st = "HandleEvent_stage run"
  let ?E = "opt_list (ch_revents ch AND (POLLERR OR POLLNVAL) \<noteq> 0) (ch_error_cb ch)"
    and ?R = "opt_list (ch_revents ch AND (POLLIN OR POLLPRI OR POLLRDHUP) \<noteq> 0) (ch_read_cb ch)"
  have nc: "\<not> closing ch" using e by (auto simp: early_def split: if_splits)
  have s: "unchanged c ch s" using c by (simp add: unchanged_def same_channel_def)
  have E: "?st (POLLERR OR POLLNVAL) ch_error_cb c s = foldR run ?E s" by (rule HandleEvent_stage_eq [OF s]) simp
  have eq: "Channel_HandleEvent run c s = bindR (foldR run ?E s) (\<lambda>s.
      bindR (?st (POLLIN OR POLLPRI OR POLLRDHUP) ch_read_cb c s) (?st POLLOUT ch_write_cb c))"
    using c nc by (auto simp: Channel_HandleEvent_def E closing_def)
  have ER: "?E @ ?R = xs @ f # ys" using e nc by (simp add: early_def)
  have small: "?E = [] \<or> (\<exists>g. ?E = [g])" "?R = [] \<or> (\<exists>g. ?R = [g])" by (auto simp: opt_list_def split: option.splits)
  consider "?E = xs @ [f]" | "xs = ?E" "?R = [f]" using ER small by (cases xs; cases "tl xs") auto
  then show ?thesis
  proof cases
    case 1
    then show ?thesis using run free unfolding eq by (simp add: HandleEvent_stage_freed)
  next
    case 2
    obtain s1 where s1: "foldR run ?E s = Inr s1" "run f s1 = Inr s'"
      using run 2(1) by (auto simp: foldR_append result_simps)
    have u1: "unchanged c ch s1" using intact_unchanged [OF s ok] 2(1) s1(1) by (simp add: safeR_def)
    have "?st (POLLIN OR POLLPRI OR POLLRDHUP) ch_read_cb c s1 = foldR run ?R s1" by (rule HandleEvent_stage_eq [OF u1]) simp
    then show ?thesis unfolding eq using s1 2(2) free by (simp add: HandleEvent_stage_freed)
  qed
qed

text \<open>If the read callback frees the channel whose event is being handled, \<^verbatim>\<open>HandleEvent\<close> goes on to read
  the freed channel's \<^verbatim>\<open>revents_\<close>.\<close>

lemma HandleEvent_after_free:
  assumes "chans s c = Some ch" and "ch_revents ch = POLLIN" and "ch_read_cb ch = Some f"
    and "run f s = Inr s'" and "chans s' c = None"
  shows "Channel_HandleEvent run c s = Inl Use_after_free"
proof -
  have "early ch = [] @ f # []" using assms(2,3) by (simp add: early_def closing_def opt_list_def poll_bits)
  then show ?thesis by (rule HandleEvent_freed [OF assms(1)]) (use assms in simp_all)
qed

end
