(* ===== verification/Event_Loop.thy ===== *)
theory Event_Loop
  imports Polling
begin

text \<open>
  \<^verbatim>\<open>EventLoop\<close> (net/eventloop.h, net/eventloop.cc) without its timers: waking the loop through its
  eventfd, the functor queue, and the loop itself. The loop may run for ever, so \<open>loop_while\<close> is a
  partial function whose value \<open>None\<close> means that \<^verbatim>\<open>loop()\<close> does not return; the theorems about
  \<^verbatim>\<open>quit()\<close> prove that it does.
\<close>

section \<open>Waking the loop\<close>

text \<open>The eventfd holds a 64-bit counter below its maximum; a write that would reach the maximum
  fails (\<^verbatim>\<open>EAGAIN\<close>) and is only logged.\<close>

definition eventfd_max :: nat where
  "eventfd_max = 18446744073709551614"

definition EventLoop_wakeup :: "'a loop_state_scheme \<Rightarrow> 'a loop_state_scheme" where
  "EventLoop_wakeup s =
     (if wakeup_count s < eventfd_max then s\<lparr>wakeup_count := wakeup_count s + 1\<rparr> else s)"

text \<open>Reading takes the whole count; with a count of 0 it fails and is only logged.\<close>

definition EventLoop_handleRead :: "'a loop_state_scheme \<Rightarrow> 'a loop_state_scheme" where
  "EventLoop_handleRead s = (if 0 < wakeup_count s then s\<lparr>wakeup_count := 0\<rparr> else s)"

definition EventLoop_quit :: "'a loop_state_scheme \<Rightarrow> 'a loop_state_scheme" where
  "EventLoop_quit s = EventLoop_wakeup (s\<lparr>quit_flag := True\<rparr>)"

section \<open>The functor queue\<close>

definition push_functor :: "closure \<Rightarrow> 'a loop_state_scheme \<Rightarrow> 'a loop_state_scheme" where
  "push_functor f s = s\<lparr>functors := functors s @ [f]\<rparr>"

text \<open>\<open>RunInLoop f cb\<close>: the functor as data (\<open>f\<close>) and what calling it does (\<open>cb\<close>).\<close>

definition EventLoop_RunInLoop ::
  "closure \<Rightarrow> ('a loop_state_scheme \<Rightarrow> 'a loop_state_scheme result) \<Rightarrow>
   'a loop_state_scheme \<Rightarrow> 'a loop_state_scheme result" where
  "EventLoop_RunInLoop f cb s =
     (if isInLoopThread s then cb s else Inr (EventLoop_wakeup (push_functor f s)))"

definition swap_functors :: "'a loop_state_scheme \<Rightarrow> closure list \<times> 'a loop_state_scheme" where
  "swap_functors s = (functors s, s\<lparr>functors := []\<rparr>)"

definition doPendingFunctors ::
  "(closure \<Rightarrow> 'a loop_state_scheme \<Rightarrow> 'a loop_state_scheme result) \<Rightarrow>
   'a loop_state_scheme \<Rightarrow> 'a loop_state_scheme result" where
  "doPendingFunctors run s = (let (works, s) = swap_functors s in foldR run works s)"

section \<open>The loop\<close>

definition EventLoop_iteration ::
  "kernel \<Rightarrow> (closure \<Rightarrow> 'a loop_state_scheme \<Rightarrow> 'a loop_state_scheme result) \<Rightarrow>
   'a loop_state_scheme \<Rightarrow> 'a loop_state_scheme result" where
  "EventLoop_iteration k run s =
     bindR (Poller_Poll k (s\<lparr>active_channels := []\<rparr>)) (\<lambda>(now, s).
     bindR (foldR (Channel_HandleEvent run) (active_channels s) s) (\<lambda>s.
     doPendingFunctors run s))"

partial_function (option) loop_while ::
  "kernel \<Rightarrow> (closure \<Rightarrow> 'a loop_state_scheme \<Rightarrow> 'a loop_state_scheme result) \<Rightarrow>
   'a loop_state_scheme \<Rightarrow> 'a loop_state_scheme result option" where
  "loop_while k run s =
     (if quit_flag s then Some (Inr s)
      else case EventLoop_iteration k run s of
             Inl e \<Rightarrow> Some (Inl e)
           | Inr s' \<Rightarrow> loop_while k run s')"

definition EventLoop_enter :: "'a loop_state_scheme \<Rightarrow> 'a loop_state_scheme" where
  "EventLoop_enter s = s\<lparr>looping := True, quit_flag := False\<rparr>"

definition EventLoop_loop ::
  "kernel \<Rightarrow> (closure \<Rightarrow> 'a loop_state_scheme \<Rightarrow> 'a loop_state_scheme result) \<Rightarrow>
   'a loop_state_scheme \<Rightarrow> 'a loop_state_scheme result option" where
  "EventLoop_loop k run s =
     (case assertR (\<not> looping s) (assertInLoopThread s (Inr (EventLoop_enter s))) of
        Inl e \<Rightarrow> Some (Inl e)
      | Inr s \<Rightarrow> map_option (\<lambda>r. bindR r (\<lambda>s. Inr (s\<lparr>looping := False\<rparr>))) (loop_while k run s))"

fun iterate ::
  "kernel \<Rightarrow> (closure \<Rightarrow> 'a loop_state_scheme \<Rightarrow> 'a loop_state_scheme result) \<Rightarrow> nat \<Rightarrow>
   'a loop_state_scheme \<Rightarrow> 'a loop_state_scheme result" where
  "iterate k run 0 s = Inr s"
| "iterate k run (Suc n) s = bindR (EventLoop_iteration k run s) (iterate k run n)"

lemma loop_while_returns:
  assumes "loop_while k run s = Some r"
  shows "\<exists>n. iterate k run n s = r \<and> safeR r quit_flag"
proof (rule loop_while.raw_induct [OF _ assms])
  fix loop k run s r
  assume IH: "\<And>k run s r. loop k run s = Some r \<Longrightarrow> \<exists>n. iterate k run n s = r \<and> safeR r quit_flag"
    and r: "(if quit_flag s then Some (Inr s)
      else case EventLoop_iteration k run s of Inl e \<Rightarrow> Some (Inl e) | Inr s' \<Rightarrow> loop k run s') = Some r"
  show "\<exists>n. iterate k run n s = r \<and> safeR r quit_flag"
  proof (cases "quit_flag s")
    case True
    then show ?thesis using r by (intro exI [of _ 0]) auto
  next
    case False
    show ?thesis
    proof (cases "EventLoop_iteration k run s")
      case (Inl e)
      then have "r = Inl e" using r False by simp
      then show ?thesis using Inl by (intro exI [of _ 1]) simp
    next
      case (Inr s')
      then have "loop k run s' = Some r" using r False by simp
      then obtain n where "iterate k run n s' = r" "safeR r quit_flag" using IH by blast
      then show ?thesis using Inr by (intro exI [of _ "Suc n"]) simp
    qed
  qed
qed

lemma loop_while_iterate:
  assumes "iterate k run n s = Inr s'" and "quit_flag s'"
    and "\<And>m t. m < n \<Longrightarrow> iterate k run m s = Inr t \<Longrightarrow> \<not> quit_flag t"
  shows "loop_while k run s = Some (Inr s')"
  using assms
proof (induction n arbitrary: s)
  case 0
  then show ?case by (simp add: loop_while.simps)
next
  case (Suc n)
  from Suc.prems(1) obtain t where t: "EventLoop_iteration k run s = Inr t" "iterate k run n t = Inr s'"
    by (auto simp: result_simps)
  have "\<not> quit_flag s" using Suc.prems(3) [of 0] by simp
  moreover have "loop_while k run t = Some (Inr s')"
    using Suc.prems(3) [of "Suc _"] t Suc.prems(2) by (intro Suc.IH) auto
  ultimately show ?case using t by (simp add: loop_while.simps)
qed

lemma loop_while_error:
  assumes "iterate k run n s = Inr s'" and "EventLoop_iteration k run s' = Inl e"
    and "\<And>m t. m \<le> n \<Longrightarrow> iterate k run m s = Inr t \<Longrightarrow> \<not> quit_flag t"
  shows "loop_while k run s = Some (Inl e)"
  using assms
proof (induction n arbitrary: s)
  case 0
  then show ?case using "0.prems"(3) [of 0] by (simp add: loop_while.simps)
next
  case (Suc n)
  from Suc.prems(1) obtain t where t: "EventLoop_iteration k run s = Inr t" "iterate k run n t = Inr s'"
    by (auto simp: result_simps)
  have "\<not> quit_flag s" using Suc.prems(3) [of 0] by simp
  moreover have "loop_while k run t = Some (Inl e)"
    using Suc.prems(3) [of "Suc _"] t Suc.prems(2) by (intro Suc.IH) auto
  ultimately show ?case using t by (simp add: loop_while.simps)
qed

text \<open>\<^verbatim>\<open>loop()\<close> returns at the end of the first iteration after which \<^verbatim>\<open>quit_\<close> is set, and leaves \<^verbatim>\<open>looping_\<close> false.\<close>

lemma EventLoop_loop_returns:
  assumes "\<not> looping s" and "isInLoopThread s"
    and "iterate k run n (EventLoop_enter s) = Inr s'" and "quit_flag s'"
    and "\<And>m t. m < n \<Longrightarrow> iterate k run m (EventLoop_enter s) = Inr t \<Longrightarrow> \<not> quit_flag t"
  shows "EventLoop_loop k run s = Some (Inr (s'\<lparr>looping := False\<rparr>))"
  using assms loop_while_iterate [OF assms(3,4,5)]
  by (simp add: EventLoop_loop_def assertInLoopThread_def)

lemma iterate_Suc: "iterate k run n s = Inr t \<Longrightarrow> iterate k run (Suc n) s = EventLoop_iteration k run t"
proof (induction n arbitrary: s)
  case 0
  then show ?case by (cases "EventLoop_iteration k run s") simp_all
next
  case (Suc n)
  then obtain u where "EventLoop_iteration k run s = Inr u" "iterate k run n u = Inr t" by (auto simp: result_simps)
  then show ?case using Suc.IH [of u] by simp
qed

text \<open>\<^verbatim>\<open>loop()\<close> called while the loop runs fails the assertion, and called from a thread other than
  the one that made the loop it throws; in neither case does an iteration run.\<close>

lemma EventLoop_loop_guards:
  "(looping s \<longrightarrow> EventLoop_loop k run s = Some (Inl Assertion_failed)) \<and>
   (\<not> looping s \<and> threadId s \<noteq> cur_tid s \<longrightarrow>
      EventLoop_loop k run s = Some (Inl (Runtime_error ''abortNotInLoopThread()'')))"
  by (simp add: EventLoop_loop_def assertInLoopThread_def isInLoopThread_def)

end
