(* ===== verification/Loop_Threads.thy ===== *)
theory Loop_Threads
  imports Event_Loop
begin

text \<open>
  The event loop with other threads (net/eventloop.cc, net/eventloop_thread.cc): a step relation
  that interleaves the loop's thread with threads that call \<^verbatim>\<open>RunInLoop\<close> and \<^verbatim>\<open>quit\<close>. A step is what
  happens between two points where another thread can come in: the locked section of \<^verbatim>\<open>RunInLoop\<close>,
  the write to the eventfd, the locked swap of \<^verbatim>\<open>doPendingFunctors\<close>, one functor, the test of
  \<^verbatim>\<open>quit_\<close>. The lists \<open>posted\<close> and \<open>executed\<close> are ghosts. Shown: every functor posted is executed
  once, in order, and the loop never sleeps on work it has been given; but a \<^verbatim>\<open>quit()\<close> that comes
  before \<^verbatim>\<open>loop()\<close> is overwritten, which is how the destructor of \<^verbatim>\<open>EventLoopThread\<close> can hang.
\<close>

section \<open>State and steps\<close>

text \<open>Where the loop's thread is. \<open>Not_started\<close> is the thread of \<^verbatim>\<open>EventLoopThread::Start\<close> after
  \<^verbatim>\<open>promise.set_value()\<close> and before \<^verbatim>\<open>loop.loop()\<close>; \<open>At_events b\<close> is after \<^verbatim>\<open>poll\<close> returned, with \<open>b\<close>
  when the eventfd was reported readable.\<close>

datatype loop_pc =
    Not_started
  | At_check
  | At_poll
  | At_events bool
  | At_swap
  | At_work "closure list"
  | Returned

datatype caller_pc = Idle | Must_wake

record threads =
  lpc :: loop_pc
  callers :: "nat \<Rightarrow> caller_pc"
  shared :: loop_state
  posted :: "closure list"
  executed :: "closure list"
  quits :: nat

text \<open>What code that runs in the loop's thread (event callbacks, functors) may do to the state: it
  neither touches the functor queue, which only \<^verbatim>\<open>RunInLoop\<close> from outside and the swap write, nor
  reads the eventfd.\<close>

definition in_loop_effect :: "loop_state \<Rightarrow> loop_state \<Rightarrow> bool" where
  "in_loop_effect s s' \<longleftrightarrow> functors s' = functors s \<and> wakeup_count s \<le> wakeup_count s'"

inductive thread_step :: "threads \<Rightarrow> threads \<Rightarrow> bool" where
  enter: "lpc w = Not_started \<Longrightarrow>
    thread_step w (w\<lparr>lpc := At_check, shared := EventLoop_enter (shared w)\<rparr>)"
| check_quit: "lpc w = At_check \<Longrightarrow> quit_flag (shared w) \<Longrightarrow>
    thread_step w (w\<lparr>lpc := Returned, shared := (shared w)\<lparr>looping := False\<rparr>\<rparr>)"
| check_go: "lpc w = At_check \<Longrightarrow> \<not> quit_flag (shared w) \<Longrightarrow> thread_step w (w\<lparr>lpc := At_poll\<rparr>)"
| poll_wakeup: "lpc w = At_poll \<Longrightarrow> 0 < wakeup_count (shared w) \<Longrightarrow>
    thread_step w (w\<lparr>lpc := At_events True\<rparr>)"
| poll_other: "lpc w = At_poll \<Longrightarrow> wakeup_count (shared w) = 0 \<Longrightarrow>
    thread_step w (w\<lparr>lpc := At_events False\<rparr>)"
| events: "lpc w = At_events b \<Longrightarrow>
    in_loop_effect (if b then EventLoop_handleRead (shared w) else shared w) s' \<Longrightarrow>
    thread_step w (w\<lparr>lpc := At_swap, shared := s'\<rparr>)"
| swap: "lpc w = At_swap \<Longrightarrow> swap_functors (shared w) = (works, s') \<Longrightarrow>
    thread_step w (w\<lparr>lpc := At_work works, shared := s'\<rparr>)"
| work: "lpc w = At_work (f # fs) \<Longrightarrow> in_loop_effect (shared w) s' \<Longrightarrow>
    thread_step w (w\<lparr>lpc := At_work fs, shared := s', executed := executed w @ [f]\<rparr>)"
| again: "lpc w = At_work [] \<Longrightarrow> thread_step w (w\<lparr>lpc := At_check\<rparr>)"
| post: "callers w t = Idle \<Longrightarrow>
    thread_step w (w\<lparr>callers := (callers w)(t := Must_wake), shared := push_functor f (shared w),
                     posted := posted w @ [f]\<rparr>)"
| quit: "callers w t = Idle \<Longrightarrow>
    thread_step w (w\<lparr>callers := (callers w)(t := Must_wake),
                     shared := (shared w)\<lparr>quit_flag := True\<rparr>, quits := quits w + 1\<rparr>)"
| wake: "callers w t = Must_wake \<Longrightarrow>
    thread_step w (w\<lparr>callers := (callers w)(t := Idle), shared := EventLoop_wakeup (shared w)\<rparr>)"

definition thread_init :: "threads \<Rightarrow> bool" where
  "thread_init w \<longleftrightarrow> lpc w = Not_started \<and> (\<forall>t. callers w t = Idle) \<and> functors (shared w) = [] \<and>
     posted w = [] \<and> executed w = [] \<and> quits w = 0"

fun in_hand :: "loop_pc \<Rightarrow> closure list" where
  "in_hand (At_work fs) = fs"
| "in_hand _ = []"

definition awake :: "threads \<Rightarrow> bool" where
  "awake w \<longleftrightarrow> 0 < wakeup_count (shared w) \<or> (\<exists>t. callers w t = Must_wake)"

definition threads_inv :: "threads \<Rightarrow> bool" where
  "threads_inv w \<longleftrightarrow>
     posted w = executed w @ in_hand (lpc w) @ functors (shared w) \<and>
     (functors (shared w) \<noteq> [] \<longrightarrow> awake w \<or> (\<exists>b. lpc w = At_events b) \<or> lpc w = At_swap) \<and>
     (quit_flag (shared w) \<and> lpc w = At_poll \<longrightarrow> awake w)"

lemma wakeup_simps [simp]:
  "functors (EventLoop_wakeup s) = functors s" "quit_flag (EventLoop_wakeup s) = quit_flag s"
  "0 < wakeup_count (EventLoop_wakeup s)" "functors (EventLoop_handleRead s) = functors s"
  by (simp_all add: EventLoop_wakeup_def EventLoop_handleRead_def eventfd_max_def)

lemma enter_simps [simp]:
  "functors (EventLoop_enter s) = functors s" "wakeup_count (EventLoop_enter s) = wakeup_count s"
  by (simp_all add: EventLoop_enter_def)

lemma threads_inv_step: "thread_step w w' \<Longrightarrow> threads_inv w \<Longrightarrow> threads_inv w'"
proof (induction rule: thread_step.induct)
  case (work w f fs s')
  then show ?case by (auto simp: threads_inv_def awake_def in_loop_effect_def)
next
  case (events w b s')
  then show ?case by (auto simp: threads_inv_def in_loop_effect_def split: if_splits)
qed (auto simp: threads_inv_def awake_def swap_functors_def push_functor_def)

interpretation threads: invariant_system thread_init thread_step threads_inv
proof unfold_locales
  show "threads_inv w" if "thread_init w" for w
    using that by (simp add: threads_inv_def thread_init_def)
  show "threads_inv w'" if "threads_inv w" "thread_step w w'" for w w'
    using that(2,1) by (rule threads_inv_step)
qed

section \<open>Properties\<close>

text \<open>C9: in every interleaving, the functors posted from other threads are those executed, those the
  loop has taken and those still queued, in this order: each is executed at most once, in the order
  of posting, and none is lost.\<close>

theorem RunInLoop_exactly_once:
  assumes "thread_init w0" and "thread_step\<^sup>*\<^sup>* w0 w"
  shows "posted w = executed w @ in_hand (lpc w) @ functors (shared w)"
  using threads.reachable_inv [OF assms] by (simp add: threads_inv_def)

text \<open>C10: no wake-up is lost: when the loop is about to block in \<^verbatim>\<open>poll\<close> and no other thread is in the
  middle of a call, a queued functor or a request to quit makes the eventfd readable, so \<^verbatim>\<open>poll\<close>
  returns.\<close>

theorem no_lost_wakeup:
  assumes "thread_init w0" and "thread_step\<^sup>*\<^sup>* w0 w"
    and "lpc w = At_poll" and "\<forall>t. callers w t = Idle"
    and "functors (shared w) \<noteq> [] \<or> quit_flag (shared w)"
  shows "0 < wakeup_count (shared w) \<and> thread_step w (w\<lparr>lpc := At_events True\<rparr>)"
  using threads.reachable_inv [OF assms(1,2)] assms(3-5)
  by (auto simp: threads_inv_def awake_def intro: thread_step.poll_wakeup)

section \<open>A concrete run\<close>

definition start_threads :: threads where
  "start_threads = \<lparr>lpc = Not_started, callers = (\<lambda>_. Idle),
     shared = two_channels\<lparr>looping := False\<rparr>, posted = [], executed = [], quits = 0\<rparr>"

lemma start_threads_init: "thread_init start_threads"
  by (simp add: thread_init_def start_threads_def two_channels_def)

definition posted_state :: threads where
  "posted_state = start_threads\<lparr>lpc := At_poll,
     shared := (shared start_threads)\<lparr>looping := True, functors := [User_fn 5], wakeup_count := 1\<rparr>,
     posted := [User_fn 5]\<rparr>"

lemma posted_state_reachable: "thread_step\<^sup>*\<^sup>* start_threads posted_state"
proof -
  let ?w0 = start_threads
  let ?w1 = "?w0\<lparr>callers := (callers ?w0)(0 := Must_wake), shared := push_functor (User_fn 5) (shared ?w0),
    posted := posted ?w0 @ [User_fn 5]\<rparr>"
  let ?w2 = "?w1\<lparr>callers := (callers ?w1)(0 := Idle), shared := EventLoop_wakeup (shared ?w1)\<rparr>"
  let ?w3 = "?w2\<lparr>lpc := At_check, shared := EventLoop_enter (shared ?w2)\<rparr>"
  let ?w4 = "?w3\<lparr>lpc := At_poll\<rparr>"
  have "thread_step ?w0 ?w1" by (rule thread_step.post) (simp add: start_threads_def)
  moreover have "thread_step ?w1 ?w2" by (rule thread_step.wake) simp
  moreover have "thread_step ?w2 ?w3" by (rule thread_step.enter) (simp add: start_threads_def)
  moreover have "thread_step ?w3 ?w4" by (rule thread_step.check_go) (simp_all add: EventLoop_enter_def)
  ultimately have "thread_step\<^sup>*\<^sup>* ?w0 ?w4" by (meson rtranclp.rtrancl_refl rtranclp.rtrancl_into_rtrancl)
  moreover have "?w4 = posted_state"
    by (simp add: posted_state_def start_threads_def two_channels_def push_functor_def
        EventLoop_wakeup_def EventLoop_enter_def eventfd_max_def fun_eq_iff)
  ultimately show ?thesis by simp
qed

theorem RunInLoop_exactly_once_witness:
  "thread_init start_threads \<and> thread_step\<^sup>*\<^sup>* start_threads posted_state \<and>
   posted posted_state = [User_fn 5] \<and>
   executed posted_state @ in_hand (lpc posted_state) @ functors (shared posted_state) = [User_fn 5]"
  using RunInLoop_exactly_once [OF start_threads_init posted_state_reachable]
    start_threads_init posted_state_reachable
  by (simp add: posted_state_def)

theorem no_lost_wakeup_witness:
  "thread_init start_threads \<and> thread_step\<^sup>*\<^sup>* start_threads posted_state \<and>
   0 < wakeup_count (shared posted_state)"
proof -
  have "lpc posted_state = At_poll" "\<forall>t. callers posted_state t = Idle"
      "functors (shared posted_state) \<noteq> [] \<or> quit_flag (shared posted_state)"
    by (simp_all add: posted_state_def start_threads_def)
  from no_lost_wakeup [OF start_threads_init posted_state_reachable this]
  show ?thesis using start_threads_init posted_state_reachable by simp
qed

text \<open>A \<^verbatim>\<open>quit()\<close> that another thread completes before the loop's thread enters \<^verbatim>\<open>loop()\<close> is forgotten, since
  \<^verbatim>\<open>loop()\<close> starts by clearing the flag: the loop blocks in \<^verbatim>\<open>poll\<close> with the eventfd drained and nothing
  queued.\<close>

definition quit_early :: threads where
  "quit_early = start_threads\<lparr>shared := EventLoop_quit (shared start_threads), quits := quits start_threads + 1\<rparr>"

lemma quit_early_blocks:
  "\<exists>w. thread_step\<^sup>*\<^sup>* quit_early w \<and> lpc w = At_poll \<and> \<not> quit_flag (shared w) \<and> wakeup_count (shared w) = 0 \<and>
     functors (shared w) = [] \<and> (\<forall>t. callers w t = Idle)"
proof -
  let ?w2 = quit_early
  let ?w3 = "?w2\<lparr>lpc := At_check, shared := EventLoop_enter (shared ?w2)\<rparr>"
  let ?w4 = "?w3\<lparr>lpc := At_poll\<rparr>"
  let ?w5 = "?w4\<lparr>lpc := At_events True\<rparr>"
  let ?w6 = "?w5\<lparr>lpc := At_swap, shared := EventLoop_handleRead (shared ?w5)\<rparr>"
  let ?w7 = "?w6\<lparr>lpc := At_work [], shared := (shared ?w6)\<lparr>functors := []\<rparr>\<rparr>"
  let ?w8 = "?w7\<lparr>lpc := At_check\<rparr>"
  let ?w9 = "?w8\<lparr>lpc := At_poll\<rparr>"
  note defs = quit_early_def start_threads_def two_channels_def EventLoop_enter_def EventLoop_quit_def EventLoop_wakeup_def
    EventLoop_handleRead_def eventfd_max_def swap_functors_def in_loop_effect_def
  have "thread_step ?w2 ?w3" by (rule thread_step.enter) (simp add: defs)
  moreover have "thread_step ?w3 ?w4" by (rule thread_step.check_go) (simp_all add: defs)
  moreover have "thread_step ?w4 ?w5" by (rule thread_step.poll_wakeup) (simp_all add: defs)
  moreover have "thread_step ?w5 ?w6" by (rule thread_step.events [where b = True]) (simp_all add: defs)
  moreover have "thread_step ?w6 ?w7" by (rule thread_step.swap) (simp_all add: defs)
  moreover have "thread_step ?w7 ?w8" by (rule thread_step.again) simp
  moreover have "thread_step ?w8 ?w9" by (rule thread_step.check_go) (simp_all add: defs)
  ultimately have "thread_step\<^sup>*\<^sup>* ?w2 ?w9"
    by (meson rtranclp.rtrancl_refl rtranclp.rtrancl_into_rtrancl)
  then show ?thesis by (intro exI [of _ ?w9] conjI) (assumption | simp add: defs)+
qed

end
