(* ===== verification/Event_Loop_Thread.thy ===== *)
theory Event_Loop_Thread
  imports Loop_Threads
begin

text \<open>
  \<^verbatim>\<open>EventLoopThread\<close> (net/eventloop_thread.h, net/eventloop_thread.cc): the thread that \<^verbatim>\<open>Start\<close> creates, the loop on its stack, the
  pointer \<^verbatim>\<open>loop_\<close> to it, and the destructor, around the interleaved loop of \<open>Loop_Threads\<close>. A section under the mutex is
  one step. Shown: once \<^verbatim>\<open>Start\<close> has returned, \<^verbatim>\<open>eventLoop()\<close> is a pointer to the loop; but the pointer outlives the loop, and
  the destructor may call \<^verbatim>\<open>quit()\<close> through it after the loop is gone, or before \<^verbatim>\<open>loop()\<close> begins, when it then waits for ever.
\<close>

section \<open>State and operations\<close>

text \<open>Where the thread function is: not created; before and after the assignment to \<^verbatim>\<open>loop_\<close>; after the promise is set; in
  \<^verbatim>\<open>loop()\<close>; returned, the loop destroyed.\<close>

datatype thread_pc = No_thread | Begun | Published | Promised | Looping | Done

datatype dtor_pc = Undestroyed | Joining | Destroyed

text \<open>The loop is on the stack of the thread: \<open>et_loop\<close> is whether \<^verbatim>\<open>loop_\<close> points to it, \<open>et_alive\<close> whether it exists.\<close>

record loop_thread =
  et_loop :: bool
  et_alive :: bool
  et_joinable :: bool
  et_pc :: thread_pc
  et_started :: bool
  et_dtor :: dtor_pc
  et_threads :: threads

definition EventLoopThread_new :: "threads \<Rightarrow> loop_thread" where
  "EventLoopThread_new w = \<lparr>et_loop = False, et_alive = False, et_joinable = False, et_pc = No_thread,
     et_started = False, et_dtor = Undestroyed, et_threads = w\<rparr>"

text \<open>\<^verbatim>\<open>eventLoop()\<close>: a null pointer, or a pointer to a loop, with the error that using it is after the loop is gone.\<close>

definition EventLoopThread_eventLoop :: "loop_thread \<Rightarrow> (threads result) option" where
  "EventLoopThread_eventLoop e =
     (if et_loop e then Some (if et_alive e then Inr (et_threads e) else Inl Use_after_free) else None)"

text \<open>The first half of \<^verbatim>\<open>Start\<close>, and the statements of the thread function up to \<^verbatim>\<open>loop()\<close>.\<close>

definition Start_spawn :: "loop_thread \<Rightarrow> loop_thread" where
  "Start_spawn e = e\<lparr>et_joinable := True, et_pc := Begun\<rparr>"

definition thread_publish :: "loop_thread \<Rightarrow> loop_thread" where
  "thread_publish e = e\<lparr>et_alive := True, et_loop := True, et_pc := Published\<rparr>"

definition thread_set_promise :: "loop_thread \<Rightarrow> loop_thread" where
  "thread_set_promise e = e\<lparr>et_pc := Promised\<rparr>"

text \<open>The callback, if there is one, is the user's: it turns the state of the loop into \<open>s'\<close>.\<close>

definition thread_callback :: "loop_state \<Rightarrow> loop_thread \<Rightarrow> loop_thread" where
  "thread_callback s' e = e\<lparr>et_threads := (et_threads e)\<lparr>shared := s'\<rparr>, et_pc := Looping\<rparr>"

text \<open>The lambda returns and destroys its local loop; \<^verbatim>\<open>loop_\<close> keeps its value.\<close>

definition thread_return :: "loop_thread \<Rightarrow> loop_thread" where
  "thread_return e = e\<lparr>et_alive := False, et_pc := Done\<rparr>"

text \<open>The destructor up to \<^verbatim>\<open>join\<close>.\<close>

definition EventLoopThread_delete :: "loop_thread \<Rightarrow> loop_thread result" where
  "EventLoopThread_delete e =
     (if et_joinable e
      then (case EventLoopThread_eventLoop e of
              None \<Rightarrow> Inr (e\<lparr>et_dtor := Joining\<rparr>)
            | Some p \<Rightarrow> bindR p (\<lambda>w. Inr (e\<lparr>et_threads := w\<lparr>shared := EventLoop_quit (shared w), quits := quits w + 1\<rparr>,
                                            et_dtor := Joining\<rparr>)))
      else Inr (e\<lparr>et_dtor := Destroyed\<rparr>))"

inductive lt_step :: "loop_thread \<Rightarrow> loop_thread \<Rightarrow> bool" where
  spawn: "et_pc e = No_thread \<Longrightarrow> et_dtor e = Undestroyed \<Longrightarrow> lt_step e (Start_spawn e)"
| publish: "et_pc e = Begun \<Longrightarrow> lt_step e (thread_publish e)"
| promise: "et_pc e = Published \<Longrightarrow> lt_step e (thread_set_promise e)"
| callback: "et_pc e = Promised \<Longrightarrow> in_loop_effect (shared (et_threads e)) s' \<Longrightarrow> lt_step e (thread_callback s' e)"
| loop_thread: "et_pc e = Looping \<Longrightarrow> thread_step (et_threads e) w \<Longrightarrow> lt_step e (e\<lparr>et_threads := w\<rparr>)"
| other_thread: "et_alive e \<Longrightarrow> thread_step (et_threads e) w \<Longrightarrow> lpc w = lpc (et_threads e) \<Longrightarrow> lt_step e (e\<lparr>et_threads := w\<rparr>)"
| return: "et_pc e = Looping \<Longrightarrow> lpc (et_threads e) = Returned \<Longrightarrow> lt_step e (thread_return e)"
| start_returns: "et_pc e \<in> {Promised, Looping, Done} \<Longrightarrow> lt_step e (e\<lparr>et_started := True\<rparr>)"
| delete: "et_started e \<or> et_pc e = No_thread \<Longrightarrow> et_dtor e = Undestroyed \<Longrightarrow> EventLoopThread_delete e = Inr e' \<Longrightarrow> lt_step e e'"
| join: "et_dtor e = Joining \<Longrightarrow> et_pc e = Done \<Longrightarrow> lt_step e (e\<lparr>et_dtor := Destroyed\<rparr>)"

definition lt_init :: "loop_thread \<Rightarrow> bool" where
  "lt_init e \<longleftrightarrow> (\<exists>w. thread_init w \<and> e = EventLoopThread_new w)"

section \<open>The invariant\<close>

definition lt_inv :: "loop_thread \<Rightarrow> bool" where
  "lt_inv e \<longleftrightarrow>
     (et_loop e \<longleftrightarrow> et_pc e \<in> {Published, Promised, Looping, Done}) \<and>
     (et_alive e \<longleftrightarrow> et_pc e \<in> {Published, Promised, Looping}) \<and>
     (et_joinable e \<longleftrightarrow> et_pc e \<noteq> No_thread) \<and>
     (et_started e \<longrightarrow> et_pc e \<in> {Promised, Looping, Done}) \<and>
     (et_dtor e = Destroyed \<longrightarrow> et_pc e \<in> {No_thread, Done}) \<and>
     (et_pc e \<notin> {Looping, Done} \<longrightarrow> lpc (et_threads e) = Not_started) \<and>
     threads_inv (et_threads e)"

lemmas lt_defs = Start_spawn_def thread_publish_def thread_set_promise_def thread_callback_def thread_return_def
  EventLoopThread_delete_def EventLoopThread_eventLoop_def

lemma threads_inv_quit:
  "threads_inv w \<Longrightarrow> threads_inv (w\<lparr>shared := EventLoop_quit (shared w), quits := n\<rparr>)"
  by (auto simp: threads_inv_def awake_def EventLoop_quit_def)

lemma threads_inv_effect:
  "threads_inv w \<Longrightarrow> lpc w = Not_started \<Longrightarrow> in_loop_effect (shared w) s' \<Longrightarrow> threads_inv (w\<lparr>shared := s'\<rparr>)"
  by (auto simp: threads_inv_def awake_def in_loop_effect_def)

lemma lt_inv_step: "lt_step e e' \<Longrightarrow> lt_inv e \<Longrightarrow> lt_inv e'"
proof (induction rule: lt_step.induct)
  case (callback e s')
  then have "threads_inv ((et_threads e)\<lparr>shared := s'\<rparr>)" by (intro threads_inv_effect) (auto simp: lt_inv_def)
  with callback show ?case by (auto simp: lt_inv_def lt_defs)
next
  case (loop_thread e w)
  have "threads_inv w" by (rule threads_inv_step [OF loop_thread(2)]) (use loop_thread(3) in \<open>simp add: lt_inv_def\<close>)
  with loop_thread(1,3) show ?case by (simp add: lt_inv_def)
next
  case (other_thread e w)
  have "threads_inv w" by (rule threads_inv_step [OF other_thread(2)]) (use other_thread(4) in \<open>simp add: lt_inv_def\<close>)
  with other_thread(3,4) show ?case by (simp add: lt_inv_def)
next
  case (delete e e')
  have inv: "threads_inv (et_threads e)" using delete(4) by (simp add: lt_inv_def)
  have quit: "lt_inv (e\<lparr>et_threads := (et_threads e)\<lparr>shared := EventLoop_quit (shared (et_threads e)), quits := n\<rparr>, et_dtor := Joining\<rparr>)" for n
    using delete(4) threads_inv_quit [OF inv] by (simp add: lt_inv_def)
  have none: "lt_inv (e\<lparr>et_dtor := Joining\<rparr>)" using delete(4) by (simp add: lt_inv_def)
  have "lt_inv (e\<lparr>et_dtor := Destroyed\<rparr>)" if "\<not> et_joinable e" using delete(4) that by (clarsimp simp: lt_inv_def)
  with delete(3) quit none show ?case by (auto simp: lt_defs split: if_splits)
qed (simp_all add: lt_inv_def lt_defs)

interpretation loop_threads: invariant_system lt_init lt_step lt_inv
proof unfold_locales
  show "lt_inv e" if "lt_init e" for e
    using that by (auto simp: lt_init_def lt_inv_def EventLoopThread_new_def threads_inv_def thread_init_def)
  show "lt_inv e'" if "lt_inv e" "lt_step e e'" for e e'
    using that(2,1) by (rule lt_inv_step)
qed

section \<open>Runs\<close>

lemma lift_loop_thread:
  "thread_step\<^sup>*\<^sup>* w w' \<Longrightarrow> et_pc e = Looping \<Longrightarrow> et_threads e = w \<Longrightarrow> lt_step\<^sup>*\<^sup>* e (e\<lparr>et_threads := w'\<rparr>)"
proof (induction rule: rtranclp_induct)
  case base
  then have "e\<lparr>et_threads := w\<rparr> = e" by simp
  then show ?case by simp
next
  case (step w' w'')
  have "lt_step (e\<lparr>et_threads := w'\<rparr>) ((e\<lparr>et_threads := w'\<rparr>)\<lparr>et_threads := w''\<rparr>)"
    by (rule lt_step.loop_thread) (use step in simp_all)
  with step show ?case by (auto intro: rtranclp.rtrancl_into_rtrancl)
qed

text \<open>The thread with its loop in state \<open>w\<close>.\<close>

definition running :: "thread_pc \<Rightarrow> dtor_pc \<Rightarrow> threads \<Rightarrow> loop_thread" where
  "running pc d w = \<lparr>et_loop = True, et_alive = True, et_joinable = True, et_pc = pc, et_started = True, et_dtor = d, et_threads = w\<rparr>"

lemma run_to_promise: "lt_step\<^sup>*\<^sup>* (EventLoopThread_new w) (running Promised Undestroyed w)"
proof -
  let ?e0 = "EventLoopThread_new w"
  let ?e1 = "Start_spawn ?e0" let ?e2 = "thread_publish ?e1" let ?e3 = "thread_set_promise ?e2" let ?e4 = "?e3\<lparr>et_started := True\<rparr>"
  have "lt_step ?e0 ?e1" by (rule lt_step.spawn) (simp_all add: EventLoopThread_new_def)
  moreover have "lt_step ?e1 ?e2" by (rule lt_step.publish) (simp add: Start_spawn_def)
  moreover have "lt_step ?e2 ?e3" by (rule lt_step.promise) (simp add: thread_publish_def)
  moreover have "lt_step ?e3 ?e4" by (rule lt_step.start_returns) (simp add: thread_set_promise_def)
  ultimately have "lt_step\<^sup>*\<^sup>* ?e0 ?e4" by (meson rtranclp.rtrancl_refl rtranclp.rtrancl_into_rtrancl)
  moreover have "?e4 = running Promised Undestroyed w" by (simp add: lt_defs EventLoopThread_new_def running_def)
  ultimately show ?thesis by simp
qed

lemma run_callback: "lt_step (running Promised d w) (running Looping d w)"
proof -
  have "lt_step (running Promised d w) (thread_callback (shared w) (running Promised d w))"
    by (rule lt_step.callback) (simp_all add: running_def in_loop_effect_def)
  then show ?thesis by (simp add: thread_callback_def running_def)
qed

lemma run_loop:
  assumes "thread_step\<^sup>*\<^sup>* w w'"
  shows "lt_step\<^sup>*\<^sup>* (running Promised d w) (running Looping d w')"
proof -
  have "lt_step\<^sup>*\<^sup>* (running Looping d w) ((running Looping d w)\<lparr>et_threads := w'\<rparr>)"
    by (rule lift_loop_thread [OF assms]) (simp_all add: running_def)
  then have "lt_step\<^sup>*\<^sup>* (running Looping d w) (running Looping d w')" by (simp add: running_def)
  then show ?thesis by (rule converse_rtranclp_into_rtranclp [of lt_step, OF run_callback])
qed

text \<open>The loop is entered, another thread calls \<^verbatim>\<open>quit()\<close>, the loop returns.\<close>

lemma loop_returns: "\<exists>w. thread_step\<^sup>*\<^sup>* start_threads w \<and> lpc w = Returned"
proof -
  let ?w0 = start_threads
  let ?w1 = "?w0\<lparr>lpc := At_check, shared := EventLoop_enter (shared ?w0)\<rparr>"
  let ?w2 = "?w1\<lparr>callers := (callers ?w1)(0 := Must_wake), shared := (shared ?w1)\<lparr>quit_flag := True\<rparr>, quits := quits ?w1 + 1\<rparr>"
  let ?w3 = "?w2\<lparr>lpc := Returned, shared := (shared ?w2)\<lparr>looping := False\<rparr>\<rparr>"
  have "thread_step ?w0 ?w1" by (rule thread_step.enter) (simp add: start_threads_def)
  moreover have "thread_step ?w1 ?w2" by (rule thread_step.quit) (simp add: start_threads_def)
  moreover have "thread_step ?w2 ?w3" by (rule thread_step.check_quit) simp_all
  ultimately have "thread_step\<^sup>*\<^sup>* ?w0 ?w3" by (meson rtranclp.rtrancl_refl rtranclp.rtrancl_into_rtrancl)
  then show ?thesis by (intro exI [of _ ?w3]) simp
qed

section \<open>Properties\<close>

text \<open>C20: in every reachable state of an \<^verbatim>\<open>EventLoopThread\<close>: when \<^verbatim>\<open>Start\<close> has returned, \<^verbatim>\<open>eventLoop()\<close> is not null, and until the thread
  function has returned it points to the live loop; and when the destructor is done, the thread has ended.\<close>

theorem EventLoopThread_Start_publishes:
  assumes "lt_init e0" "lt_step\<^sup>*\<^sup>* e0 e"
  shows "(et_started e \<longrightarrow> EventLoopThread_eventLoop e \<noteq> None \<and>
      (et_pc e \<noteq> Done \<longrightarrow> EventLoopThread_eventLoop e = Some (Inr (et_threads e)))) \<and>
    (et_dtor e = Destroyed \<longrightarrow> et_pc e \<in> {No_thread, Done})"
  using loop_threads.reachable_inv [OF assms] by (auto simp: lt_inv_def EventLoopThread_eventLoop_def)

theorem EventLoopThread_Start_publishes_witness:
  "EventLoopThread_eventLoop (running Promised Undestroyed start_threads) = Some (Inr start_threads)"
proof -
  have "lt_init (EventLoopThread_new start_threads)" using start_threads_init by (auto simp: lt_init_def)
  from EventLoopThread_Start_publishes [OF this run_to_promise] show ?thesis by (simp add: running_def)
qed

text \<open>C32: the destructor of \<^verbatim>\<open>EventLoopThread\<close> is not safe. When another thread has made the loop return, it calls \<^verbatim>\<open>quit()\<close> through a pointer
  to the destroyed loop. When it comes between the promise and \<^verbatim>\<open>loop()\<close>, which clears the flag, its \<^verbatim>\<open>quit()\<close> is
  forgotten: it waits in \<^verbatim>\<open>join\<close> for a loop that is blocked in \<^verbatim>\<open>poll\<close>, with the eventfd drained, nothing queued and
  no call in progress.\<close>

theorem EventLoopThread_destructor_unsafe:
  "(\<exists>e0 e. lt_init e0 \<and> lt_step\<^sup>*\<^sup>* e0 e \<and> et_started e \<and> et_dtor e = Undestroyed \<and> EventLoopThread_delete e = Inl Use_after_free) \<and>
   (\<exists>e0 e. lt_init e0 \<and> lt_step\<^sup>*\<^sup>* e0 e \<and> et_dtor e = Joining \<and> et_pc e = Looping \<and>
      lpc (et_threads e) = At_poll \<and> \<not> quit_flag (shared (et_threads e)) \<and> wakeup_count (shared (et_threads e)) = 0 \<and>
      functors (shared (et_threads e)) = [] \<and> (\<forall>t. callers (et_threads e) t = Idle))"
proof -
  let ?e0 = "EventLoopThread_new start_threads"
  have init: "lt_init ?e0" using start_threads_init by (auto simp: lt_init_def)
  obtain w where w: "thread_step\<^sup>*\<^sup>* start_threads w" "lpc w = Returned" using loop_returns by blast
  let ?r = "running Looping Undestroyed w"
  have "lt_step\<^sup>*\<^sup>* ?e0 ?r" 
    by (rule rtranclp_trans [OF run_to_promise run_loop [OF w(1)]])
  moreover have "lt_step ?r (thread_return ?r)" by (rule lt_step.return) (simp_all add: running_def w(2))
  ultimately have "lt_step\<^sup>*\<^sup>* ?e0 (thread_return ?r)" by (rule rtranclp.rtrancl_into_rtrancl)
  moreover have "EventLoopThread_delete (thread_return ?r) = Inl Use_after_free" "et_started (thread_return ?r)"
      "et_dtor (thread_return ?r) = Undestroyed" by (simp_all add: lt_defs running_def)
  ultimately have 1: "\<exists>e0 e. lt_init e0 \<and> lt_step\<^sup>*\<^sup>* e0 e \<and> et_started e \<and> et_dtor e = Undestroyed \<and> EventLoopThread_delete e = Inl Use_after_free"
    using init by (intro exI conjI)
  obtain w' where w': "thread_step\<^sup>*\<^sup>* quit_early w'" "lpc w' = At_poll" "\<not> quit_flag (shared w')" "wakeup_count (shared w') = 0"
      "functors (shared w') = []" "\<forall>t. callers w' t = Idle"
    using quit_early_blocks by (elim exE conjE) (rule that)
  have "EventLoopThread_delete (running Promised Undestroyed start_threads) = Inr (running Promised Joining quit_early)"
    by (simp add: lt_defs running_def quit_early_def)
  then have "lt_step (running Promised Undestroyed start_threads) (running Promised Joining quit_early)"
    by (intro lt_step.delete) (simp_all add: running_def)
  then have "lt_step\<^sup>*\<^sup>* ?e0 (running Promised Joining quit_early)"
    by (rule rtranclp.rtrancl_into_rtrancl [OF run_to_promise])
  then have "lt_step\<^sup>*\<^sup>* ?e0 (running Looping Joining w')"
    by (rule rtranclp_trans [OF _ run_loop [OF w'(1)]])
  then have 2: "\<exists>e0 e. lt_init e0 \<and> lt_step\<^sup>*\<^sup>* e0 e \<and> et_dtor e = Joining \<and> et_pc e = Looping \<and>
      lpc (et_threads e) = At_poll \<and> \<not> quit_flag (shared (et_threads e)) \<and> wakeup_count (shared (et_threads e)) = 0 \<and>
      functors (shared (et_threads e)) = [] \<and> (\<forall>t. callers (et_threads e) t = Idle)"
    using init w'(2-6) by (intro exI [of _ ?e0] exI [of _ "running Looping Joining w'"] conjI) (assumption | simp add: running_def)+
  from 1 2 show ?thesis by (rule conjI)
qed

end
