(* ===== verification/Timer_Queue.thy ===== *)
theory Timer_Queue
  imports Event_Loop "HOL-Library.Multiset"
begin

text \<open>
  \<^verbatim>\<open>Timer\<close> (util/timer.h, util/timer.cc), \<^verbatim>\<open>TimerQueue\<close> (net/timer_queue.h, net/timer_queue.cc) and what
  \<^verbatim>\<open>EventLoop\<close> does with them: its constructor, its destructor and \<^verbatim>\<open>RunAt\<close>, \<^verbatim>\<open>RunAfter\<close>, \<^verbatim>\<open>RunEvery\<close>.
  A \<^verbatim>\<open>std::multimap\<close> is the list of its entries in order, equal keys in the order of insertion. Of the
  timerfd the model keeps the value it was last set to and the time read when that value was
  computed. What is shown: the queue stays sorted by expiration and always armed for its first
  timer; reading the timerfd fires exactly the timers that are due, in order, and puts back the
  repeating ones; but adding a timer from another thread reads captured parameters that are gone, and
  an empty queue wakes the loop every 100 microseconds.
\<close>

section \<open>\<open>std::multimap\<close>\<close>

fun emplace :: "'k::linorder \<Rightarrow> 'v \<Rightarrow> ('k \<times> 'v) list \<Rightarrow> ('k \<times> 'v) list" where
  "emplace k v [] = [(k, v)]"
| "emplace k v ((a, b) # ps) = (if k < a then (k, v) # (a, b) # ps else (a, b) # emplace k v ps)"

section \<open>\<open>Timer\<close>\<close>

record Timer =
  tmr_callback :: closure
  tmr_expiration :: Timestamp
  tmr_repeat :: bool
  tmr_interval :: rat
  tmr_seq_num :: "64 word"

record timer_state = loop_state +
  timers :: "(Timestamp \<times> Timer) list"
  timerfd :: int
  timerfd_channel :: nat
  timer_armed :: "(Timestamp \<times> int \<times> int) option"
  CreatedNum :: "64 word"
  wakeup_channel :: nat
  t_loopInThisThread :: "nat option"

definition Timer_new ::
  "closure \<Rightarrow> Timestamp \<Rightarrow> rat \<Rightarrow> 'a timer_state_scheme \<Rightarrow> Timer \<times> 'a timer_state_scheme" where
  "Timer_new cb ts interval s =
     (\<lparr>tmr_callback = cb, tmr_expiration = ts, tmr_repeat = (0 < interval), tmr_interval = interval,
       tmr_seq_num = CreatedNum s\<rparr>, s\<lparr>CreatedNum := CreatedNum s + 1\<rparr>)"

definition Timer_Fire :: "(closure \<Rightarrow> 's \<Rightarrow> 's result) \<Rightarrow> Timer \<Rightarrow> 's \<Rightarrow> 's result" where
  "Timer_Fire run t s = run (tmr_callback t) s"

definition Timer_ReArm :: "Timestamp \<Rightarrow> Timer \<Rightarrow> Timer result" where
  "Timer_ReArm now t =
     (if tmr_repeat t
      then bindR (Timestamp_plus now (tmr_interval t)) (\<lambda>e. Inr (t\<lparr>tmr_expiration := e\<rparr>))
      else Inr (t\<lparr>tmr_expiration := 0\<rparr>))"

section \<open>The timerfd\<close>

text \<open>\<^verbatim>\<open>LOG_FATAL\<close> only logs: a failure is passed on as a negative descriptor.\<close>

definition createTimerfd :: "kernel \<Rightarrow> 'a timer_state_scheme \<Rightarrow> int \<times> 'a timer_state_scheme" where
  "createTimerfd k s = (k_call k (tick s), s\<lparr>tick := tick s + 1\<rparr>)"

text \<open>The result of the \<^verbatim>\<open>read\<close> is only logged.\<close>

definition readTimerfd :: "kernel \<Rightarrow> 'a timer_state_scheme \<Rightarrow> 'a timer_state_scheme" where
  "readTimerfd k s = s\<lparr>tick := tick s + 1\<rparr>"

definition howMuchTimeFromNow :: "Timestamp \<Rightarrow> Timestamp \<Rightarrow> (int \<times> int) result" where
  "howMuchTimeFromNow now when =
     bindR (int64R (when - now)) (\<lambda>microseconds.
     let microseconds = (if microseconds < 100 then 100 else microseconds)
     in Inr (microseconds sdiv kMicroSecondsPerSecond, microseconds smod kMicroSecondsPerSecond * 1000))"

definition resetTimerfd ::
  "kernel \<Rightarrow> Timestamp \<Rightarrow> 'a timer_state_scheme \<Rightarrow> 'a timer_state_scheme result" where
  "resetTimerfd k expiration s =
     (let now = Timestamp_now k (tick s)
      in bindR (howMuchTimeFromNow now expiration) (\<lambda>(sec, nsec).
         let ret = k_settime k (Suc (tick s))
         in Inr (if ret \<noteq> 0 then s\<lparr>tick := tick s + 2\<rparr>
                 else s\<lparr>timer_armed := Some (now, sec, nsec), tick := tick s + 2\<rparr>)))"

section \<open>\<open>TimerQueue\<close>\<close>

definition GetExpired ::
  "Timestamp \<Rightarrow> 'a timer_state_scheme \<Rightarrow> (Timestamp \<times> Timer) list \<times> 'a timer_state_scheme" where
  "GetExpired now s =
     (fold (\<lambda>(k, t). emplace k t) (takeWhile (\<lambda>(k, t). k < now) (timers s)) [],
      s\<lparr>timers := dropWhile (\<lambda>(k, t). k < now) (timers s)\<rparr>)"

definition TimerQueue_addTimer ::
  "kernel \<Rightarrow> closure \<Rightarrow> Timestamp \<Rightarrow> rat \<Rightarrow> 'a timer_state_scheme \<Rightarrow> 'a timer_state_scheme result" where
  "TimerQueue_addTimer k cb when interval s =
     assertInLoopThread s
       (let needUpdate = (timers s = [] \<or> when < tmr_expiration (snd (hd (timers s))));
            (t, s) = Timer_new cb when interval s;
            s = s\<lparr>timers := emplace when t (timers s)\<rparr>
        in if needUpdate
           then let nextExpire = tmr_expiration (snd (hd (timers s)))
                in if Timestamp_valid nextExpire then resetTimerfd k nextExpire s else Inr s
           else Inr s)"

text \<open>The lambda of \<^verbatim>\<open>AddTimer\<close>: it reads the parameters through the references it captured.\<close>

definition TimerQueue_addTimer_call ::
  "kernel \<Rightarrow> nat \<Rightarrow> 'a timer_state_scheme \<Rightarrow> 'a timer_state_scheme result" where
  "TimerQueue_addTimer_call k a s =
     (case captures s a of
        Some (Captured_timer cb when interval) \<Rightarrow> TimerQueue_addTimer k cb when interval s
      | _ \<Rightarrow> Inl Dangling_reference)"

text \<open>The parameters live until \<^verbatim>\<open>AddTimer\<close> returns.\<close>

definition TimerQueue_AddTimer ::
  "kernel \<Rightarrow> closure \<Rightarrow> Timestamp \<Rightarrow> rat \<Rightarrow> 'a timer_state_scheme \<Rightarrow> 'a timer_state_scheme result" where
  "TimerQueue_AddTimer k cb when interval s =
     (let a = next_capture s;
          s = s\<lparr>captures := (captures s)(a \<mapsto> Captured_timer cb when interval), next_capture := Suc a\<rparr>
      in bindR (EventLoop_RunInLoop (TimerQueue_addTimer_fn a) (TimerQueue_addTimer_call k a) s) (\<lambda>s.
         Inr (s\<lparr>captures := (captures s)(a := None)\<rparr>)))"

definition reset_timer ::
  "Timestamp \<Rightarrow> Timestamp \<times> Timer \<Rightarrow> 'a timer_state_scheme \<Rightarrow> 'a timer_state_scheme result" where
  "reset_timer now = (\<lambda>(key, t) s.
     if tmr_repeat t
     then bindR (Timer_ReArm now t) (\<lambda>t. Inr (s\<lparr>timers := emplace (tmr_expiration t) t (timers s)\<rparr>))
     else Inr s)"

definition TimerQueue_reset ::
  "kernel \<Rightarrow> (Timestamp \<times> Timer) list \<Rightarrow> Timestamp \<Rightarrow> 'a timer_state_scheme \<Rightarrow>
   'a timer_state_scheme result" where
  "TimerQueue_reset k expired now s =
     bindR (foldR (reset_timer now) expired s) (\<lambda>s.
       let nextExpire = (if timers s \<noteq> [] then tmr_expiration (snd (hd (timers s))) else 0)
       in if Timestamp_valid nextExpire then resetTimerfd k nextExpire s else Inr s)"

definition TimerQueue_HandleRead ::
  "kernel \<Rightarrow> (closure \<Rightarrow> 'a timer_state_scheme \<Rightarrow> 'a timer_state_scheme result) \<Rightarrow>
   'a timer_state_scheme \<Rightarrow> 'a timer_state_scheme result" where
  "TimerQueue_HandleRead k run s =
     (let now = Timestamp_now k (tick s);
          s = readTimerfd k (s\<lparr>tick := tick s + 1\<rparr>);
          (expired, s) = GetExpired now s
      in bindR (foldR (\<lambda>(key, t). Timer_Fire run t) expired s) (\<lambda>s.
         TimerQueue_reset k expired now s))"

text \<open>The channel is constructed at address \<open>c\<close>.\<close>

definition TimerQueue_new :: "kernel \<Rightarrow> nat \<Rightarrow> 'a timer_state_scheme \<Rightarrow> 'a timer_state_scheme result" where
  "TimerQueue_new k c s =
     (let (fd, s) = createTimerfd k s;
          s = s\<lparr>timerfd := fd, timerfd_channel := c, timers := [], timer_armed := None,
                chans := (chans s)(c \<mapsto> Channel_SetReadCallback TimerQueue_HandleRead_fn (Channel_new (loop_addr s) fd))\<rparr>
      in Channel_EnableReading c s)"

definition TimerQueue_delete :: "'a timer_state_scheme \<Rightarrow> 'a timer_state_scheme" where
  "TimerQueue_delete s =
     s\<lparr>tick := tick s + 1, timers := [], timer_armed := None, chans := (chans s)(timerfd_channel s := None)\<rparr>"

section \<open>\<open>EventLoop\<close>: construction, destruction, timers\<close>

definition createEventfd :: "kernel \<Rightarrow> 'a timer_state_scheme \<Rightarrow> (int \<times> 'a timer_state_scheme) result" where
  "createEventfd k s =
     (let evtfd = k_call k (tick s)
      in if evtfd < 0 then Inl Aborted else Inr (evtfd, s\<lparr>tick := tick s + 1\<rparr>))"

text \<open>The loop is constructed at address \<open>a\<close>, its two channels at \<open>c\<close> and \<open>d\<close>.\<close>

definition EventLoop_new ::
  "kernel \<Rightarrow> nat \<Rightarrow> nat \<Rightarrow> nat \<Rightarrow> 'a timer_state_scheme \<Rightarrow> 'a timer_state_scheme result" where
  "EventLoop_new k a c d s =
     (let s = s\<lparr>looping := False, quit_flag := False, threadId := cur_tid s, loop_addr := a,
                pollfds := [], channels := Map.empty, active_channels := [], functors := []\<rparr>
      in bindR (TimerQueue_new k c s) (\<lambda>s.
         bindR (createEventfd k s) (\<lambda>(fd, s).
         if t_loopInThisThread s \<noteq> None
         then Inl (Runtime_error ''EventLoop(): another EventLoop alreadyexists in this thread'')
         else let s = s\<lparr>t_loopInThisThread := Some a, wakeup_fd := fd, wakeup_count := 0, wakeup_channel := d,
                        chans := (chans s)(d \<mapsto> Channel_SetReadCallback EventLoop_handleRead_fn (Channel_new a fd))\<rparr>
              in Channel_EnableReading d s)))"

definition EventLoop_delete :: "'a timer_state_scheme \<Rightarrow> 'a timer_state_scheme result" where
  "EventLoop_delete s =
     assertR (\<not> looping s)
       (Inr (TimerQueue_delete
          (s\<lparr>t_loopInThisThread := None, tick := tick s + 1, functors := [],
             chans := (chans s)(wakeup_channel s := None)\<rparr>)))"

definition EventLoop_RunAt ::
  "kernel \<Rightarrow> Timestamp \<Rightarrow> closure \<Rightarrow> 'a timer_state_scheme \<Rightarrow> 'a timer_state_scheme result" where
  "EventLoop_RunAt k ts cb s = TimerQueue_AddTimer k cb ts 0 s"

definition EventLoop_RunAfter ::
  "kernel \<Rightarrow> rat \<Rightarrow> closure \<Rightarrow> 'a timer_state_scheme \<Rightarrow> 'a timer_state_scheme result" where
  "EventLoop_RunAfter k delay cb s =
     bindR (Timestamp_plus (Timestamp_now k (tick s)) delay) (\<lambda>when.
     TimerQueue_AddTimer k cb when 0 (s\<lparr>tick := tick s + 1\<rparr>))"

definition EventLoop_RunEvery ::
  "kernel \<Rightarrow> rat \<Rightarrow> closure \<Rightarrow> 'a timer_state_scheme \<Rightarrow> 'a timer_state_scheme result" where
  "EventLoop_RunEvery k interval cb s =
     bindR (Timestamp_plus (Timestamp_now k (tick s)) interval) (\<lambda>when.
     TimerQueue_AddTimer k cb when interval (s\<lparr>tick := tick s + 1\<rparr>))"

section \<open>Facts about the multimap\<close>

lemma mset_emplace [simp]: "mset (emplace k v xs) = add_mset (k, v) (mset xs)"
  by (induction k v xs rule: emplace.induct) auto

lemma emplace_not_Nil [simp]: "emplace k v xs \<noteq> []"
  by (cases "(k, v, xs)" rule: emplace.cases) auto

lemma set_emplace [simp]: "set (emplace k v xs) = insert (k, v) (set xs)"
  by (induction k v xs rule: emplace.induct) auto

lemma sorted_emplace: "sorted (map fst xs) \<Longrightarrow> sorted (map fst (emplace k v xs))"
  by (induction k v xs rule: emplace.induct) auto

lemma hd_emplace: "hd (emplace k v xs) = (if xs = [] \<or> k < fst (hd xs) then (k, v) else hd xs)"
  by (cases xs) auto

lemma emplace_last: "\<forall>p \<in> set xs. fst p \<le> k \<Longrightarrow> emplace k v xs = xs @ [(k, v)]"
  by (induction k v xs rule: emplace.induct) auto

lemma emplace_stable:
  "sorted (map fst xs) \<Longrightarrow>
   filter (\<lambda>p. fst p = k) (emplace k v xs) = filter (\<lambda>p. fst p = k) xs @ [(k, v)]"
proof (induction k v xs rule: emplace.induct)
  case (2 k v a b ps)
  show ?case
  proof (cases "k < a")
    case True
    then have "filter (\<lambda>p. fst p = k) ps = []" using 2(2) by (auto simp: filter_empty_conv)
    then show ?thesis using True by auto
  next
    case False
    then show ?thesis using 2 by simp
  qed
qed simp

lemma fold_emplace: "sorted (map fst (xs @ ys)) \<Longrightarrow> fold (\<lambda>(k, t). emplace k t) ys xs = xs @ ys"
proof (induction ys arbitrary: xs)
  case (Cons y ys)
  obtain k v where y: "y = (k, v)" by (cases y)
  have "emplace k v xs = xs @ [y]" using Cons.prems by (intro emplace_last [THEN trans]) (auto simp: sorted_append y)
  then show ?case using Cons by (simp add: y)
qed simp

lemma sorted_span:
  "sorted (map fst xs) \<Longrightarrow>
   takeWhile (\<lambda>(k, t). k < n) xs = filter (\<lambda>(k, t). k < n) xs \<and>
   dropWhile (\<lambda>(k, t). k < n) xs = filter (\<lambda>(k, t). n \<le> k) xs" for n :: "'k::linorder"
proof (induction xs)
  case (Cons x xs)
  show ?case
  proof (cases "fst x < n")
    case True
    then show ?thesis using Cons by (auto simp: case_prod_beta)
  next
    case False
    then have "\<forall>p \<in> set (x # xs). n \<le> fst p" using Cons.prems by auto
    then have f: "filter (\<lambda>(k, t). k < n) (x # xs) = []" "filter (\<lambda>(k, t). n \<le> k) (x # xs) = x # xs"
      by (auto simp: filter_empty_conv filter_id_conv case_prod_beta not_less)
    show ?thesis unfolding f using False by (simp add: case_prod_beta)
  qed
qed simp

section \<open>The invariant of the queue\<close>

definition TimerQueue_inv :: "'a timer_state_scheme \<Rightarrow> bool" where
  "TimerQueue_inv s \<longleftrightarrow> sorted (map fst (timers s)) \<and> (\<forall>(key, t) \<in> set (timers s). tmr_expiration t = key)"

text \<open>The timerfd will expire at \<open>e\<close>, or 100 microseconds after it was set if that is later.\<close>

definition armed_for :: "Timestamp \<Rightarrow> (Timestamp \<times> int \<times> int) option \<Rightarrow> bool" where
  "armed_for e a \<longleftrightarrow> (case a of None \<Rightarrow> False
     | Some (now, sec, nsec) \<Rightarrow> 0 \<le> sec \<and> 0 \<le> nsec \<and> nsec < 1000000000 \<and>
         now * 1000 + sec * 1000000000 + nsec = max (now + 100) e * 1000)"

definition timers_armed :: "'a timer_state_scheme \<Rightarrow> bool" where
  "timers_armed s \<longleftrightarrow> (timers s \<noteq> [] \<longrightarrow> armed_for (fst (hd (timers s))) (timer_armed s))"

lemma TimerQueue_inv_emplace:
  "TimerQueue_inv s \<Longrightarrow> tmr_expiration t = key \<Longrightarrow> TimerQueue_inv (s\<lparr>timers := emplace key t (timers s)\<rparr>)"
  by (auto simp: TimerQueue_inv_def sorted_emplace)

lemma TimerQueue_inv_cong:
  "timers s' = timers s \<Longrightarrow> TimerQueue_inv s' \<longleftrightarrow> TimerQueue_inv s"
  by (simp add: TimerQueue_inv_def)

lemma TimerQueue_inv_hd:
  "TimerQueue_inv s \<Longrightarrow> timers s \<noteq> [] \<Longrightarrow> tmr_expiration (snd (hd (timers s))) = fst (hd (timers s))"
  by (cases "timers s") (auto simp: TimerQueue_inv_def)

lemma GetExpired_partition:
  assumes "TimerQueue_inv s"
  shows "GetExpired now s = (filter (\<lambda>(key, t). key < now) (timers s),
    s\<lparr>timers := filter (\<lambda>(key, t). now \<le> key) (timers s)\<rparr>)"
proof -
  have "sorted (map fst (timers s))" using assms by (simp add: TimerQueue_inv_def)
  moreover then have "sorted (map fst (filter (\<lambda>(key, t). key < now) (timers s)))"
    by (metis sorted_filter)
  ultimately show ?thesis
    by (simp add: GetExpired_def sorted_span fold_emplace [where xs = "[]", simplified])
qed

lemma howMuchTimeFromNow_ok:
  assumes "int64_ok (e - now)"
  obtains sec nsec where "howMuchTimeFromNow now e = Inr (sec, nsec)" "armed_for e (Some (now, sec, nsec))"
proof -
  define m where "m = max 100 (e - now)"
  have m: "0 \<le> m" "m = (if e - now < 100 then 100 else e - now)" by (auto simp: m_def)
  have d: "m div 1000000 * 1000000 + m mod 1000000 = m" "0 \<le> m mod 1000000" "m mod 1000000 < 1000000"
      "0 \<le> m div 1000000"
    using m(1) by (auto simp: pos_imp_zdiv_nonneg_iff)
  have "howMuchTimeFromNow now e = Inr (m div 1000000, m mod 1000000 * 1000)"
    using assms sdiv_smod_nonneg [OF m(1), of 1000000]
    by (simp add: howMuchTimeFromNow_def int64R_def kMicroSecondsPerSecond_def m(2) [symmetric])
  moreover have "armed_for e (Some (now, m div 1000000, m mod 1000000 * 1000))"
  proof -
    have "now + m = max (now + 100) e" by (simp add: m_def)
    then have "now * 1000 + m * 1000 = max (now + 100) e * 1000" by (metis distrib_right)
    moreover define q r where "q = m div 1000000" "r = m mod 1000000"
    ultimately show ?thesis using d unfolding armed_for_def q_r_def [symmetric] by simp
  qed
  ultimately show thesis using that by blast
qed

lemma resetTimerfd_ok:
  assumes "settime_ok k" "int64_ok (e - Timestamp_now k (tick s))"
  shows "\<exists>a. resetTimerfd k e s = Inr (s\<lparr>timer_armed := a, tick := tick s + 2\<rparr>) \<and> armed_for e a"
proof -
  obtain sec nsec where "howMuchTimeFromNow (Timestamp_now k (tick s)) e = Inr (sec, nsec)"
      "armed_for e (Some (Timestamp_now k (tick s), sec, nsec))"
    using howMuchTimeFromNow_ok [OF assms(2)] .
  then show ?thesis using assms(1) by (auto simp: resetTimerfd_def settime_ok_def Let_def)
qed

text \<open>Bounds under which no arithmetic on timestamps overflows: expirations below \<open>2 ^ 62\<close> in size,
  intervals of less than \<open>2 ^ 53\<close> microseconds (285 years).\<close>

definition timer_ok :: "Timestamp \<times> Timer \<Rightarrow> bool" where
  "timer_ok = (\<lambda>(key, t). \<bar>key\<bar> < 2 ^ 62 \<and>
     (tmr_repeat t \<longrightarrow> 0 \<le> tmr_interval t \<and> tmr_interval t * 1000000 < 2 ^ 53))"

definition timers_ok :: "'a timer_state_scheme \<Rightarrow> bool" where
  "timers_ok s \<longleftrightarrow> (\<forall>p \<in> set (timers s). timer_ok p)"

lemma clock_diff_ok: "clock_ok k \<Longrightarrow> \<bar>e\<bar> < 2 ^ 62 \<Longrightarrow> int64_ok (e - Timestamp_now k t)"
  by (auto simp: clock_ok_def int64_ok_def dest!: spec [of _ t])

text \<open>The entry a repeating timer is put back with.\<close>

definition rearmed :: "Timestamp \<Rightarrow> Timestamp \<times> Timer \<Rightarrow> Timestamp \<times> Timer" where
  "rearmed now = (\<lambda>(key, t).
     let e = (case Timestamp_plus now (tmr_interval t) of Inr e \<Rightarrow> e | Inl _ \<Rightarrow> 0)
     in (e, t\<lparr>tmr_expiration := e\<rparr>))"

lemma rearmed_ok:
  assumes "0 \<le> now" "now < 2 ^ 60" "timer_ok (key, t)" "tmr_repeat t"
  shows "reset_timer now (key, t) s = Inr (s\<lparr>timers := emplace (fst (rearmed now (key, t)))
      (snd (rearmed now (key, t))) (timers s)\<rparr>)"
    and "timer_ok (rearmed now (key, t))" and "tmr_expiration (snd (rearmed now (key, t))) = fst (rearmed now (key, t))"
    and "now \<le> fst (rearmed now (key, t))"
proof -
  define m where "m = \<lfloor>tmr_interval t * 1000000\<rfloor>"
  have m: "0 \<le> m" "m < 2 ^ 53"
    using assms(3,4) by (simp_all add: m_def timer_ok_def floor_less_iff)
  have "int64_ok now" "int64_ok (now + m + 1)"
    using assms(1,2) m by (simp_all add: int64_ok_def)
  then obtain d where d: "Timestamp_plus now (tmr_interval t) = Inr (now + d)" "m \<le> d" "d \<le> m + 1"
    using Timestamp_plus_ok [OF m_def [symmetric] m] by blast
  then have r: "rearmed now (key, t) = (now + d, t\<lparr>tmr_expiration := now + d\<rparr>)" by (simp add: rearmed_def Let_def)
  show "reset_timer now (key, t) s = Inr (s\<lparr>timers := emplace (fst (rearmed now (key, t)))
      (snd (rearmed now (key, t))) (timers s)\<rparr>)"
    using assms(4) d by (simp add: reset_timer_def Timer_ReArm_def r)
  show "timer_ok (rearmed now (key, t))"
    using assms m d by (simp add: r timer_ok_def)
  show "tmr_expiration (snd (rearmed now (key, t))) = fst (rearmed now (key, t))"
    "now \<le> fst (rearmed now (key, t))" using m d by (simp_all add: r)
qed

lemma reset_timers_ok:
  assumes "0 \<le> now" "now < 2 ^ 60" "\<forall>p \<in> set expired. timer_ok p" "TimerQueue_inv s" "timers_ok s"
  shows "\<exists>ts. foldR (reset_timer now) expired s = Inr (s\<lparr>timers := ts\<rparr>) \<and>
    TimerQueue_inv (s\<lparr>timers := ts\<rparr>) \<and> timers_ok (s\<lparr>timers := ts\<rparr>) \<and>
    mset ts = mset (timers s) + mset (map (rearmed now) (filter (tmr_repeat \<circ> snd) expired))"
  using assms(3-5)
proof (induction expired arbitrary: s)
  case Nil
  then show ?case by (intro exI [of _ "timers s"]) simp
next
  case (Cons p ps)
  obtain key t where p: "p = (key, t)" by (cases p)
  show ?case
  proof (cases "tmr_repeat t")
    case True
    let ?r = "rearmed now (key, t)"
    let ?s = "s\<lparr>timers := emplace (fst ?r) (snd ?r) (timers s)\<rparr>"
    have r: "reset_timer now (key, t) s = Inr ?s" "timer_ok ?r" "tmr_expiration (snd ?r) = fst ?r"
      using rearmed_ok [OF assms(1,2) _ True] Cons.prems(1) by (auto simp: p)
    have "TimerQueue_inv ?s" "timers_ok ?s"
      using r Cons.prems(2,3) by (simp_all add: TimerQueue_inv_emplace timers_ok_def)
    with Cons.prems(1) Cons.IH [of ?s] r True show ?thesis by (auto simp: p)
  next
    case False
    with Cons show ?thesis by (auto simp: p reset_timer_def)
  qed
qed

lemma TimerQueue_reset_ok:
  assumes k: "settime_ok k" "clock_ok k" and now: "0 \<le> now" "now < 2 ^ 60"
    and "\<forall>p \<in> set expired. timer_ok p" "TimerQueue_inv s" "timers_ok s"
  shows "\<exists>ts a. TimerQueue_reset k expired now s = Inr (s\<lparr>timers := ts, timer_armed := a, tick := tick s + 2\<rparr>) \<and>
    TimerQueue_inv (s\<lparr>timers := ts\<rparr>) \<and> timers_ok (s\<lparr>timers := ts\<rparr>) \<and>
    mset ts = mset (timers s) + mset (map (rearmed now) (filter (tmr_repeat \<circ> snd) expired)) \<and>
    armed_for (if ts = [] then 0 else fst (hd ts)) a"
proof -
  obtain ts where ts: "foldR (reset_timer now) expired s = Inr (s\<lparr>timers := ts\<rparr>)"
      "TimerQueue_inv (s\<lparr>timers := ts\<rparr>)" "timers_ok (s\<lparr>timers := ts\<rparr>)"
      "mset ts = mset (timers s) + mset (map (rearmed now) (filter (tmr_repeat \<circ> snd) expired))"
    using reset_timers_ok [OF now assms(5-7)] by blast
  define e where "e = (if ts = [] then 0 else fst (hd ts))"
  have e: "(if ts \<noteq> [] then tmr_expiration (snd (hd ts)) else 0) = e"
    using TimerQueue_inv_hd [OF ts(2)] by (simp add: e_def)
  have "\<bar>e\<bar> < 2 ^ 62"
    using ts(3) hd_in_set [of ts] by (auto simp: timers_ok_def timer_ok_def e_def case_prod_beta)
  then obtain a where "resetTimerfd k e (s\<lparr>timers := ts\<rparr>) = Inr (s\<lparr>timers := ts, timer_armed := a, tick := tick s + 2\<rparr>)"
      "armed_for e a"
    using resetTimerfd_ok [OF k(1) clock_diff_ok [OF k(2)], of e "s\<lparr>timers := ts\<rparr>"] by auto
  moreover have "TimerQueue_reset k expired now s = resetTimerfd k e (s\<lparr>timers := ts\<rparr>)"
    using ts(1) e by (cases "ts = []") (auto simp: TimerQueue_reset_def)
  ultimately show ?thesis using ts
    by (intro exI [of _ ts] exI [of _ a]) (simp add: e_def [symmetric])
qed

lemma foldR_Fire: "foldR (\<lambda>(key, t). Timer_Fire run t) ps s = foldR run (map (tmr_callback \<circ> snd) ps) s"
proof (induction ps arbitrary: s)
  case (Cons p ps)
  then have "foldR (\<lambda>(key, t). Timer_Fire run t) ps = foldR run (map (tmr_callback \<circ> snd) ps)" by (rule ext)
  moreover have "(case p of (key, t) \<Rightarrow> Timer_Fire run t) s = run ((tmr_callback \<circ> snd) p) s"
    by (cases p) (simp add: Timer_Fire_def)
  ultimately show ?case by (simp only: foldR.simps list.map)
qed simp

lemma HandleRead_eq:
  fixes k :: kernel and s :: "'a timer_state_scheme"
  assumes "TimerQueue_inv s"
  defines "now \<equiv> Timestamp_now k (tick s)"
  shows "TimerQueue_HandleRead k run s =
    bindR (foldR run (map (tmr_callback \<circ> snd) (filter (\<lambda>(key, t). key < now) (timers s)))
            (s\<lparr>tick := tick s + 2, timers := filter (\<lambda>(key, t). now \<le> key) (timers s)\<rparr>))
      (TimerQueue_reset k (filter (\<lambda>(key, t). key < now) (timers s)) now)"
proof -
  have "TimerQueue_inv (s\<lparr>tick := tick s + 2\<rparr>)" using assms(1) by (simp add: TimerQueue_inv_def)
  from GetExpired_partition [OF this, of now] show ?thesis
    by (simp add: TimerQueue_HandleRead_def readTimerfd_def now_def [symmetric] foldR_Fire Let_def)
qed

section \<open>Properties\<close>

text \<open>A loop with an empty queue, for concrete runs.\<close>

definition quiet_loop :: timer_state where
  "quiet_loop = \<lparr>tick = 0, cur_tid = 7, chans = Map.empty, pollfds = [], channels = Map.empty, loop_addr = 0,
     threadId = 7, looping = True, quit_flag = False, active_channels = [], wakeup_fd = 9, wakeup_count = 0,
     functors = [], captures = Map.empty, next_capture = 0, timers = [], timerfd = 8, timerfd_channel = 1,
     timer_armed = None, CreatedNum = 0, wakeup_channel = 2, t_loopInThisThread = Some 0\<rparr>"

lemma quiet_loop_inv:
  "TimerQueue_inv quiet_loop" "timers_armed quiet_loop" "timers_ok quiet_loop" "isInLoopThread quiet_loop"
  by (simp_all add: quiet_loop_def TimerQueue_inv_def timers_armed_def timers_ok_def isInLoopThread_def)

lemma null_kernel_time: "settime_ok null_kernel" "clock_ok null_kernel" "Timestamp_now null_kernel t = 5"
  by (simp_all add: null_kernel_def settime_ok_def clock_ok_def Timestamp_now_def)

lemma addTimer_ok:
  fixes s :: "'a timer_state_scheme" and cb interval
  assumes inv: "TimerQueue_inv s" and arm: "timers_armed s" and thr: "isInLoopThread s"
    and k: "settime_ok k" "clock_ok k" and "when": "\<bar>when\<bar> < 2 ^ 62"
  defines "t \<equiv> fst (Timer_new cb when interval s)"
  shows "okR (TimerQueue_addTimer k cb when interval s) (\<lambda>s'. TimerQueue_inv s' \<and> timers_armed s' \<and>
    timers s' = emplace when t (timers s) \<and> chans s' = chans s \<and> functors s' = functors s \<and>
    captures s' = captures s)"
proof -
  let ?s = "s\<lparr>CreatedNum := CreatedNum s + 1, timers := emplace when t (timers s)\<rparr>"
  have t: "Timer_new cb when interval s = (t, s\<lparr>CreatedNum := CreatedNum s + 1\<rparr>)" "tmr_expiration t = when"
    by (simp_all add: t_def Timer_new_def)
  have inv': "TimerQueue_inv ?s" using inv t by (auto simp: TimerQueue_inv_def sorted_emplace)
  show ?thesis
  proof (cases "timers s = [] \<or> when < fst (hd (timers s))")
    case True
    then have hd: "hd (emplace when t (timers s)) = (when, t)" by (simp add: hd_emplace)
    obtain a where a: "resetTimerfd k when ?s = Inr (?s\<lparr>timer_armed := a, tick := tick s + 2\<rparr>)" "armed_for when a"
      using resetTimerfd_ok [OF k(1) clock_diff_ok [OF k(2) "when"], of ?s] by auto
    have need: "timers s = [] \<or> when < tmr_expiration (snd (hd (timers s)))"
      using True TimerQueue_inv_hd [OF inv] by (cases "timers s = []") auto
    have "TimerQueue_addTimer k cb when interval s = Inr (?s\<lparr>timer_armed := a, tick := tick s + 2\<rparr>)"
      using need thr t hd a(1) by (simp add: TimerQueue_addTimer_def assertInLoopThread_def)
    then show ?thesis using inv' a(2) hd by (simp add: timers_armed_def TimerQueue_inv_def)
  next
    case False
    then have "\<not> (timers s = [] \<or> when < tmr_expiration (snd (hd (timers s))))"
      using TimerQueue_inv_hd [OF inv] by auto
    then have "TimerQueue_addTimer k cb when interval s = Inr ?s"
      using thr t by (simp add: TimerQueue_addTimer_def assertInLoopThread_def)
    then show ?thesis using inv' arm False by (simp add: timers_armed_def hd_emplace)
  qed
qed

text \<open>C8: adding a timer in the loop's thread puts exactly that timer into the queue, behind the timers
  with the same expiration (none is refused); the queue stays sorted by expiration and the timerfd
  stays armed for its first timer, so that no timer is forgotten.\<close>

theorem TimerQueue_addTimer_correct:
  assumes "TimerQueue_inv s" and "timers_armed s" and "isInLoopThread s"
    and "settime_ok k" and "clock_ok k" and "\<bar>when\<bar> < 2 ^ 62"
  shows "okR (TimerQueue_addTimer k cb when interval s) (\<lambda>s'. TimerQueue_inv s' \<and> timers_armed s' \<and>
    mset (timers s') = add_mset (when, fst (Timer_new cb when interval s)) (mset (timers s)) \<and>
    filter (\<lambda>p. fst p = when) (timers s') =
      filter (\<lambda>p. fst p = when) (timers s) @ [(when, fst (Timer_new cb when interval s))])"
  using addTimer_ok [OF assms, of cb interval] emplace_stable [of "timers s"] assms(1)
  by (auto intro!: okR_mono [OF addTimer_ok [OF assms]] simp: TimerQueue_inv_def)

theorem TimerQueue_addTimer_correct_witness:
  "okR (TimerQueue_addTimer null_kernel (User_fn 1) 1000 0 quiet_loop) (\<lambda>s'.
     timers_armed s' \<and> size (mset (timers s')) = 1)"
  using TimerQueue_addTimer_correct [OF quiet_loop_inv(1,2,4) null_kernel_time(1,2), of 1000 "User_fn 1" 0]
  by (rule okR_mono [rotated, rotated]) (auto simp: quiet_loop_def)

text \<open>C7: when the timerfd is readable, the timers whose expiration lies before the time read are fired,
  each once and in the order of expiration, and nothing else is; if the callbacks leave the queue
  alone, it then holds the timers that were not due and the repeating ones, moved to the time read
  plus their interval, and the timerfd is armed for the first of them.\<close>

theorem TimerQueue_HandleRead_correct:
  fixes s :: "'a timer_state_scheme"
  assumes inv: "TimerQueue_inv s" "timers_ok s" and k: "settime_ok k" "clock_ok k"
    and run: "\<And>f t. okR (run f t) (\<lambda>t'. timers t' = timers t)"
  defines "now \<equiv> Timestamp_now k (tick s)"
  defines "due \<equiv> filter (\<lambda>(key, t). key < now) (timers s)"
  defines "later \<equiv> filter (\<lambda>(key, t). now \<le> key) (timers s)"
  shows "\<exists>s1 s'. foldR run (map (tmr_callback \<circ> snd) due) (s\<lparr>tick := tick s + 2, timers := later\<rparr>) = Inr s1 \<and>
    TimerQueue_HandleRead k run s = Inr s' \<and>
    s' = s1\<lparr>timers := timers s', timer_armed := timer_armed s', tick := tick s1 + 2\<rparr> \<and>
    mset (timers s') = mset later + mset (map (rearmed now) (filter (tmr_repeat \<circ> snd) due)) \<and>
    TimerQueue_inv s' \<and> timers_armed s'"
proof -
  let ?s = "s\<lparr>tick := tick s + 2, timers := later\<rparr>"
  have "okR (foldR run (map (tmr_callback \<circ> snd) due) ?s) (\<lambda>t. timers t = later)"
    by (rule foldR_ok [where I = "\<lambda>t. timers t = later"]) (auto intro: okR_mono [OF run])
  then obtain s1 where s1: "foldR run (map (tmr_callback \<circ> snd) due) ?s = Inr s1" "timers s1 = later"
    by (auto simp: okR_def)
  have now: "0 \<le> now" "now < 2 ^ 60" using k(2) by (simp_all add: clock_ok_def now_def)
  have due: "\<forall>p \<in> set due. timer_ok p" using inv(2) by (auto simp: timers_ok_def due_def)
  have "TimerQueue_inv s1" "timers_ok s1"
    using inv s1(2) by (auto simp: TimerQueue_inv_def timers_ok_def later_def sorted_filter)
  from TimerQueue_reset_ok [OF k now due this] obtain ts a where r:
      "TimerQueue_reset k due now s1 = Inr (s1\<lparr>timers := ts, timer_armed := a, tick := tick s1 + 2\<rparr>)"
      "TimerQueue_inv (s1\<lparr>timers := ts\<rparr>)"
      "mset ts = mset (timers s1) + mset (map (rearmed now) (filter (tmr_repeat \<circ> snd) due))"
      "armed_for (if ts = [] then 0 else fst (hd ts)) a"
    by blast
  let ?t = "s1\<lparr>timers := ts, timer_armed := a, tick := tick s1 + 2\<rparr>"
  have "TimerQueue_HandleRead k run s = Inr ?t"
    unfolding HandleRead_eq [OF inv(1)] now_def [symmetric] due_def [symmetric] later_def [symmetric]
    by (simp only: s1(1) bindR.simps r(1))
  moreover have "TimerQueue_inv ?t" "timers_armed ?t"
    using r(2,4) by (auto simp: TimerQueue_inv_def timers_armed_def)
  ultimately show ?thesis using s1 r(3) by (intro exI [of _ s1] exI [of _ ?t]) simp
qed

theorem TimerQueue_HandleRead_correct_witness:
  "\<exists>s :: timer_state. TimerQueue_inv s \<and> map fst (timers s) = [3, 4, 5] \<and>
     (\<exists>s'. TimerQueue_HandleRead null_kernel (\<lambda>_ t. Inr t) s = Inr s' \<and> timers_armed s' \<and>
        image_mset fst (mset (timers s')) = {#5, 2000005#})"
proof -
  define t :: "int \<Rightarrow> Timer" where "t = (\<lambda>e. \<lparr>tmr_callback = User_fn 1, tmr_expiration = e, tmr_repeat = (e = 3),
    tmr_interval = 2, tmr_seq_num = 0\<rparr>)"
  define s where "s = quiet_loop\<lparr>timers := [(3, t 3), (4, t 4), (5, t 5)]\<rparr>"
  have s: "TimerQueue_inv s" "timers_ok s"
    by (simp_all add: s_def t_def TimerQueue_inv_def timers_ok_def timer_ok_def)
  have "rearmed 5 (3, t 3) = (2000005, (t 3)\<lparr>tmr_expiration := 2000005\<rparr>)"
    using Timestamp_plus_ok [of 2 2000000 5] by (auto simp: rearmed_def t_def int64_ok_def)
  then have "\<exists>s'. TimerQueue_HandleRead null_kernel (\<lambda>_ t. Inr t) s = Inr s' \<and> timers_armed s' \<and>
        image_mset fst (mset (timers s')) = {#5, 2000005#}"
    using TimerQueue_HandleRead_correct [OF s null_kernel_time(1,2), of "\<lambda>_ t. Inr t"]
    by (auto simp: null_kernel_time(3) s_def t_def)
  with s show ?thesis by (intro exI [of _ s]) (simp add: s_def)
qed

text \<open>Whatever the timers' callbacks do to the queue, as long as each of them keeps it sorted and
  within the bounds (as adding a timer does), reading the timerfd completes and leaves a sorted
  queue that is armed for its first timer.\<close>

lemma TimerQueue_HandleRead_keeps_inv:
  assumes "TimerQueue_inv s" "timers_ok s" and k: "settime_ok k" "clock_ok k"
    and run: "\<And>f t. TimerQueue_inv t \<Longrightarrow> timers_ok t \<Longrightarrow>
      okR (run f t) (\<lambda>t'. TimerQueue_inv t' \<and> timers_ok t')"
  shows "okR (TimerQueue_HandleRead k run s) (\<lambda>s'. TimerQueue_inv s' \<and> timers_ok s' \<and> timers_armed s')"
proof -
  let ?now = "Timestamp_now k (tick s)"
  let ?due = "filter (\<lambda>(key, t). key < ?now) (timers s)"
  let ?s = "s\<lparr>tick := tick s + 2, timers := filter (\<lambda>(key, t). ?now \<le> key) (timers s)\<rparr>"
  have now: "0 \<le> ?now" "?now < 2 ^ 60" using k(2) by (simp_all add: clock_ok_def)
  have due: "\<forall>p \<in> set ?due. timer_ok p" using assms(2) by (auto simp: timers_ok_def)
  have "TimerQueue_inv ?s \<and> timers_ok ?s"
    using assms(1,2) by (auto simp: TimerQueue_inv_def timers_ok_def sorted_filter)
  then have "okR (foldR run (map (tmr_callback \<circ> snd) ?due) ?s) (\<lambda>t. TimerQueue_inv t \<and> timers_ok t)"
    by (intro foldR_ok [where I = "\<lambda>t. TimerQueue_inv t \<and> timers_ok t"]) (auto intro: run)
  moreover have "okR (TimerQueue_reset k ?due ?now t) (\<lambda>s'. TimerQueue_inv s' \<and> timers_ok s' \<and> timers_armed s')"
    if "TimerQueue_inv t \<and> timers_ok t" for t
    using TimerQueue_reset_ok [OF k now due] that
    by (fastforce simp: TimerQueue_inv_def timers_ok_def timers_armed_def)
  ultimately show ?thesis
    unfolding HandleRead_eq [OF assms(1)] by (auto simp: okR_bindR intro: okR_mono)
qed

text \<open>A timerfd that becomes readable while no timer is queued is set again, to 100 microseconds from
  then: \<^verbatim>\<open>valid()\<close> holds for the empty timestamp too. Once the last timer has fired, the loop
  keeps waking up 10000 times a second.\<close>

lemma TimerQueue_empty_rearms:
  assumes "timers s = []" and "settime_ok k" and "clock_ok k"
  shows "\<exists>s' now'. TimerQueue_HandleRead k run s = Inr s' \<and> timers s' = [] \<and>
    timer_armed s' = Some (now', 0, 100000)"
proof -
  have inv: "TimerQueue_inv s" using assms(1) by (simp add: TimerQueue_inv_def)
  let ?now = "Timestamp_now k (tick s + 2)"
  have "int64_ok (0 - ?now)" "\<not> 100 \<le> - ?now" using assms(3) clock_diff_ok [of k 0]
    by (auto simp: clock_ok_def dest!: spec [of _ "tick s + 2"])
  then have "howMuchTimeFromNow ?now 0 = Inr (0, 100000)"
    using sdiv_smod_nonneg [of 100 1000000]
    by (simp add: howMuchTimeFromNow_def int64R_def kMicroSecondsPerSecond_def)
  then show ?thesis
    unfolding HandleRead_eq [OF inv]
    using assms by (simp add: TimerQueue_reset_def resetTimerfd_def settime_ok_def)
qed

lemma AddTimer_in_loop:
  assumes "TimerQueue_inv s" "timers_armed s" and thr: "isInLoopThread s"
    and "settime_ok k" "clock_ok k" and "\<bar>when\<bar> < 2 ^ 62"
  shows "okR (TimerQueue_AddTimer k cb when interval s) (\<lambda>s'. TimerQueue_inv s' \<and> timers_armed s' \<and>
    timers s' = emplace when (fst (Timer_new cb when interval s)) (timers s))"
proof -
  let ?a = "next_capture s"
  let ?s = "s\<lparr>captures := (captures s)(?a \<mapsto> Captured_timer cb when interval), next_capture := Suc ?a\<rparr>"
  have "TimerQueue_inv ?s" "timers_armed ?s" "isInLoopThread ?s"
    using assms(1-3) by (simp_all add: TimerQueue_inv_def timers_armed_def isInLoopThread_def)
  from addTimer_ok [OF this assms(4-6), of cb interval] obtain s' where s':
      "TimerQueue_addTimer k cb when interval ?s = Inr s'" "TimerQueue_inv s'" "timers_armed s'"
      "timers s' = emplace when (fst (Timer_new cb when interval ?s)) (timers s)"
    by (auto simp: okR_def)
  have "TimerQueue_AddTimer k cb when interval s = Inr (s'\<lparr>captures := (captures s')(?a := None)\<rparr>)"
    using thr s'(1)
    by (simp add: TimerQueue_AddTimer_def EventLoop_RunInLoop_def TimerQueue_addTimer_call_def isInLoopThread_def)
  then show ?thesis
    using s'(2-4) by (simp add: TimerQueue_inv_def timers_armed_def Timer_new_def)
qed

text \<open>C40: \<^verbatim>\<open>AddTimer\<close> called from another thread (which its comment calls the usual case) queues a lambda
  that holds references to the parameters of the call; \<^verbatim>\<open>AddTimer\<close> has returned when the loop runs the
  lambda, which then reads them out of a dead stack frame.\<close>

theorem AddTimer_other_thread_dangles:
  assumes "\<not> isInLoopThread s"
  shows "\<exists>s'. TimerQueue_AddTimer k cb when interval s = Inr s' \<and> timers s' = timers s \<and>
    functors s' = functors s @ [TimerQueue_addTimer_fn (next_capture s)] \<and>
    (\<forall>tid. TimerQueue_addTimer_call k (next_capture s) (s'\<lparr>cur_tid := tid\<rparr>) = Inl Dangling_reference)"
  using assms
  by (simp add: TimerQueue_AddTimer_def EventLoop_RunInLoop_def TimerQueue_addTimer_call_def
      isInLoopThread_def EventLoop_wakeup_def push_functor_def Let_def)

theorem AddTimer_other_thread_dangles_witness:
  "\<exists>s'. TimerQueue_AddTimer null_kernel (User_fn 1) 1000 0 (quiet_loop\<lparr>cur_tid := 8\<rparr>) = Inr s' \<and>
     functors s' = [TimerQueue_addTimer_fn 0] \<and>
     TimerQueue_addTimer_call null_kernel 0 (s'\<lparr>cur_tid := 7\<rparr>) = Inl Dangling_reference"
  using AddTimer_other_thread_dangles [of "quiet_loop\<lparr>cur_tid := 8\<rparr>" null_kernel "User_fn 1" 1000 0]
  by (auto simp: quiet_loop_def isInLoopThread_def)

text \<open>C36: \<^verbatim>\<open>RunAfter\<close> and \<^verbatim>\<open>RunEvery\<close>, called in the loop's thread, queue a timer for the current time plus the delay: exactly when the
  delay is a whole number of microseconds, and otherwise cut off to whole microseconds or one more, so less than a
  microsecond early and at most one late; \<^verbatim>\<open>RunEvery\<close> makes it repeat when the interval is positive. The queue stays sorted and the timerfd armed
  for the first timer.\<close>

theorem EventLoop_RunEvery_RunAfter_correct:
  fixes s :: "'a timer_state_scheme"
  assumes inv: "TimerQueue_inv s" "timers_armed s" "isInLoopThread s" and k: "settime_ok k" "clock_ok k"
    and d: "0 \<le> d" "d * 1000000 < 2 ^ 53"
  defines "now \<equiv> Timestamp_now k (tick s)"
  shows "okR (EventLoop_RunEvery k d cb s) (\<lambda>s'. TimerQueue_inv s' \<and> timers_armed s' \<and>
      (\<exists>e t. timers s' = emplace e t (timers s) \<and> tmr_callback t = cb \<and> tmr_expiration t = e \<and>
         (tmr_repeat t \<longleftrightarrow> 0 < d) \<and> tmr_interval t = d \<and>
         now + \<lfloor>d * 1000000\<rfloor> \<le> e \<and> e \<le> now + \<lfloor>d * 1000000\<rfloor> + 1 \<and>
         (d * 1000000 = of_int \<lfloor>d * 1000000\<rfloor> \<longrightarrow> e = now + \<lfloor>d * 1000000\<rfloor>))) \<and>
    okR (EventLoop_RunAfter k d cb s) (\<lambda>s'. TimerQueue_inv s' \<and> timers_armed s' \<and>
      (\<exists>e t. timers s' = emplace e t (timers s) \<and> tmr_callback t = cb \<and> tmr_expiration t = e \<and>
         \<not> tmr_repeat t \<and> now + \<lfloor>d * 1000000\<rfloor> \<le> e \<and> e \<le> now + \<lfloor>d * 1000000\<rfloor> + 1 \<and>
         (d * 1000000 = of_int \<lfloor>d * 1000000\<rfloor> \<longrightarrow> e = now + \<lfloor>d * 1000000\<rfloor>)))"
proof -
  have now: "0 \<le> now" "now < 2 ^ 60" using k(2) by (simp_all add: clock_ok_def now_def)
  define m where "m = \<lfloor>d * 1000000\<rfloor>"
  have m: "0 \<le> m" "m < 2 ^ 53" using d by (simp_all add: m_def floor_less_iff)
  have "int64_ok now" "int64_ok (now + m + 1)" using now m by (simp_all add: int64_ok_def)
  then obtain e where e: "Timestamp_plus now d = Inr e" "now + m \<le> e" "e \<le> now + m + 1" "d * 1000000 = of_int m \<longrightarrow> e = now + m"
    using Timestamp_plus_ok [OF m_def [symmetric] m] by force
  have "\<bar>e\<bar> < 2 ^ 62" using e now m by simp
  then have add: "okR (TimerQueue_AddTimer k cb e iv (s\<lparr>tick := tick s + 1\<rparr>)) (\<lambda>s'. TimerQueue_inv s' \<and>
      timers_armed s' \<and> timers s' = emplace e (fst (Timer_new cb e iv s)) (timers s))" for iv
    using AddTimer_in_loop [OF _ _ _ k, of "s\<lparr>tick := tick s + 1\<rparr>" e cb iv] inv
    by (simp add: TimerQueue_inv_def timers_armed_def isInLoopThread_def Timer_new_def)
  have "okR (EventLoop_RunEvery k d cb s) (\<lambda>s'. TimerQueue_inv s' \<and> timers_armed s' \<and>
      timers s' = emplace e (fst (Timer_new cb e d s)) (timers s))"
    and "okR (EventLoop_RunAfter k d cb s) (\<lambda>s'. TimerQueue_inv s' \<and> timers_armed s' \<and>
      timers s' = emplace e (fst (Timer_new cb e 0 s)) (timers s))"
    using e(1) add by (simp_all add: EventLoop_RunEvery_def EventLoop_RunAfter_def now_def [symmetric])
  then show ?thesis
    using e(2-4) unfolding m_def [symmetric]
    by (intro conjI; elim okR_mono; intro conjI exI [of _ e] exI, auto simp: Timer_new_def)
qed

theorem EventLoop_RunEvery_RunAfter_correct_witness:
  "okR (EventLoop_RunEvery null_kernel 2 (User_fn 1) quiet_loop) (\<lambda>s'. timers_armed s' \<and>
     (\<exists>t. timers s' = [(2000005, t)] \<and> tmr_repeat t \<and> tmr_interval t = 2))"
  using EventLoop_RunEvery_RunAfter_correct
    [OF quiet_loop_inv(1,2,4) null_kernel_time(1,2), of 2 "User_fn 1", THEN conjunct1]
  by (rule okR_mono [rotated, rotated]) (auto simp: quiet_loop_def null_kernel_time(3))

text \<open>What the constructor leaves behind.\<close>

definition constructed_loop :: "nat \<Rightarrow> nat \<Rightarrow> nat \<Rightarrow> int \<Rightarrow> int \<Rightarrow> 'a timer_state_scheme \<Rightarrow> 'a timer_state_scheme" where
  "constructed_loop a c d fd fd' s =
     s\<lparr>looping := False, quit_flag := False, threadId := cur_tid s, loop_addr := a,
       active_channels := [], functors := [], timerfd := fd, timerfd_channel := c, timers := [], timer_armed := None,
       tick := tick s + 2, t_loopInThisThread := Some a, wakeup_fd := fd', wakeup_count := 0, wakeup_channel := d,
       pollfds := [\<lparr>pfd_fd = fd, pfd_events = ucast kReadEvent, pfd_revents = 0\<rparr>,
                   \<lparr>pfd_fd = fd', pfd_events = ucast kReadEvent, pfd_revents = 0\<rparr>],
       chans := (chans s)
         (c \<mapsto> (Channel_new a fd)\<lparr>ch_read_cb := Some TimerQueue_HandleRead_fn, ch_events := kReadEvent, ch_index := 0\<rparr>,
          d \<mapsto> (Channel_new a fd')\<lparr>ch_read_cb := Some EventLoop_handleRead_fn, ch_events := kReadEvent, ch_index := 1\<rparr>),
       channels := [fd \<mapsto> c, fd' \<mapsto> d]\<rparr>"

lemma EventLoop_new_eq:
  fixes s :: "'a timer_state_scheme"
  assumes fds: "fd = k_call k (tick s)" "fd' = k_call k (Suc (tick s))" "fd \<noteq> fd'"
  shows "EventLoop_new k a c d s =
    (if fd' < 0 then Inl Aborted
     else if t_loopInThisThread s \<noteq> None
     then Inl (Runtime_error ''EventLoop(): another EventLoop alreadyexists in this thread'')
     else Inr (constructed_loop a c d fd fd' s))"
proof -
  let ?s0 = "s\<lparr>looping := False, quit_flag := False, threadId := cur_tid s, loop_addr := a, pollfds := [],
    channels := Map.empty, active_channels := [], functors := [], tick := tick s + 1, timerfd := fd,
    timerfd_channel := c, timers := [], timer_armed := None,
    chans := (chans s)(c \<mapsto> (Channel_new a fd)\<lparr>ch_read_cb := Some TimerQueue_HandleRead_fn\<rparr>)\<rparr>"
  let ?p = "\<lambda>fd. \<lparr>pfd_fd = fd, pfd_events = ucast kReadEvent, pfd_revents = 0\<rparr>"
  let ?ch = "(Channel_new a fd)\<lparr>ch_read_cb := Some TimerQueue_HandleRead_fn, ch_events := kReadEvent, ch_index := 0\<rparr>"
  let ?s1 = "?s0\<lparr>pollfds := [?p fd], chans := (chans s)(c \<mapsto> ?ch), channels := [fd \<mapsto> c]\<rparr>"
  have 1: "Channel_EnableReading c ?s0 = Inr ?s1"
    unfolding Channel_EnableReading_def
    by (subst set_events_new [where ch = "(Channel_new a fd)\<lparr>ch_read_cb := Some TimerQueue_HandleRead_fn\<rparr>"])
      (simp_all add: isInLoopThread_def Channel_new_def)
  let ?d = "(Channel_new a fd')\<lparr>ch_read_cb := Some EventLoop_handleRead_fn\<rparr>"
  let ?s2 = "?s1\<lparr>tick := tick s + 2, t_loopInThisThread := Some a, wakeup_fd := fd', wakeup_count := 0,
    wakeup_channel := d, chans := (chans s)(c \<mapsto> ?ch, d \<mapsto> ?d)\<rparr>"
  have 2: "Channel_EnableReading d ?s2 = Inr (constructed_loop a c d fd fd' s)"
    using fds(3) unfolding Channel_EnableReading_def
    by (subst set_events_new [where ch = ?d]) (simp_all add: isInLoopThread_def Channel_new_def constructed_loop_def)
  show ?thesis
    using 1 2 fds(1,2)
    by (simp add: EventLoop_new_def TimerQueue_new_def createTimerfd_def createEventfd_def isInLoopThread_def)
qed

lemma constructed_loop_poller:
  "0 \<le> fd \<Longrightarrow> 0 \<le> fd' \<Longrightarrow> fd \<noteq> fd' \<Longrightarrow> c \<noteq> d \<Longrightarrow> Poller_inv (constructed_loop a c d fd fd' s)"
  by (auto simp: Poller_inv_def registered_def Channel_new_def constructed_loop_def less_Suc_eq)

text \<open>The constructor of \<^verbatim>\<open>EventLoop\<close> leaves a consistent poller that watches the timerfd and the
  eventfd, an empty timer queue and a loop owned by the calling thread that is not running; in a
  thread that already has a loop it throws, and without an eventfd it aborts.\<close>

lemma EventLoop_new_correct:
  fixes s :: "'a timer_state_scheme"
  assumes cd: "c \<noteq> d" and fds: "fd = k_call k (tick s)" "fd' = k_call k (Suc (tick s))"
    "0 \<le> fd" "fd \<noteq> fd'"
  shows "if fd' < 0 then EventLoop_new k a c d s = Inl Aborted
    else if t_loopInThisThread s \<noteq> None
    then EventLoop_new k a c d s = Inl (Runtime_error ''EventLoop(): another EventLoop alreadyexists in this thread'')
    else okR (EventLoop_new k a c d s) (\<lambda>s'. Poller_inv s' \<and> map pfd_fd (pollfds s') = [fd, fd'] \<and>
      channels s' = [fd \<mapsto> c, fd' \<mapsto> d] \<and> map pfd_events (pollfds s') = [ucast kReadEvent, ucast kReadEvent] \<and>
      TimerQueue_inv s' \<and> timers s' = [] \<and> isInLoopThread s' \<and> \<not> looping s' \<and>
      t_loopInThisThread s' = Some a)"
  using EventLoop_new_eq [OF fds(1,2,4), of a c d] constructed_loop_poller [OF fds(3) _ fds(4) cd, of a s]
  by (simp add: isInLoopThread_def TimerQueue_inv_def) (simp add: constructed_loop_def)

end
