(* ===== verification/Slices.thy ===== *)
theory Slices
  imports Polly_Prelude "HOL-Library.Sublist"
begin

text \<open>
  The class \<^verbatim>\<open>Slice\<close> of include/polly/slice.h: a pointer into storage the slice does not own and
  a size. The pointer is modelled by the memory that is readable from it on, so a slice is usable
  when its size does not run past that memory (\<open>Slice_valid\<close>). The lemmas relate the operations to
  the string a valid slice denotes (\<open>Slice_str\<close>): equality, prefix test and three-way comparison
  are those of byte strings, compared as unsigned bytes.
\<close>

section \<open>Data\<close>

record Slice =
  slice_data :: "char list"
  slice_size :: nat

definition Slice_valid :: "Slice \<Rightarrow> bool" where
  "Slice_valid s \<longleftrightarrow> slice_size s \<le> length (slice_data s) \<and> slice_size s \<le> max_size"

definition Slice_str :: "Slice \<Rightarrow> char list" where
  "Slice_str s = take (slice_size s) (slice_data s)"

section \<open>Constructors\<close>

definition Slice_default :: Slice where
  "Slice_default = \<lparr>slice_data = [CHR 0x00], slice_size = 0\<rparr>"

definition Slice_ptr :: "char list \<Rightarrow> nat \<Rightarrow> Slice" where
  "Slice_ptr d n = \<lparr>slice_data = d, slice_size = n\<rparr>"

definition Slice_string :: "string \<Rightarrow> Slice" where
  "Slice_string s = \<lparr>slice_data = s @ [CHR 0x00], slice_size = length s\<rparr>"

fun strlen :: "char list \<Rightarrow> nat result" where
  "strlen [] = Inl Out_of_bounds"
| "strlen (c # cs) = (if c = CHR 0x00 then Inr 0 else bindR (strlen cs) (\<lambda>n. Inr (Suc n)))"

definition Slice_cstr :: "char list \<Rightarrow> Slice result" where
  "Slice_cstr s = bindR (strlen s) (\<lambda>n. Inr \<lparr>slice_data = s, slice_size = n\<rparr>)"

section \<open>Accessors and operations\<close>

definition Slice_empty :: "Slice \<Rightarrow> bool" where
  "Slice_empty s \<longleftrightarrow> slice_size s = 0"

definition Slice_index :: "Slice \<Rightarrow> nat \<Rightarrow> char result" where
  "Slice_index s n =
     assertR (n < slice_size s)
       (boundsR (n < length (slice_data s)) (Inr (slice_data s ! n)))"

definition Slice_clear :: "Slice \<Rightarrow> Slice" where
  "Slice_clear s = s\<lparr>slice_data := [CHR 0x00], slice_size := 0\<rparr>"

definition Slice_remove_prefix :: "nat \<Rightarrow> Slice \<Rightarrow> Slice result" where
  "Slice_remove_prefix n s =
     assertR (n \<le> slice_size s)
       (Inr (s\<lparr>slice_data := drop n (slice_data s), slice_size := sz_sub (slice_size s) n\<rparr>))"

definition Slice_ToString :: "Slice \<Rightarrow> string result" where
  "Slice_ToString s =
     boundsR (slice_size s \<le> length (slice_data s)) (Inr (take (slice_size s) (slice_data s)))"

text \<open>\<^verbatim>\<open>memcmp\<close>: the difference of the first two bytes that differ, read as \<^verbatim>\<open>unsigned char\<close>.\<close>

fun memcmp_bytes :: "nat \<Rightarrow> char list \<Rightarrow> char list \<Rightarrow> int" where
  "memcmp_bytes (Suc n) (x # xs) (y # ys) =
     (if x = y then memcmp_bytes n xs ys else int (of_char x) - int (of_char y))"
| "memcmp_bytes _ _ _ = 0"

definition memcmp :: "char list \<Rightarrow> char list \<Rightarrow> nat \<Rightarrow> int result" where
  "memcmp xs ys n =
     boundsR (n \<le> length xs \<and> n \<le> length ys) (Inr (memcmp_bytes n xs ys))"

definition Slice_starts_with :: "Slice \<Rightarrow> Slice \<Rightarrow> bool result" where
  "Slice_starts_with s x =
     (if slice_size x \<le> slice_size s
      then bindR (memcmp (slice_data s) (slice_data x) (slice_size x)) (\<lambda>r. Inr (r = 0))
      else Inr False)"

definition Slice_eq :: "Slice \<Rightarrow> Slice \<Rightarrow> bool result" where
  "Slice_eq x y =
     (if slice_size x = slice_size y
      then bindR (memcmp (slice_data x) (slice_data y) (slice_size x)) (\<lambda>r. Inr (r = 0))
      else Inr False)"

definition Slice_neq :: "Slice \<Rightarrow> Slice \<Rightarrow> bool result" where
  "Slice_neq x y = bindR (Slice_eq x y) (\<lambda>b. Inr (\<not> b))"

definition Slice_compare :: "Slice \<Rightarrow> Slice \<Rightarrow> int result" where
  "Slice_compare a b =
     (let min_len = (if slice_size a < slice_size b then slice_size a else slice_size b)
      in bindR (memcmp (slice_data a) (slice_data b) min_len) (\<lambda>r.
           if r = 0
           then (if slice_size a < slice_size b then Inr (-1)
                 else if slice_size a > slice_size b then Inr 1
                 else Inr r)
           else Inr r))"

section \<open>Properties\<close>

text \<open>The order the comparison decides: lexicographic on the bytes' unsigned values.\<close>

definition bytes_less :: "char list \<Rightarrow> char list \<Rightarrow> bool" where
  "bytes_less xs ys \<longleftrightarrow> ord_class.lexordp (map of_char xs :: nat list) (map of_char ys)"

lemma bytes_less_simps [simp]:
  "\<not> bytes_less xs []"
  "bytes_less [] (y # ys)"
  "bytes_less (x # xs) (y # ys) \<longleftrightarrow>
     (of_char x :: nat) < of_char y \<or> x = y \<and> bytes_less xs ys"
  by (auto simp: bytes_less_def not_less)

lemma memcmp_bytes_eq_0:
  "n \<le> length xs \<Longrightarrow> n \<le> length ys \<Longrightarrow> memcmp_bytes n xs ys = 0 \<longleftrightarrow> take n xs = take n ys"
  by (induction n xs ys rule: memcmp_bytes.induct) auto

lemma memcmp_bytes_less:
  "memcmp_bytes n xs ys < 0 \<Longrightarrow> bytes_less (take n xs) (take n ys)"
  by (induction n xs ys rule: memcmp_bytes.induct) (auto split: if_splits)

lemma memcmp_bytes_uminus: "memcmp_bytes n ys xs = - memcmp_bytes n xs ys"
  by (induction n xs ys rule: memcmp_bytes.induct) auto

lemma bytes_less_prefix: "n \<le> length xs \<Longrightarrow> n \<le> length ys \<Longrightarrow>
   bytes_less (take n xs) (take n ys) \<Longrightarrow> bytes_less xs ys"
  by (induction n xs ys rule: memcmp_bytes.induct) auto

lemma bytes_less_irrefl [simp]: "\<not> bytes_less xs xs"
  by (induction xs) auto

lemma bytes_less_asym: "bytes_less xs ys \<Longrightarrow> \<not> bytes_less ys xs"
  by (induction xs arbitrary: ys) (case_tac ys; auto)+

lemma bytes_less_append: "bytes_less xs (xs @ y # ys)"
  by (induction xs) auto

lemma memcmp_bytes_take:
  "n \<le> k \<Longrightarrow> n \<le> l \<Longrightarrow> memcmp_bytes n (take k xs) (take l ys) = memcmp_bytes n xs ys"
proof (induction n xs ys arbitrary: k l rule: memcmp_bytes.induct)
  case (1 n x xs y ys)
  then show ?case by (cases k; cases l) simp_all
qed simp_all

lemma memcmp_prefix_cases:
  assumes "n = min (length xs) (length ys)"
  shows "memcmp_bytes n xs ys < 0 \<Longrightarrow> bytes_less xs ys"
    and "memcmp_bytes n xs ys > 0 \<Longrightarrow> bytes_less ys xs"
    and "memcmp_bytes n xs ys = 0 \<Longrightarrow> length xs < length ys \<Longrightarrow> bytes_less xs ys"
    and "memcmp_bytes n xs ys = 0 \<Longrightarrow> length ys < length xs \<Longrightarrow> bytes_less ys xs"
    and "memcmp_bytes n xs ys = 0 \<Longrightarrow> length xs = length ys \<Longrightarrow> xs = ys"
proof -
  have n: "n \<le> length xs" "n \<le> length ys" using assms by simp_all
  show "memcmp_bytes n xs ys < 0 \<Longrightarrow> bytes_less xs ys"
    using memcmp_bytes_less bytes_less_prefix n by blast
  show "memcmp_bytes n xs ys > 0 \<Longrightarrow> bytes_less ys xs"
    using memcmp_bytes_less [of n ys xs] bytes_less_prefix [of n ys xs] n
    by (simp add: memcmp_bytes_uminus [of n xs ys, symmetric] memcmp_bytes_uminus [of n ys xs])
  have shorter: "bytes_less us vs"
    if "length us < length vs" "take (length us) vs = us" for us vs
    using bytes_less_append [of us "vs ! length us" "drop (Suc (length us)) vs"] that
    by (metis append_take_drop_id Cons_nth_drop_Suc)
  show "memcmp_bytes n xs ys = 0 \<Longrightarrow> length xs < length ys \<Longrightarrow> bytes_less xs ys"
    using shorter [of xs ys] memcmp_bytes_eq_0 [OF n] assms by simp
  show "memcmp_bytes n xs ys = 0 \<Longrightarrow> length ys < length xs \<Longrightarrow> bytes_less ys xs"
    using shorter [of ys xs] memcmp_bytes_eq_0 [OF n] assms by simp
  show "memcmp_bytes n xs ys = 0 \<Longrightarrow> length xs = length ys \<Longrightarrow> xs = ys"
    using memcmp_bytes_eq_0 [OF n] assms by simp
qed

lemma length_Slice_str [simp]: "Slice_valid s \<Longrightarrow> length (Slice_str s) = slice_size s"
  by (simp add: Slice_valid_def Slice_str_def)

lemma Slice_memcmp:
  assumes "Slice_valid a" "Slice_valid b" "n \<le> slice_size a" "n \<le> slice_size b"
  shows "memcmp (slice_data a) (slice_data b) n =
    Inr (memcmp_bytes n (Slice_str a) (Slice_str b))"
  using assms by (auto simp: memcmp_def Slice_str_def Slice_valid_def memcmp_bytes_take)

text \<open>C35: the three-way comparison of two valid slices never reads out of bounds, and its sign is
  that of the lexicographic comparison of the two byte strings as unsigned bytes.\<close>

theorem Slice_compare_three_way:
  assumes "Slice_valid a" "Slice_valid b"
  shows "okR (Slice_compare a b) (\<lambda>r.
    (r < 0 \<longleftrightarrow> bytes_less (Slice_str a) (Slice_str b)) \<and>
    (r = 0 \<longleftrightarrow> Slice_str a = Slice_str b) \<and>
    (r > 0 \<longleftrightarrow> bytes_less (Slice_str b) (Slice_str a)))"
proof -
  let ?n = "min (length (Slice_str a)) (length (Slice_str b))"
  let ?m = "memcmp_bytes ?n (Slice_str a) (Slice_str b)"
  have tri: "(r < 0 \<longleftrightarrow> bytes_less xs ys) \<and> (r = 0 \<longleftrightarrow> xs = ys) \<and> (r > 0 \<longleftrightarrow> bytes_less ys xs)"
    if "r < 0 \<longrightarrow> bytes_less xs ys" "r = 0 \<longrightarrow> xs = ys" "r > 0 \<longrightarrow> bytes_less ys xs"
    for r :: int and xs ys
    using that by (metis bytes_less_asym bytes_less_irrefl linorder_neqE)
  have "Slice_compare a b = Inr (if ?m = 0
      then (if slice_size a < slice_size b then -1 else if slice_size a > slice_size b then 1 else ?m)
      else ?m)"
    using assms by (simp add: Slice_compare_def Slice_memcmp min_def)
  moreover note memcmp_prefix_cases [OF refl, of "Slice_str a" "Slice_str b"] assms
  ultimately show ?thesis
    by (simp only: okR_Inr, intro tri) (auto split: if_splits)
qed

theorem Slice_compare_three_way_witness:
  "Slice_valid (Slice_string ''ab'') \<and> Slice_valid (Slice_string ''b'') \<and>
   okR (Slice_compare (Slice_string ''ab'') (Slice_string ''b'')) (\<lambda>r. r < 0)"
proof -
  have v: "Slice_valid (Slice_string ''ab'')" "Slice_valid (Slice_string ''b'')"
    by (simp_all add: Slice_valid_def Slice_string_def max_size_def)
  have "bytes_less (Slice_str (Slice_string ''ab'')) (Slice_str (Slice_string ''b''))"
    by (simp add: Slice_str_def Slice_string_def)
  with v Slice_compare_three_way [OF v] show ?thesis
    by (auto elim: okR_mono)
qed

text \<open>On valid slices \<^verbatim>\<open>operator==\<close> decides equality of the strings and \<^verbatim>\<open>starts_with\<close> decides
  the prefix relation, without reading out of bounds.\<close>

lemma Slice_eq_starts_with:
  assumes "Slice_valid a" "Slice_valid b"
  shows "Slice_eq a b = Inr (Slice_str a = Slice_str b) \<and>
    Slice_neq a b = Inr (Slice_str a \<noteq> Slice_str b) \<and>
    Slice_starts_with a b = Inr (prefix (Slice_str b) (Slice_str a))"
proof (intro conjI)
  show eq: "Slice_eq a b = Inr (Slice_str a = Slice_str b)"
  proof (cases "slice_size a = slice_size b")
    case True
    with assms show ?thesis by (simp add: Slice_eq_def Slice_memcmp memcmp_bytes_eq_0)
  next
    case False
    with assms have "Slice_str a \<noteq> Slice_str b" by (metis length_Slice_str)
    with False show ?thesis by (simp add: Slice_eq_def)
  qed
  then show "Slice_neq a b = Inr (Slice_str a \<noteq> Slice_str b)"
    by (simp add: Slice_neq_def)
  show "Slice_starts_with a b = Inr (prefix (Slice_str b) (Slice_str a))"
  proof (cases "slice_size b \<le> slice_size a")
    case True
    with assms show ?thesis
      by (simp add: Slice_starts_with_def Slice_memcmp memcmp_bytes_eq_0)
        (metis length_Slice_str append_eq_conv_conj append_take_drop_id prefix_def take_all_iff order_refl)
  next
    case False
    with assms have "\<not> prefix (Slice_str b) (Slice_str a)"
      by (metis length_Slice_str prefix_length_le)
    with False show ?thesis by (simp add: Slice_starts_with_def)
  qed
qed

section \<open>Dropping a prefix, indexing, copying out\<close>

lemma Slice_remove_prefix_ok:
  assumes "Slice_valid s" "n \<le> slice_size s"
  shows "okR (Slice_remove_prefix n s) (\<lambda>s'. Slice_valid s' \<and> Slice_str s' = drop n (Slice_str s))"
  using assms
  by (auto simp: Slice_remove_prefix_def Slice_valid_def Slice_str_def drop_take)

lemma Slice_index_ok:
  "Slice_valid s \<Longrightarrow> n < slice_size s \<Longrightarrow> Slice_index s n = Inr (Slice_str s ! n)"
  by (simp add: Slice_index_def Slice_valid_def Slice_str_def)

lemma Slice_ToString_ok: "Slice_valid s \<Longrightarrow> Slice_ToString s = Inr (Slice_str s)"
  by (simp add: Slice_ToString_def Slice_valid_def Slice_str_def)

lemma Slice_string_str [simp]: "Slice_str (Slice_string s) = s"
  by (simp add: Slice_str_def Slice_string_def)

lemma Slice_string_valid [simp]: "length s \<le> max_size \<Longrightarrow> Slice_valid (Slice_string s)"
  by (simp add: Slice_valid_def Slice_string_def)

lemma strlen_ok: "CHR 0x00 \<notin> set s \<Longrightarrow> strlen (s @ CHR 0x00 # rest) = Inr (length s)"
  by (induction s) auto

lemma Slice_cstr_str:
  "CHR 0x00 \<notin> set s \<Longrightarrow> okR (Slice_cstr (s @ CHR 0x00 # rest)) (\<lambda>c. Slice_str c = s)"
  by (simp add: Slice_cstr_def strlen_ok Slice_str_def)

lemma Slice_clear_str [simp]: "Slice_str (Slice_clear s) = []" "Slice_valid (Slice_clear s)"
  by (simp_all add: Slice_clear_def Slice_str_def Slice_valid_def)

end
