(* ===== verification/Buffers.thy ===== *)
theory Buffers
  imports Slices
begin

text \<open>
  The two buffers of util/buffer.h and util/buffer.cc. \<open>FixedBuffer\<close> is the array with a cursor the
  log uses; \<open>Buffer\<close> is the growing send and receive buffer of a TCP connection, a vector with a
  reader and a writer index. Indices and sizes are \<^verbatim>\<open>size_t\<close> values with their wrap-around; a copy
  past the end of the storage is the error \<open>Out_of_bounds\<close>. Both buffers are shown to be byte
  sinks, and \<open>Buffer\<close> to be a byte queue whose assertions never fail on a well-formed state.
\<close>

section \<open>\<open>FixedBuffer\<close>\<close>

definition kSmallBufferSize :: nat where
  "kSmallBufferSize = 4096"

text \<open>The template parameter \<open>N\<close> is the length of the array; the cursor \<^verbatim>\<open>cur_\<close> is the offset
  from \<^verbatim>\<open>data_\<close>.\<close>

record FixedBuffer =
  fb_data :: "char list"
  fb_cur :: nat

definition FixedBuffer_new :: "nat \<Rightarrow> FixedBuffer" where
  "FixedBuffer_new N = \<lparr>fb_data = replicate N (CHR 0x00), fb_cur = 0\<rparr>"

definition FixedBuffer_size :: "FixedBuffer \<Rightarrow> nat" where
  "FixedBuffer_size b = fb_cur b"

definition FixedBuffer_space :: "FixedBuffer \<Rightarrow> nat" where
  "FixedBuffer_space b = sz_sub (length (fb_data b)) (fb_cur b)"

definition FixedBuffer_slice :: "FixedBuffer \<Rightarrow> Slice" where
  "FixedBuffer_slice b = Slice_ptr (fb_data b) (FixedBuffer_size b)"

definition FixedBuffer_bzero :: "FixedBuffer \<Rightarrow> FixedBuffer" where
  "FixedBuffer_bzero b = b\<lparr>fb_data := replicate (length (fb_data b)) (CHR 0x00)\<rparr>"

definition FixedBuffer_reset :: "FixedBuffer \<Rightarrow> FixedBuffer" where
  "FixedBuffer_reset b = b\<lparr>fb_cur := 0\<rparr>"

definition FixedBuffer_append :: "Slice \<Rightarrow> FixedBuffer \<Rightarrow> FixedBuffer result" where
  "FixedBuffer_append s b =
     assertR (slice_size s \<le> FixedBuffer_space b)
       (boundsR (slice_size s \<le> length (slice_data s) \<and>
                 fb_cur b + slice_size s \<le> length (fb_data b))
         (Inr (b\<lparr>fb_data := std_copy (take (slice_size s) (slice_data s)) (fb_data b) (fb_cur b),
                 fb_cur := fb_cur b + slice_size s\<rparr>)))"

definition FixedBuffer_inv :: "FixedBuffer \<Rightarrow> bool" where
  "FixedBuffer_inv b \<longleftrightarrow> fb_cur b \<le> length (fb_data b) \<and> length (fb_data b) \<le> max_size"

definition FixedBuffer_content :: "FixedBuffer \<Rightarrow> char list" where
  "FixedBuffer_content b = take (fb_cur b) (fb_data b)"

section \<open>\<open>Buffer\<close>\<close>

definition kCheapPrepend :: nat where
  "kCheapPrepend = 8"

definition kInitialSize :: nat where
  "kInitialSize = 1024"

record Buffer =
  buffer :: "char list"
  readerIndex :: nat
  writerIndex :: nat

definition readableBytes :: "Buffer \<Rightarrow> nat" where
  "readableBytes b = sz_sub (writerIndex b) (readerIndex b)"

definition writableBytes :: "Buffer \<Rightarrow> nat" where
  "writableBytes b = sz_sub (length (buffer b)) (writerIndex b)"

definition prependableBytes :: "Buffer \<Rightarrow> nat" where
  "prependableBytes b = readerIndex b"

definition Buffer_new :: "nat \<Rightarrow> Buffer result" where
  "Buffer_new initialSize =
     bindR (vector_resize (sz_add kCheapPrepend initialSize) []) (\<lambda>v.
       let b = \<lparr>buffer = v, readerIndex = kCheapPrepend, writerIndex = kCheapPrepend\<rparr>
       in assertR (readableBytes b = 0)
            (assertR (writableBytes b = initialSize)
              (assertR (prependableBytes b = kCheapPrepend) (Inr b))))"

definition Buffer_swap :: "Buffer \<Rightarrow> Buffer \<Rightarrow> Buffer \<times> Buffer" where
  "Buffer_swap b rhs =
     (b\<lparr>buffer := buffer rhs, readerIndex := readerIndex rhs, writerIndex := writerIndex rhs\<rparr>,
      rhs\<lparr>buffer := buffer b, readerIndex := readerIndex b, writerIndex := writerIndex b\<rparr>)"

text \<open>\<^verbatim>\<open>peek()\<close> is a pointer into the storage: the memory readable from it on.\<close>

definition Buffer_peek :: "Buffer \<Rightarrow> char list" where
  "Buffer_peek b = drop (readerIndex b) (buffer b)"

definition Buffer_retrieveAll :: "Buffer \<Rightarrow> Buffer" where
  "Buffer_retrieveAll b = b\<lparr>readerIndex := kCheapPrepend, writerIndex := kCheapPrepend\<rparr>"

definition Buffer_retrieve :: "nat \<Rightarrow> Buffer \<Rightarrow> Buffer result" where
  "Buffer_retrieve len b =
     assertR (len \<le> readableBytes b)
       (Inr (if len < readableBytes b then b\<lparr>readerIndex := sz_add (readerIndex b) len\<rparr>
             else Buffer_retrieveAll b))"

definition Buffer_makeSpace :: "nat \<Rightarrow> Buffer \<Rightarrow> Buffer result" where
  "Buffer_makeSpace len b =
     (if sz_add (writableBytes b) (prependableBytes b) < sz_add len kCheapPrepend
      then bindR (vector_resize (sz_add (writerIndex b) len) (buffer b))
             (\<lambda>v. Inr (b\<lparr>buffer := v\<rparr>))
      else assertR (kCheapPrepend < readerIndex b)
             (let readable = readableBytes b;
                  b' = b\<lparr>buffer := copy_within readable (readerIndex b) kCheapPrepend (buffer b),
                         readerIndex := kCheapPrepend,
                         writerIndex := sz_add kCheapPrepend readable\<rparr>
              in boundsR (readerIndex b + readable \<le> length (buffer b))
                   (assertR (readable = readableBytes b') (Inr b'))))"

definition Buffer_append :: "char list \<Rightarrow> Buffer \<Rightarrow> Buffer result" where
  "Buffer_append data b =
     bindR (if writableBytes b < length data then Buffer_makeSpace (length data) b else Inr b) (\<lambda>b.
       assertR (length data \<le> writableBytes b)
         (boundsR (writerIndex b + length data \<le> length (buffer b))
           (Inr (b\<lparr>buffer := std_copy data (buffer b) (writerIndex b),
                   writerIndex := sz_add (writerIndex b) (length data)\<rparr>))))"

definition Buffer_prepend :: "char list \<Rightarrow> Buffer \<Rightarrow> Buffer result" where
  "Buffer_prepend data b =
     assertR (length data \<le> prependableBytes b)
       (let r = sz_sub (readerIndex b) (length data)
        in boundsR (r + length data \<le> length (buffer b))
             (Inr (b\<lparr>readerIndex := r, buffer := std_copy data (buffer b) r\<rparr>)))"

text \<open>
  \<^verbatim>\<open>readv(2)\<close> is a parameter: given the lengths of the two ranges it returns an error number or the
  bytes it stored, first into the range after the writer index and then into \<^verbatim>\<open>extrabuf\<close>. The
  result pairs the return value with the saved error number.
\<close>

type_synonym readv = "nat list \<Rightarrow> int + char list"

definition readv_ok :: "readv \<Rightarrow> bool" where
  "readv_ok rv \<longleftrightarrow> (\<forall>lens bs. rv lens = Inr bs \<longrightarrow> length bs \<le> sum_list lens)"

definition extrabuf_size :: nat where
  "extrabuf_size = 65536"

definition readFd_iov :: "Buffer \<Rightarrow> nat list" where
  "readFd_iov b =
     (if writableBytes b < extrabuf_size then [writableBytes b, extrabuf_size] else [writableBytes b])"

definition Buffer_readFd ::
  "readv \<Rightarrow> int option \<Rightarrow> Buffer \<Rightarrow> (int \<times> int option \<times> Buffer) result" where
  "Buffer_readFd rv savedErrno b =
     (let writable = writableBytes b
      in case rv (readFd_iov b) of
           Inl errno \<Rightarrow> Inr (- 1, map_option (\<lambda>_. errno) savedErrno, b)
         | Inr bs \<Rightarrow>
             (let n = length bs;
                  b' = b\<lparr>buffer := std_copy (take writable bs) (buffer b) (writerIndex b)\<rparr>;
                  extrabuf = drop writable bs
              in boundsR (writerIndex b + min n writable \<le> length (buffer b))
                   (if n \<le> writable
                    then Inr (int n, savedErrno, b'\<lparr>writerIndex := sz_add (writerIndex b) n\<rparr>)
                    else bindR (Buffer_append (take (n - writable) extrabuf)
                                  (b'\<lparr>writerIndex := length (buffer b')\<rparr>))
                           (\<lambda>b''. Inr (int n, savedErrno, b'')))))"

definition Buffer_inv :: "Buffer \<Rightarrow> bool" where
  "Buffer_inv b \<longleftrightarrow>
     readerIndex b \<le> writerIndex b \<and> writerIndex b \<le> length (buffer b) \<and>
     kCheapPrepend \<le> length (buffer b) \<and> length (buffer b) \<le> max_size"

definition Buffer_content :: "Buffer \<Rightarrow> char list" where
  "Buffer_content b = take (writerIndex b - readerIndex b) (drop (readerIndex b) (buffer b))"

definition Buffer_fits :: "char list \<Rightarrow> Buffer \<Rightarrow> bool" where
  "Buffer_fits data b \<longleftrightarrow> writerIndex b + length data \<le> max_size"

section \<open>\<open>FixedBuffer\<close> is a byte sink\<close>

lemma FixedBuffer_append_safe:
  assumes "FixedBuffer_inv b" "FixedBuffer_append s b = Inr b'"
  shows "FixedBuffer_inv b' \<and> length (fb_data b') = length (fb_data b) \<and>
    FixedBuffer_content b' = FixedBuffer_content b @ Slice_str s"
  using assms
  by (auto simp: FixedBuffer_append_def FixedBuffer_inv_def FixedBuffer_content_def Slice_str_def
      std_copy_eq result_simps)

lemma FixedBuffer_append_total:
  assumes "FixedBuffer_inv b" "Slice_valid s" "fb_cur b + slice_size s \<le> length (fb_data b)"
  shows "\<exists>b'. FixedBuffer_append s b = Inr b'"
  using assms
  by (auto simp: FixedBuffer_append_def FixedBuffer_space_def FixedBuffer_inv_def Slice_valid_def
      assertR_def)

lemma FixedBuffer_append_full:
  assumes "FixedBuffer_inv b" "length (fb_data b) < fb_cur b + slice_size s"
  shows "FixedBuffer_append s b = Inl Assertion_failed"
  using assms by (auto simp: FixedBuffer_append_def FixedBuffer_space_def FixedBuffer_inv_def assertR_def)

interpretation fixed_buffer: byte_sink FixedBuffer_inv FixedBuffer_content
  "\<lambda>d. FixedBuffer_append (Slice_string d)"
  "\<lambda>d b. fb_cur b + length d \<le> length (fb_data b)"
proof unfold_locales
  fix b d b'
  assume "FixedBuffer_inv b" "FixedBuffer_append (Slice_string d) b = Inr b'"
  then show "FixedBuffer_inv b' \<and> FixedBuffer_content b' = FixedBuffer_content b @ d"
    using FixedBuffer_append_safe by fastforce
next
  fix b and d :: "char list"
  assume "FixedBuffer_inv b" "fb_cur b + length d \<le> length (fb_data b)"
  then show "\<exists>b'. FixedBuffer_append (Slice_string d) b = Inr b'"
    by (intro FixedBuffer_append_total) (auto simp: Slice_string_def Slice_valid_def FixedBuffer_inv_def)
qed

lemma FixedBuffer_new_inv [simp]:
  "N \<le> max_size \<Longrightarrow> FixedBuffer_inv (FixedBuffer_new N)"
  "FixedBuffer_content (FixedBuffer_new N) = []"
  by (simp_all add: FixedBuffer_new_def FixedBuffer_inv_def FixedBuffer_content_def)

lemma FixedBuffer_reset_inv [simp]:
  "FixedBuffer_inv b \<Longrightarrow> FixedBuffer_inv (FixedBuffer_reset b)"
  "FixedBuffer_content (FixedBuffer_reset b) = []"
  by (simp_all add: FixedBuffer_reset_def FixedBuffer_inv_def FixedBuffer_content_def)

lemma FixedBuffer_slice_str [simp]:
  "FixedBuffer_inv b \<Longrightarrow> Slice_str (FixedBuffer_slice b) = FixedBuffer_content b"
  "FixedBuffer_inv b \<Longrightarrow> Slice_valid (FixedBuffer_slice b)"
  by (simp_all add: FixedBuffer_slice_def Slice_ptr_def Slice_str_def FixedBuffer_size_def
      FixedBuffer_content_def Slice_valid_def FixedBuffer_inv_def)

section \<open>\<open>Buffer\<close> is a byte queue\<close>

lemma kCheapPrepend_le [simp]: "kCheapPrepend \<le> max_size"
  by (simp add: kCheapPrepend_def max_size_def)

lemma Buffer_sizes:
  assumes "Buffer_inv b"
  shows "readableBytes b = writerIndex b - readerIndex b"
    and "writableBytes b = length (buffer b) - writerIndex b"
    and "prependableBytes b = readerIndex b"
  using assms
  by (simp_all add: Buffer_inv_def readableBytes_def writableBytes_def prependableBytes_def)

lemma length_Buffer_content:
  "Buffer_inv b \<Longrightarrow> length (Buffer_content b) = readableBytes b"
  by (simp add: Buffer_sizes) (auto simp: Buffer_content_def Buffer_inv_def)

lemma Buffer_makeSpace_ok:
  assumes inv: "Buffer_inv b" and need: "writableBytes b < len" and fits: "writerIndex b + len \<le> max_size"
  shows "okR (Buffer_makeSpace len b) (\<lambda>b'. Buffer_inv b' \<and> Buffer_content b' = Buffer_content b \<and>
    writerIndex b' + len \<le> length (buffer b') \<and>
    length (buffer b') = (if len + kCheapPrepend \<le> writableBytes b + readerIndex b
      then length (buffer b) else writerIndex b + len))"
proof -
  let ?r = "readerIndex b" and ?w = "writerIndex b" and ?L = "length (buffer b)"
  have b: "?r \<le> ?w" "?w \<le> ?L" "kCheapPrepend \<le> ?L" "?L \<le> max_size"
    using inv by (simp_all add: Buffer_inv_def)
  have need': "?L - ?w < len" using need by (simp add: Buffer_sizes [OF inv])
  have sum: "sz_add (writableBytes b) (prependableBytes b) = ?L - ?w + ?r"
    using b by (simp add: Buffer_sizes [OF inv])
  have len: "sz_add len kCheapPrepend = len + kCheapPrepend" "sz_add ?w len = ?w + len"
    using fits by simp_all
  show ?thesis
  proof (cases "?L - ?w + ?r < len + kCheapPrepend")
    case True
    then have "Buffer_makeSpace len b =
        Inr (b\<lparr>buffer := buffer b @ replicate (?w + len - ?L) (CHR 0x00)\<rparr>)"
      using fits need' b by (simp add: Buffer_makeSpace_def sum len vector_resize_def)
    then show ?thesis
      using True fits need' b
      by (auto simp: Buffer_inv_def Buffer_content_def Buffer_sizes [OF inv])
  next
    case False
    then have r: "kCheapPrepend < ?r" using need' by simp
    let ?b = "b\<lparr>buffer := copy_within (?w - ?r) ?r kCheapPrepend (buffer b),
                readerIndex := kCheapPrepend, writerIndex := kCheapPrepend + (?w - ?r)\<rparr>"
    have inv': "Buffer_inv ?b" using b r by (auto simp: Buffer_inv_def)
    have "sz_add kCheapPrepend (?w - ?r) = kCheapPrepend + (?w - ?r)"
      using b by (intro sz_add_small max_size_add_less) auto
    then have "Buffer_makeSpace len b = Inr ?b"
      using False b r Buffer_sizes(1) [OF inv'] Buffer_sizes(1) [OF inv]
      by (simp add: Buffer_makeSpace_def sum len Let_def)
    moreover have "Buffer_content ?b = Buffer_content b"
      using b r by (simp add: Buffer_content_def copy_within_eq)
    ultimately show ?thesis
      using False b r inv' need' by (simp add: Buffer_sizes [OF inv])
  qed
qed

lemma Buffer_copy_in:
  assumes "Buffer_inv b" "writerIndex b + length data \<le> length (buffer b)"
  shows "Buffer_inv (b\<lparr>buffer := std_copy data (buffer b) (writerIndex b),
      writerIndex := writerIndex b + length data\<rparr>)"
    and "Buffer_content (b\<lparr>buffer := std_copy data (buffer b) (writerIndex b),
      writerIndex := writerIndex b + length data\<rparr>) = Buffer_content b @ data"
proof -
  let ?r = "readerIndex b" and ?w = "writerIndex b"
  show "Buffer_inv (b\<lparr>buffer := std_copy data (buffer b) ?w, writerIndex := ?w + length data\<rparr>)"
    using assms by (simp add: Buffer_inv_def)
  have "drop ?r (std_copy data (buffer b) ?w) =
      Buffer_content b @ data @ drop (?w + length data) (buffer b)"
    using assms by (simp add: std_copy_eq Buffer_content_def Buffer_inv_def drop_take)
  moreover have "length (Buffer_content b) = ?w - ?r"
    using assms by (simp add: Buffer_content_def Buffer_inv_def)
  ultimately show "Buffer_content (b\<lparr>buffer := std_copy data (buffer b) ?w,
      writerIndex := ?w + length data\<rparr>) = Buffer_content b @ data"
    using assms by (simp add: Buffer_content_def [of "b\<lparr>buffer := _, writerIndex := _\<rparr>"] Buffer_inv_def)
qed

lemma Buffer_makeSpace_safe:
  assumes inv: "Buffer_inv b" and need: "writableBytes b < len"
    and ms: "Buffer_makeSpace len b = Inr b'" and room: "writerIndex b' + len \<le> length (buffer b')"
  shows "Buffer_inv b' \<and> Buffer_content b' = Buffer_content b"
proof -
  let ?r = "readerIndex b" and ?w = "writerIndex b" and ?L = "length (buffer b)"
  have b: "?r \<le> ?w" "?w \<le> ?L" "kCheapPrepend \<le> ?L" "?L \<le> max_size"
    using inv by (simp_all add: Buffer_inv_def)
  show ?thesis
  proof (cases "sz_add (writableBytes b) (prependableBytes b) < sz_add len kCheapPrepend")
    case True
    define n where "n = sz_add ?w len"
    from True have n: "n \<le> max_size"
        "b' = b\<lparr>buffer := take n (buffer b) @ replicate (n - ?L) (CHR 0x00)\<rparr>"
      using ms by (auto simp: Buffer_makeSpace_def vector_resize_def n_def split: if_splits)
    with room have "?w + len \<le> n" by simp
    with need b have "?L \<le> n" by (simp add: Buffer_sizes [OF inv])
    with n b show ?thesis by (auto simp: Buffer_inv_def Buffer_content_def)
  next
    case False
    then have r: "kCheapPrepend < ?r" and b': "b' =
        b\<lparr>buffer := copy_within (?w - ?r) ?r kCheapPrepend (buffer b),
          readerIndex := kCheapPrepend, writerIndex := kCheapPrepend + (?w - ?r)\<rparr>"
      using ms b
      by (auto simp: Buffer_makeSpace_def Let_def result_simps Buffer_sizes(1) [OF inv])
    then show ?thesis
      using b by (auto simp: Buffer_inv_def Buffer_content_def copy_within_eq)
  qed
qed

lemma Buffer_append_safe:
  assumes inv: "Buffer_inv b" and app: "Buffer_append data b = Inr b'"
  shows "Buffer_inv b' \<and> Buffer_content b' = Buffer_content b @ data"
proof -
  obtain c where c: "(if writableBytes b < length data then Buffer_makeSpace (length data) b else Inr b) = Inr c"
    and room: "writerIndex c + length data \<le> length (buffer c)"
    and b': "b' = c\<lparr>buffer := std_copy data (buffer c) (writerIndex c),
                    writerIndex := sz_add (writerIndex c) (length data)\<rparr>"
    using app by (auto simp: Buffer_append_def result_simps)
  have "Buffer_inv c \<and> Buffer_content c = Buffer_content b"
    using c room inv Buffer_makeSpace_safe [OF inv, of "length data" c] by (auto split: if_splits)
  moreover from this have "sz_add (writerIndex c) (length data) = writerIndex c + length data"
    using room by (simp add: Buffer_inv_def)
  ultimately show ?thesis using Buffer_copy_in [of c data] room b' by simp
qed

lemma Buffer_append_ok:
  assumes inv: "Buffer_inv b" and fits: "Buffer_fits data b"
  shows "okR (Buffer_append data b) (\<lambda>b'. Buffer_inv b' \<and> Buffer_content b' = Buffer_content b @ data \<and>
    length (buffer b') =
      (if length data \<le> writableBytes b \<or> length data + kCheapPrepend \<le> writableBytes b + prependableBytes b
       then length (buffer b) else writerIndex b + length data))"
proof -
  let ?m = "if writableBytes b < length data then Buffer_makeSpace (length data) b else Inr b"
  have "okR ?m (\<lambda>c. Buffer_inv c \<and> writerIndex c + length data \<le> length (buffer c) \<and>
    length (buffer c) =
      (if length data \<le> writableBytes b \<or> length data + kCheapPrepend \<le> writableBytes b + prependableBytes b
       then length (buffer b) else writerIndex b + length data))"
  proof (cases "writableBytes b < length data")
    case True
    with Buffer_makeSpace_ok [OF inv True] fits show ?thesis
      by (auto simp: Buffer_fits_def prependableBytes_def elim!: okR_mono)
  next
    case False
    with inv show ?thesis by (auto simp: Buffer_sizes [OF inv]) (auto simp: Buffer_inv_def)
  qed
  then have "okR (Buffer_append data b) (\<lambda>b'. length (buffer b') =
      (if length data \<le> writableBytes b \<or> length data + kCheapPrepend \<le> writableBytes b + prependableBytes b
       then length (buffer b) else writerIndex b + length data))"
    unfolding Buffer_append_def okR_bindR
    by (rule okR_mono) (auto simp: wp_simps Buffer_sizes)
  then show ?thesis
    using Buffer_append_safe [OF inv] by (auto simp: okR_def)
qed

lemma Buffer_makeSpace_fail:
  assumes inv: "Buffer_inv b" and need: "writableBytes b < len" and len: "len \<le> max_size"
  shows "failR {Length_error} (Buffer_makeSpace len b) (\<lambda>b'. writerIndex b' + len \<le> length (buffer b'))"
proof -
  let ?r = "readerIndex b" and ?w = "writerIndex b" and ?L = "length (buffer b)"
  have b: "?r \<le> ?w" "?w \<le> ?L" "kCheapPrepend \<le> ?L" "?L \<le> max_size"
    using inv by (simp_all add: Buffer_inv_def)
  have need': "?L - ?w < len" using need by (simp add: Buffer_sizes [OF inv])
  have sz: "sz_add (writableBytes b) (prependableBytes b) = ?L - ?w + ?r" "sz_add len kCheapPrepend = len + kCheapPrepend"
      "sz_add ?w len = ?w + len"
    using b len by (simp_all add: Buffer_sizes [OF inv])
  have sz': "sz_add kCheapPrepend (?w - ?r) = kCheapPrepend + (?w - ?r)"
    using b by (intro sz_add_small max_size_add_less) auto
  show ?thesis
  proof (cases "?L - ?w + ?r < len + kCheapPrepend")
    case True
    then show ?thesis using b need' by (simp add: Buffer_makeSpace_def sz vector_resize_def)
  next
    case False
    let ?b = "b\<lparr>buffer := copy_within (?w - ?r) ?r kCheapPrepend (buffer b),
                readerIndex := kCheapPrepend, writerIndex := kCheapPrepend + (?w - ?r)\<rparr>"
    have r: "kCheapPrepend < ?r" using False need' by simp
    then have "readableBytes ?b = ?w - ?r" using b by (subst Buffer_sizes) (auto simp: Buffer_inv_def)
    then have "Buffer_makeSpace len b = Inr ?b"
      using False b r by (simp add: Buffer_makeSpace_def sz sz' Let_def Buffer_sizes(1) [OF inv])
    then show ?thesis using False r b by simp
  qed
qed

text \<open>Appending fails only for lack of room, with \<^verbatim>\<open>std::length_error\<close>.\<close>

lemma Buffer_append_fail:
  assumes inv: "Buffer_inv b" and len: "length data \<le> max_size"
  shows "failR (if Buffer_fits data b then {} else {Length_error}) (Buffer_append data b)
    (\<lambda>b'. Buffer_inv b' \<and> Buffer_content b' = Buffer_content b @ data)"
proof (cases "Buffer_fits data b")
  case True
  with Buffer_append_ok [OF inv True] show ?thesis by (auto simp flip: okR_failR elim!: okR_mono)
next
  case False
  have "failR {Length_error} (if writableBytes b < length data then Buffer_makeSpace (length data) b else Inr b)
      (\<lambda>c. Buffer_inv c \<and> writerIndex c + length data \<le> length (buffer c))"
  proof (cases "writableBytes b < length data")
    case True
    with Buffer_makeSpace_fail [OF inv True len] Buffer_makeSpace_safe [OF inv True] show ?thesis
      by (cases "Buffer_makeSpace (length data) b") auto
  next
    case False
    with inv Buffer_sizes(2) [OF inv] show ?thesis by (auto simp: Buffer_inv_def)
  qed
  then have "failR {Length_error} (Buffer_append data b) (\<lambda>_. True)"
    unfolding Buffer_append_def failR_bindR by (rule failR_mono) (auto simp: Buffer_sizes wp_simps)
  then show ?thesis using False Buffer_append_safe [OF inv] by (cases "Buffer_append data b") auto
qed

text \<open>The storage grows by at most what is appended.\<close>

lemma Buffer_append_size:
  assumes "Buffer_inv b"
  shows "safeR (Buffer_append data b) (\<lambda>b'. length (buffer b') \<le> length (buffer b) + length data)"
proof -
  have "sz_add (writerIndex b) n \<le> length (buffer b) + n" for n
    using assms by (auto simp: sz_add_def Buffer_inv_def intro: order_trans [OF mod_less_eq_dividend])
  then have "min (length (buffer b)) (sz_add (writerIndex b) n) + (sz_add (writerIndex b) n - length (buffer b)) \<le>
      length (buffer b) + n" for n
    by (simp add: min_def)
  moreover have "length (copy_within n i j (buffer b)) = length (buffer b)" if "i + n \<le> length (buffer b)" "j \<le> i" for n i j
    using that by (simp add: copy_within_eq)
  ultimately have "safeR (Buffer_makeSpace n b) (\<lambda>c. length (buffer c) \<le> length (buffer b) + n)" for n
    by (auto simp: Buffer_makeSpace_def vector_resize_def Let_def wp_simps trans_le_add1)
  from this [of "length data"] show ?thesis
    unfolding Buffer_append_def by (auto simp: wp_simps elim!: safeR_mono)
qed

lemma Buffer_retrieve_size: "Buffer_retrieve len b = Inr b' \<Longrightarrow> length (buffer b') = length (buffer b)"
  by (auto simp: Buffer_retrieve_def Buffer_retrieveAll_def result_simps)

text \<open>\<^verbatim>\<open>peek()\<close> and \<^verbatim>\<open>readableBytes()\<close> together give the content.\<close>

lemma take_peek: "take (readableBytes b) (Buffer_peek b) = Buffer_content b" if "Buffer_inv b"
  using that by (simp add: Buffer_sizes Buffer_content_def Buffer_peek_def)

lemma Buffer_content_le: "Buffer_inv b \<Longrightarrow> length (Buffer_content b) \<le> max_size"
  by (auto simp: Buffer_inv_def Buffer_content_def)

lemma Buffer_retrieve_ok:
  assumes "Buffer_inv b" "len \<le> length (Buffer_content b)"
  shows "\<exists>b'. Buffer_retrieve len b = Inr b' \<and> Buffer_inv b' \<and> Buffer_content b' = drop len (Buffer_content b)"
proof (cases "len < writerIndex b - readerIndex b")
  case True
  with assms have "sz_add (readerIndex b) len = readerIndex b + len"
    by (intro sz_add_small max_size_add_less) (auto simp: Buffer_inv_def)
  with True assms show ?thesis
    by (auto simp: Buffer_retrieve_def Buffer_sizes Buffer_inv_def Buffer_content_def drop_take
        add.commute)
next
  case False
  with assms show ?thesis
    by (auto simp: Buffer_retrieve_def Buffer_sizes length_Buffer_content Buffer_inv_def
        Buffer_retrieveAll_def Buffer_content_def)
qed

interpretation buffer: byte_queue Buffer_inv Buffer_content Buffer_append Buffer_fits Buffer_retrieve
proof unfold_locales
  show "\<exists>b'. Buffer_append d b = Inr b'" if "Buffer_inv b" "Buffer_fits d b" for b d
    using Buffer_append_ok [OF that] by (auto simp: okR_def)
  show "Buffer_retrieve n b = Inl Assertion_failed"
    if "Buffer_inv b" "length (Buffer_content b) < n" for b n
    using that by (simp add: Buffer_retrieve_def length_Buffer_content assertR_def)
qed (use Buffer_append_safe Buffer_retrieve_ok in auto)

lemma Buffer_new_ok:
  assumes "n + kCheapPrepend \<le> max_size"
  shows "okR (Buffer_new n) (\<lambda>b. Buffer_inv b \<and> Buffer_content b = [] \<and> writableBytes b = n \<and>
    prependableBytes b = kCheapPrepend)"
proof -
  let ?b = "\<lparr>buffer = replicate (kCheapPrepend + n) (CHR 0x00), readerIndex = kCheapPrepend,
             writerIndex = kCheapPrepend\<rparr>"
  have inv: "Buffer_inv ?b" using assms by (simp add: Buffer_inv_def)
  have "sz_add kCheapPrepend n = kCheapPrepend + n" using assms by simp
  then show ?thesis
    using assms Buffer_sizes [OF inv] inv
    by (simp add: Buffer_new_def vector_resize_def Let_def) (simp add: Buffer_content_def)
qed

text \<open>A buffer as a connection gets it.\<close>

definition fresh_buffer :: "Buffer \<Rightarrow> bool" where
  "fresh_buffer b \<longleftrightarrow> Buffer_inv b \<and> Buffer_content b = [] \<and> writerIndex b = kCheapPrepend \<and>
     length (buffer b) = kCheapPrepend + kInitialSize"

lemma Buffer_new_fresh: "okR (Buffer_new kInitialSize) fresh_buffer"
proof -
  have "okR (Buffer_new kInitialSize) (\<lambda>b. Buffer_inv b \<and> Buffer_content b = [] \<and> writableBytes b = kInitialSize)"
    by (rule okR_mono [OF Buffer_new_ok]) (simp_all add: kInitialSize_def kCheapPrepend_def max_size_def)
  moreover have "safeR (Buffer_new kInitialSize) (\<lambda>b. writerIndex b = kCheapPrepend)"
    by (auto simp: safeR_def Buffer_new_def Let_def result_simps)
  ultimately show ?thesis
    by (cases "Buffer_new kInitialSize") (auto simp: fresh_buffer_def Buffer_sizes Buffer_inv_def)
qed

lemma Buffer_prepend_ok:
  assumes "Buffer_inv b" "length data \<le> prependableBytes b"
  shows "okR (Buffer_prepend data b) (\<lambda>b'. Buffer_inv b' \<and> Buffer_content b' = data @ Buffer_content b)"
proof -
  let ?r = "readerIndex b - length data"
  have b: "length data \<le> readerIndex b" "readerIndex b \<le> writerIndex b"
      "writerIndex b \<le> length (buffer b)" "length (buffer b) \<le> max_size"
    using assms by (simp_all add: Buffer_inv_def prependableBytes_def)
  then have "Buffer_prepend data b = Inr (b\<lparr>readerIndex := ?r, buffer := std_copy data (buffer b) ?r\<rparr>)"
    using assms(2) by (simp add: Buffer_prepend_def Let_def)
  moreover have "drop ?r (std_copy data (buffer b) ?r) = data @ drop (readerIndex b) (buffer b)"
    using b by (simp add: std_copy_eq)
  ultimately show ?thesis
    using b assms(1) by (auto simp: Buffer_inv_def Buffer_content_def)
qed

lemma Buffer_prepend_guard:
  "prependableBytes b < length data \<Longrightarrow> Buffer_prepend data b = Inl Assertion_failed"
  by (simp add: Buffer_prepend_def assertR_def)

section \<open>Properties\<close>

text \<open>C22: appending to a well-formed buffer succeeds whenever the storage may grow to hold the data:
  no assertion fails and nothing is copied out of bounds, the readable bytes become the old ones
  followed by the data, and the storage is enlarged only when the free space behind the writer and
  in front of the reader (less the reserved prefix) together cannot take the data.\<close>

theorem Buffer_append_correct:
  assumes "Buffer_inv b" and "Buffer_fits data b"
  shows "okR (Buffer_append data b) (\<lambda>b'. Buffer_inv b' \<and> Buffer_content b' = Buffer_content b @ data \<and>
    length (buffer b') =
      (if length data \<le> writableBytes b \<or> length data + kCheapPrepend \<le> writableBytes b + prependableBytes b
       then length (buffer b) else writerIndex b + length data))"
  using assms by (rule Buffer_append_ok)

theorem Buffer_append_correct_witness:
  "\<exists>b. Buffer_inv b \<and> Buffer_fits ''wxyz'' b \<and> writableBytes b = 2 \<and>
     okR (Buffer_append ''wxyz'' b) (\<lambda>b'. Buffer_content b' = ''bcwxyz'' \<and> length (buffer b') = 16)"
proof -
  define b where "b = \<lparr>buffer = replicate 12 (CHR ''a'') @ ''bczz'', readerIndex = 12, writerIndex = 14\<rparr>"
  have b: "Buffer_inv b" "Buffer_fits ''wxyz'' b"
    by (simp_all add: b_def Buffer_inv_def Buffer_fits_def kCheapPrepend_def max_size_def)
  have c: "writableBytes b = 2" "prependableBytes b = 12" "Buffer_content b = ''bc''" "length (buffer b) = 16"
    using Buffer_sizes [OF b(1)] by (simp_all add: b_def Buffer_content_def)
  have "okR (Buffer_append ''wxyz'' b) (\<lambda>b'. Buffer_content b' = ''bcwxyz'' \<and> length (buffer b') = 16)"
    using Buffer_append_correct [OF b] by (rule okR_mono) (simp add: c kCheapPrepend_def)
  with b c show ?thesis by blast
qed

text \<open>C23: a buffer is a first-in first-out byte queue: for every sequence of appends and retrieves
  that runs to its end, the bytes retrieved followed by the bytes still readable are the bytes
  readable at the start followed by all bytes appended, in order.\<close>

theorem Buffer_run_fifo:
  assumes "Buffer_inv b"
    and "queue_run Buffer_append Buffer_retrieve Buffer_content ops b = Inr (out, b')"
  shows "Buffer_inv b' \<and> out @ Buffer_content b' = Buffer_content b @ puts ops"
  using assms by (rule buffer.run_fifo)

theorem Buffer_run_fifo_witness:
  "\<exists>b b'. Buffer_inv b \<and>
     queue_run Buffer_append Buffer_retrieve Buffer_content [Put ''abc'', Get 2] b = Inr (''ab'', b') \<and>
     Buffer_content b' = ''c''"
proof -
  define b where "b = \<lparr>buffer = replicate 8 (CHR ''z''), readerIndex = 8, writerIndex = 8\<rparr>"
  have b: "Buffer_inv b" "Buffer_content b = []" "Buffer_fits ''abc'' b"
    by (simp_all add: b_def Buffer_inv_def Buffer_content_def Buffer_fits_def kCheapPrepend_def max_size_def)
  from buffer.add_ok [OF b(1,3)] b(2) obtain c
    where c: "Buffer_append ''abc'' b = Inr c" "Buffer_inv c" "Buffer_content c = ''abc''"
    by (auto simp: okR_def)
  with buffer.remove_ok [of c 2] obtain d where "Buffer_retrieve 2 c = Inr d" by auto
  with c have r: "queue_run Buffer_append Buffer_retrieve Buffer_content [Put ''abc'', Get 2] b = Inr (''ab'', d)"
    by simp
  have "''ab'' @ Buffer_content d = Buffer_content b @ ''abc''"
    using Buffer_run_fifo [OF b(1) r] by simp
  with b r show ?thesis by auto
qed

lemma Buffer_readFd_ok:
  assumes inv: "Buffer_inv b" and fits: "length (buffer b) + extrabuf_size \<le> max_size"
    and rv: "readv_ok rv"
  shows "okR (Buffer_readFd rv savedErrno b) (\<lambda>(n, e, b'). Buffer_inv b' \<and>
    (case rv (readFd_iov b) of
       Inl errno \<Rightarrow> n = -1 \<and> e = map_option (\<lambda>_. errno) savedErrno \<and> b' = b
     | Inr bs \<Rightarrow> n = int (length bs) \<and> e = savedErrno \<and> Buffer_content b' = Buffer_content b @ bs \<and>
         (length (readFd_iov b) = 2 \<longrightarrow> n \<le> 131071)))"
proof (cases "rv (readFd_iov b)")
  case (Inl errno)
  with inv show ?thesis by (simp add: Buffer_readFd_def Let_def)
next
  case (Inr bs)
  let ?w = "writerIndex b" and ?L = "length (buffer b)" and ?wr = "writableBytes b"
  have b: "?w \<le> ?L" "?L \<le> max_size" and wr: "?wr = ?L - ?w"
    using inv by (simp_all add: Buffer_inv_def Buffer_sizes)
  have n: "length bs \<le> sum_list (readFd_iov b)" using rv Inr by (simp add: readv_ok_def)
  then have n2: "length (readFd_iov b) = 2 \<longrightarrow> length bs \<le> 131071"
    and le: "length bs \<le> ?wr + extrabuf_size"
    by (auto simp: readFd_iov_def extrabuf_size_def split: if_splits)
  show ?thesis
  proof (cases "length bs \<le> ?wr")
    case True
    then have room: "?w + length bs \<le> ?L" using b wr by simp
    then have "Buffer_readFd rv savedErrno b = Inr (int (length bs), savedErrno,
        b\<lparr>buffer := std_copy bs (buffer b) ?w, writerIndex := ?w + length bs\<rparr>)"
      using True Inr b wr by (simp add: Buffer_readFd_def Let_def)
    then show ?thesis using Inr n2 Buffer_copy_in [OF inv room] by simp
  next
    case False
    define c where "c = b\<lparr>buffer := std_copy (take ?wr bs) (buffer b) ?w, writerIndex := ?L\<rparr>"
    have "length (take ?wr bs) = ?wr" "?w + ?wr = ?L" using False b wr by simp_all
    then have c: "Buffer_inv c" "Buffer_content c = Buffer_content b @ take ?wr bs"
      using Buffer_copy_in [OF inv, of "take ?wr bs"] by (simp_all add: c_def)
    have "Buffer_fits (drop ?wr bs) c"
      using le fits by (simp add: Buffer_fits_def c_def)
    from Buffer_append_ok [OF c(1) this] c(2)
    have "okR (Buffer_append (drop ?wr bs) c) (\<lambda>b'. Buffer_inv b' \<and> Buffer_content b' = Buffer_content b @ bs)"
      by (auto elim!: okR_mono)
    moreover have "Buffer_readFd rv savedErrno b =
        bindR (Buffer_append (drop ?wr bs) c) (\<lambda>b'. Inr (int (length bs), savedErrno, b'))"
      using False Inr b wr by (simp add: Buffer_readFd_def Let_def c_def min_def)
    ultimately show ?thesis
      using Inr n2 by (auto simp: okR_bindR elim!: okR_mono)
  qed
qed

lemma Buffer_readFd_safe:
  assumes inv: "Buffer_inv b" and r: "Buffer_readFd rv savedErrno b = Inr (n, e, b')"
  shows "Buffer_inv b' \<and> (case rv (readFd_iov b) of Inl errno \<Rightarrow> b' = b
    | Inr bs \<Rightarrow> Buffer_content b' = Buffer_content b @ bs)"
proof (cases "rv (readFd_iov b)")
  case (Inl errno)
  with assms show ?thesis by (simp add: Buffer_readFd_def Let_def)
next
  case (Inr bs)
  let ?w = "writerIndex b" and ?L = "length (buffer b)" and ?wr = "writableBytes b"
  have b: "?w \<le> ?L" "?L \<le> max_size" and wr: "?wr = ?L - ?w"
    using inv by (simp_all add: Buffer_inv_def Buffer_sizes)
  show ?thesis
  proof (cases "length bs \<le> ?wr")
    case True
    then have room: "?w + length bs \<le> ?L" using b wr by simp
    then have "b' = b\<lparr>buffer := std_copy bs (buffer b) ?w, writerIndex := ?w + length bs\<rparr>"
      using r True Inr b wr by (simp add: Buffer_readFd_def Let_def)
    then show ?thesis using Inr Buffer_copy_in [OF inv room] by simp
  next
    case False
    define c where "c = b\<lparr>buffer := std_copy (take ?wr bs) (buffer b) ?w, writerIndex := ?L\<rparr>"
    have "length (take ?wr bs) = ?wr" "?w + ?wr = ?L" using False b wr by simp_all
    then have c: "Buffer_inv c" "Buffer_content c = Buffer_content b @ take ?wr bs"
      using Buffer_copy_in [OF inv, of "take ?wr bs"] by (simp_all add: c_def)
    have "Buffer_append (drop ?wr bs) c = Inr b'"
      using r False Inr b wr by (auto simp: Buffer_readFd_def Let_def c_def min_def result_simps)
    from Buffer_append_safe [OF c(1) this] show ?thesis using Inr c(2) by simp
  qed
qed

text \<open>Reading into an empty buffer leaves storage of at most 131080 bytes, unless it was larger before.\<close>

lemma Buffer_readFd_size:
  assumes inv: "Buffer_inv b" and w: "writerIndex b = kCheapPrepend" and rv: "readv_ok rv"
  shows "safeR (Buffer_readFd rv savedErrno b) (\<lambda>(n, e, b'). length (buffer b') \<le> max (length (buffer b)) 131080 \<and>
    n \<le> int (max (length (buffer b)) 131080))"
proof (cases "rv (readFd_iov b)")
  case (Inr bs)
  let ?wr = "writableBytes b"
  have wr: "?wr = length (buffer b) - 8" using Buffer_sizes [OF inv] w by (simp add: kCheapPrepend_def)
  have n: "length bs \<le> sum_list (readFd_iov b)" using rv Inr by (simp add: readv_ok_def)
  then have le: "length bs \<le> max (length (buffer b)) 131080" "?wr < length bs \<Longrightarrow> length (buffer b) + length (drop ?wr bs) \<le> 131080"
    using wr by (auto simp: readFd_iov_def extrabuf_size_def split: if_splits)
  define c where "c = b\<lparr>buffer := std_copy (take ?wr bs) (buffer b) (writerIndex b), writerIndex := length (buffer b)\<rparr>"
  have "Buffer_inv c" using inv by (auto simp: c_def Buffer_inv_def)
  then have "safeR (Buffer_append (drop ?wr bs) c) (\<lambda>b'. length (buffer b') \<le> length (buffer b) + length (drop ?wr bs))"
    using Buffer_append_size [of c "drop ?wr bs"] by (simp add: c_def)
  then have "safeR (Buffer_append (drop ?wr bs) c) (\<lambda>b'. length (buffer b') \<le> max (length (buffer b)) 131080)" if "?wr < length bs"
    by (rule safeR_mono) (use le(2) [OF that] in auto)
  then show ?thesis
    using Inr le(1) by (auto simp: Buffer_readFd_def Let_def wp_simps c_def of_nat_max[symmetric] simp del: of_nat_max elim!: safeR_mono)
qed (simp add: Buffer_readFd_def Let_def)

text \<open>C24: reading from a descriptor: on an error the buffer is unchanged, the return value is
  \<^verbatim>\<open>-1\<close> and the error number is saved; otherwise exactly the bytes the kernel delivered are
  appended, through the spare array when they do not fit, and their number is returned. When the
  spare array is in play, at most 131071 bytes (128k - 1) are read.\<close>

theorem Buffer_readFd_correct:
  assumes inv: "Buffer_inv b" and fits: "length (buffer b) + extrabuf_size \<le> max_size"
    and rv: "readv_ok rv"
  shows "okR (Buffer_readFd rv savedErrno b) (\<lambda>(n, e, b'). Buffer_inv b' \<and>
    (case rv (readFd_iov b) of
       Inl errno \<Rightarrow> n = -1 \<and> e = map_option (\<lambda>_. errno) savedErrno \<and> b' = b
     | Inr bs \<Rightarrow> n = int (length bs) \<and> e = savedErrno \<and> Buffer_content b' = Buffer_content b @ bs \<and>
         (length (readFd_iov b) = 2 \<longrightarrow> n \<le> 131071)))"
  using assms by (rule Buffer_readFd_ok)

theorem Buffer_readFd_correct_witness:
  "\<exists>b. Buffer_inv b \<and> length (buffer b) + extrabuf_size \<le> max_size \<and>
     readv_ok (\<lambda>lens. Inr (take (sum_list lens) ''hello'')) \<and>
     okR (Buffer_readFd (\<lambda>lens. Inr (take (sum_list lens) ''hello'')) None b)
       (\<lambda>(n, e, b'). n = 5 \<and> Buffer_content b' = ''hello'')"
proof -
  let ?rv = "\<lambda>lens. Inr (take (sum_list lens) ''hello'')"
  define b where "b = \<lparr>buffer = replicate 10 (CHR ''z''), readerIndex = 8, writerIndex = 8\<rparr>"
  have b: "Buffer_inv b" "length (buffer b) + extrabuf_size \<le> max_size" "readv_ok ?rv"
    by (simp_all add: b_def Buffer_inv_def kCheapPrepend_def max_size_def extrabuf_size_def readv_ok_def)
  have c: "writableBytes b = 2" "Buffer_content b = []"
    using Buffer_sizes [OF b(1)] by (simp_all add: b_def Buffer_content_def)
  have "okR (Buffer_readFd ?rv None b) (\<lambda>(n, e, b'). n = 5 \<and> Buffer_content b' = ''hello'')"
    using Buffer_readFd_correct [OF b, of None]
    by (rule okR_mono) (simp add: c readFd_iov_def extrabuf_size_def split: prod.splits)
  with b show ?thesis by blast
qed

text \<open>Writing a header in front: prepending at most \<^verbatim>\<open>prependableBytes()\<close> bytes puts them before
  the readable bytes, and retrieving as many gives back the old content; a longer header fails the
  assertion.\<close>

lemma Buffer_prepend_roundtrip:
  assumes "Buffer_inv b"
  shows "if length data \<le> prependableBytes b
    then okR (bindR (Buffer_prepend data b) (\<lambda>b'. bindR (Buffer_retrieve (length data) b') (\<lambda>b''. Inr (b', b''))))
           (\<lambda>(b', b''). Buffer_content b' = data @ Buffer_content b \<and> Buffer_content b'' = Buffer_content b)
    else Buffer_prepend data b = Inl Assertion_failed"
proof (cases "length data \<le> prependableBytes b")
  case True
  from Buffer_prepend_ok [OF assms True] obtain b' where b': "Buffer_prepend data b = Inr b'"
      "Buffer_inv b'" "Buffer_content b' = data @ Buffer_content b"
    by (auto simp: okR_def)
  with buffer.remove_ok [of b' "length data"] True show ?thesis by auto
qed (simp add: Buffer_prepend_guard)

end
