(* ===== verification/Inet_Address.thy ===== *)
theory Inet_Address
  imports Net_State
begin

text \<open>
  \<^verbatim>\<open>InetAddress\<close> (net/inetaddress.h) with the conversions of the C library it calls: \<^verbatim>\<open>inet_aton\<close> with all
  the notations it accepts, \<^verbatim>\<open>inet_ntoa\<close>, \<^verbatim>\<open>htons\<close> and \<^verbatim>\<open>ntohs\<close> on a little-endian machine. What is shown: an
  address is determined by the text and the port it reports; a text that is no address gives
  0.0.0.0 without notice, and a port outside 16 bits is reduced.
\<close>

section \<open>Byte order\<close>

definition htons :: "int \<Rightarrow> 16 word" where
  "htons port = (let n = nat (port mod 65536) in word_of_nat (n div 256 + n mod 256 * 256))"

definition ntohs :: "16 word \<Rightarrow> int" where
  "ntohs w = int (unat w div 256 + unat w mod 256 * 256)"

definition htonl :: "nat \<Rightarrow> 32 word" where
  "htonl n = word_of_nat (n div 16777216 mod 256 + n div 65536 mod 256 * 256 +
     n div 256 mod 256 * 65536 + n mod 256 * 16777216)"

section \<open>\<open>inet_ntoa\<close>\<close>

definition octet :: "nat \<Rightarrow> 32 word \<Rightarrow> nat" where
  "octet i w = unat w div 256 ^ i mod 256"

definition inet_ntoa :: "32 word \<Rightarrow> string" where
  "inet_ntoa w = dec (octet 0 w) @ ''.'' @ dec (octet 1 w) @ ''.'' @ dec (octet 2 w) @ ''.'' @ dec (octet 3 w)"

section \<open>\<open>inet_aton\<close>\<close>

definition hex_val :: "char \<Rightarrow> nat" where
  "hex_val c = (let n = of_char c in if n \<le> 57 then n - 48 else if n \<le> 70 then n - 55 else n - 87)"

definition is_hex :: "char \<Rightarrow> bool" where
  "is_hex c \<longleftrightarrow> c \<in> set ''0123456789abcdefABCDEF''"

definition is_octal :: "char \<Rightarrow> bool" where
  "is_octal c \<longleftrightarrow> c \<in> set ''01234567''"

text \<open>One part of the address: decimal, octal after a \<open>0\<close>, hexadecimal after \<open>0x\<close>.\<close>

fun strtoul :: "string \<Rightarrow> nat option" where
  "strtoul [] = None"
| "strtoul (c # cs) =
     (if c = CHR ''0'' \<and> cs \<noteq> [] \<and> hd cs \<in> {CHR ''x'', CHR ''X''}
      then if tl cs \<noteq> [] \<and> list_all is_hex (tl cs) then Some (foldl (\<lambda>a d. 16 * a + hex_val d) 0 (tl cs)) else None
      else if c = CHR ''0''
      then if list_all is_octal cs then Some (foldl (\<lambda>a d. 8 * a + digit_val d) 0 cs) else None
      else if list_all is_digit (c # cs) then Some (undec (c # cs)) else None)"

fun split_dots :: "string \<Rightarrow> string list" where
  "split_dots [] = [[]]"
| "split_dots (c # cs) =
     (if c = CHR ''.'' then [] # split_dots cs
      else case split_dots cs of [] \<Rightarrow> [[c]] | p # ps \<Rightarrow> (c # p) # ps)"

definition is_space :: "char \<Rightarrow> bool" where
  "is_space c \<longleftrightarrow> c = CHR '' '' \<or> (9 \<le> (of_char c :: nat) \<and> (of_char c :: nat) \<le> 13)"

fun address_value :: "nat list \<Rightarrow> nat option" where
  "address_value [a] = (if a \<le> 4294967295 then Some a else None)"
| "address_value [a, b] = (if a \<le> 255 \<and> b \<le> 16777215 then Some (a * 16777216 + b) else None)"
| "address_value [a, b, c] =
     (if a \<le> 255 \<and> b \<le> 255 \<and> c \<le> 65535 then Some (a * 16777216 + b * 65536 + c) else None)"
| "address_value [a, b, c, d] =
     (if a \<le> 255 \<and> b \<le> 255 \<and> c \<le> 255 \<and> d \<le> 255 then Some (a * 16777216 + b * 65536 + c * 256 + d) else None)"
| "address_value _ = None"

text \<open>What follows the first white space is ignored.\<close>

definition inet_aton :: "string \<Rightarrow> 32 word option" where
  "inet_aton cp =
     (let ps = map strtoul (split_dots (takeWhile (\<lambda>c. \<not> is_space c) cp))
      in if None \<in> set ps then None else map_option htonl (address_value (map the ps)))"

section \<open>\<open>InetAddress\<close>\<close>

text \<open>The return value of \<^verbatim>\<open>inet_aton\<close> is ignored; the address was zeroed before.\<close>

definition InetAddress_new :: "string \<Rightarrow> int \<Rightarrow> sockaddr_in" where
  "InetAddress_new ip port =
     \<lparr>sin_port = htons port, sin_addr = (case inet_aton ip of None \<Rightarrow> 0 | Some a \<Rightarrow> a)\<rparr>"

definition InetAddress_of :: "sockaddr_in \<Rightarrow> sockaddr_in" where
  "InetAddress_of add = add"

definition SockAddress :: "sockaddr_in \<Rightarrow> sockaddr_in" where
  "SockAddress addr = addr"

definition InetAddress_IP :: "sockaddr_in \<Rightarrow> string" where
  "InetAddress_IP addr = inet_ntoa (sin_addr addr)"

definition InetAddress_Port :: "sockaddr_in \<Rightarrow> int" where
  "InetAddress_Port addr = ntohs (sin_port addr)"

definition InetAddress_Size :: "sockaddr_in \<Rightarrow> nat" where
  "InetAddress_Size addr = 16"

section \<open>Properties\<close>

lemma split_dots_digits: "\<forall>c \<in> set xs. is_digit c \<Longrightarrow> split_dots xs = [xs]"
  by (induction xs) (auto simp: is_digit_def)

lemma split_dots_append: "\<forall>c \<in> set xs. is_digit c \<Longrightarrow> split_dots (xs @ CHR ''.'' # ys) = xs # split_dots ys"
  by (induction xs) (auto simp: is_digit_def)

lemma strtoul_dec: "strtoul (dec n) = Some n"
proof -
  obtain c cs where d: "dec n = c # cs" "is_digit c" by (rule dec_Cons)
  show ?thesis
  proof (cases "c = CHR ''0''")
    case False
    then show ?thesis using d dec_digits [of _ n] undec_dec [of n] by (auto simp: list_all_iff)
  next
    case True
    have "n < 10"
    proof (rule ccontr)
      assume "\<not> n < 10"
      then have "hd (dec n) \<noteq> CHR ''0''"
      proof (induction n rule: dec.induct)
        case (1 n)
        have *: "dec n = dec (n div 10) @ [digit (n mod 10)]" using 1(2) by (simp add: dec.simps [of n])
        show ?case
        proof (cases "n div 10 < 10")
          case True
          then have "dec (n div 10) = [digit (n div 10)]" by (simp add: dec.simps)
          moreover have "digit_val (digit (n div 10)) \<noteq> 0" using True 1(2) by simp
          then have "digit (n div 10) \<noteq> CHR ''0''" by (auto simp: digit_val_def)
          ultimately show ?thesis by (simp add: *)
        next
          case False
          then show ?thesis using 1 * by simp
        qed
      qed
      then show False using d True by simp
    qed
    then have "dec n = [digit n]" by (simp add: dec.simps)
    moreover have "digit_val (digit n) = n" using \<open>n < 10\<close> by simp
    moreover have "digit_val CHR ''0'' = 0" by (simp add: digit_val_def)
    moreover have "digit n = CHR ''0''" using \<open>dec n = [digit n]\<close> d True by simp
    ultimately have "n = 0" by simp
    with \<open>dec n = [digit n]\<close> \<open>digit n = CHR ''0''\<close> show ?thesis by simp
  qed
qed

lemma inet_aton_quad:
  assumes "a < 256" "b < 256" "c < 256" "d < 256"
  shows "inet_aton (dec a @ ''.'' @ dec b @ ''.'' @ dec c @ ''.'' @ dec d) =
    Some (htonl (a * 16777216 + b * 65536 + c * 256 + d))"
proof -
  let ?s = "dec a @ ''.'' @ dec b @ ''.'' @ dec c @ ''.'' @ dec d"
  have "takeWhile (\<lambda>c. \<not> is_space c) ?s = ?s"
    by (subst takeWhile_eq_all_conv) (auto simp: is_space_def is_digit_def dest!: dec_digits)
  moreover have "split_dots ?s = [dec a, dec b, dec c, dec d]"
    by (simp add: split_dots_append split_dots_digits dec_digits)
  ultimately show ?thesis
    using assms by (simp only: inet_aton_def Let_def) (simp add: strtoul_dec)
qed

lemma base256:
  fixes u :: nat
  assumes "u < 4294967296"
  shows "u = u mod 256 + u div 256 mod 256 * 256 + u div 65536 mod 256 * 65536 + u div 16777216 mod 256 * 16777216"
proof -
  have digits: "u = q\<^sub>1 * 256 + r\<^sub>0 \<Longrightarrow> q\<^sub>1 = q\<^sub>2 * 256 + r\<^sub>1 \<Longrightarrow> q\<^sub>2 = q\<^sub>3 * 256 + r\<^sub>2 \<Longrightarrow>
      u = r\<^sub>0 + r\<^sub>1 * 256 + r\<^sub>2 * 65536 + q\<^sub>3 * 16777216" for q\<^sub>1 q\<^sub>2 q\<^sub>3 r\<^sub>0 r\<^sub>1 r\<^sub>2
    by simp
  have "u div 65536 = u div 256 div 256" "u div 16777216 = u div 256 div 256 div 256"
    by (simp_all add: div_mult2_eq [symmetric])
  moreover have "u div 256 div 256 div 256 mod 256 = u div 256 div 256 div 256"
    using assms by (intro mod_less) simp
  ultimately show ?thesis
    by (simp only:) (rule digits [OF div_mult_mod_eq [symmetric] div_mult_mod_eq [symmetric] div_mult_mod_eq [symmetric]])
qed

lemma octets: "unat w = octet 0 w + octet 1 w * 256 + octet 2 w * 65536 + octet 3 w * 16777216" for w :: "32 word"
proof -
  have "unat w < 4294967296" using unsigned_less [of w] by simp
  moreover have "256 ^ 0 = (1::nat)" "256 ^ 1 = (256::nat)" "256 ^ 2 = (65536::nat)" "256 ^ 3 = (16777216::nat)"
    by simp_all
  ultimately show ?thesis using base256 [of "unat w"] by (simp only: octet_def div_by_1)
qed

lemma htonl_octets:
  "a < 256 \<Longrightarrow> b < 256 \<Longrightarrow> c < 256 \<Longrightarrow> d < 256 \<Longrightarrow>
   htonl (a * 16777216 + b * 65536 + c * 256 + d) = word_of_nat (a + b * 256 + c * 65536 + d * 16777216)"
proof -
  assume le: "a < 256" "b < 256" "c < 256" "d < 256"
  define n where "n = a * 16777216 + b * 65536 + c * 256 + d"
  have "n = d + (a * 65536 + b * 256 + c) * 256" by (simp add: n_def)
  then have "n div 256 = a * 65536 + b * 256 + c" "n mod 256 = d"
    using le by (simp_all only: div_mult_self1 mod_mult_self1 mod_less div_less)
  moreover from this have "n div 65536 = a * 256 + b" "n div 256 mod 256 = c"
    using le div_mult2_eq [of n 256 256] div_mult_self1 [of 256 c "a * 256 + b"] mod_mult_self1 [of c "a * 256 + b" 256]
    by (simp_all add: algebra_simps)
  moreover from this have "n div 16777216 = a" "n div 65536 mod 256 = b"
    using le div_mult2_eq [of n 65536 256] by simp_all
  ultimately show ?thesis using le by (simp add: htonl_def n_def [symmetric])
qed

lemma inet_aton_ntoa: "inet_aton (inet_ntoa w) = Some w"
proof -
  have o: "octet i w < 256" for i by (simp add: octet_def)
  have "inet_aton (inet_ntoa w) =
    Some (word_of_nat (octet 0 w + octet 1 w * 256 + octet 2 w * 65536 + octet 3 w * 16777216))"
    unfolding inet_ntoa_def by (simp only: inet_aton_quad [OF o o o o] htonl_octets [OF o o o o])
  also have "\<dots> = Some (word_of_nat (unat w))" by (simp only: octets [of w, symmetric])
  finally show ?thesis by simp
qed

lemma ntohs_htons: "ntohs (htons p) = p mod 65536"
proof -
  define n where "n = nat (p mod 65536)"
  have n: "n < 65536" "int n = p mod 65536" by (simp_all add: n_def)
  define m where "m = n div 256 + n mod 256 * 256"
  have m: "m < 65536" using n(1) by (simp add: m_def)
  then have "unat (word_of_nat m :: 16 word) = m" by (simp add: unat_of_nat)
  then have "ntohs (htons p) = int (m div 256 + m mod 256 * 256)"
    by (simp only: ntohs_def htons_def Let_def n_def [symmetric] m_def [symmetric])
  also have "m div 256 + m mod 256 * 256 = n" using n(1) by (simp add: m_def)
  finally show ?thesis using n(2) by simp
qed

lemma htons_ntohs: "htons (ntohs w) = w"
proof -
  define n where "n = unat w"
  have n: "n < 65536" using unsigned_less [of w] by (simp add: n_def)
  define m where "m = n div 256 + n mod 256 * 256"
  have m: "m < 65536" using n by (simp add: m_def)
  then have "htons (ntohs w) = word_of_nat (m div 256 + m mod 256 * 256)"
    by (simp add: ntohs_def htons_def n_def [symmetric] m_def [symmetric] Let_def nat_mod_distrib)
  also have "m div 256 + m mod 256 * 256 = n" using n by (simp add: m_def)
  finally show ?thesis by (simp add: n_def)
qed

text \<open>C34: an address is determined by the text of its IP and its port: building an address from what
  \<^verbatim>\<open>IP()\<close> and \<^verbatim>\<open>Port()\<close> report gives the same address.\<close>

theorem InetAddress_roundtrip:
  "InetAddress_new (InetAddress_IP addr) (InetAddress_Port addr) = addr"
  by (simp add: InetAddress_new_def InetAddress_IP_def InetAddress_Port_def inet_aton_ntoa htons_ntohs)

text \<open>The constructor does not look at its arguments' validity: the port is reduced to 16 bits, and a
  text that is no address gives the address 0.0.0.0, on which a server listens on every interface.\<close>

lemma InetAddress_unchecked:
  "InetAddress_Port (InetAddress_new ip port) = port mod 65536 \<and>
   InetAddress_IP (InetAddress_new ''localhost'' port) = ''0.0.0.0''"
proof -
  have "takeWhile (\<lambda>c. \<not> is_space c) ''localhost'' = ''localhost''"
    by (simp add: is_space_def)
  moreover have "split_dots ''localhost'' = [''localhost'']"
    by simp
  moreover have "strtoul ''localhost'' = None"
    by (simp add: is_digit_def)
  ultimately have "inet_aton ''localhost'' = None"
    by (simp only: inet_aton_def Let_def) simp
  moreover have "digit 0 = CHR ''0''" by (simp add: digit_def char_of_eq_iff)
  then have "dec 0 = ''0''" by (subst dec.simps) simp
  then have "inet_ntoa 0 = ''0.0.0.0''" by (simp add: inet_ntoa_def octet_def)
  ultimately show ?thesis
    by (simp add: InetAddress_new_def InetAddress_IP_def InetAddress_Port_def ntohs_htons)
qed

end
