(* ===== verification/Tcp_Connection.thy ===== *)
theory Tcp_Connection
  imports Timer_Queue Buffers Inet_Address
begin

text \<open>
  \<^verbatim>\<open>TcpConnection\<close> (net/tcp_connection.h, net/tcp_connection.cc) and the part of \<^verbatim>\<open>Socket\<close> it uses
  (net/socket.h, net/socket.cc). Connections are objects at addresses with the use count their
  \<^verbatim>\<open>shared_ptr\<close>s keep: dropping the last one runs the destructor and frees the connection and its
  channel. What the callbacks do is a parameter (\<open>callbacks\<close>); a member function looks its object up
  again after every call that may have freed it. Two ghosts record, per connection, the bytes
  \<^verbatim>\<open>Send\<close> has taken responsibility for (\<open>accepted\<close>) and, per descriptor, the bytes the kernel has
  taken (\<open>sent\<close>). The model has one event loop, the \<^verbatim>\<open>loop_\<close> of every connection.
\<close>

section \<open>State\<close>

datatype State = kConnecting | kConnected | kDisconnecting | kDisconnected

text \<open>The functions of the user that a connection stores are numbered; its close callback is the lambda that
  \<^verbatim>\<open>TcpServer\<close> installs or a function of the user.\<close>

datatype close_callback = Server_removeConnection | User_close nat

record TcpConnection =
  tc_name :: string
  tc_state :: State
  tc_fd :: int
  tc_channel :: nat
  tc_local :: sockaddr_in
  tc_remote :: sockaddr_in
  tc_conn_cb :: "nat option"
  tc_msg_cb :: "nat option"
  tc_close_cb :: "close_callback option"
  tc_wc_cb :: "nat option"
  tc_rev :: Buffer
  tc_snd :: Buffer
  tc_uses :: nat

record tcp_state = timer_state +
  conns :: "nat \<Rightarrow> TcpConnection option"
  sent :: "int \<Rightarrow> char list"
  accepted :: "nat \<Rightarrow> char list"
  shut_wr :: "int set"

text \<open>What the stored callbacks do when they are called with a connection: \<open>cb_conn\<close> for the
  connection and write-complete callbacks, \<open>cb_msg\<close> for the message callback, which also gets the
  time.\<close>

record 's callbacks =
  cb_conn :: "nat \<Rightarrow> nat \<Rightarrow> 's \<Rightarrow> 's result"
  cb_close :: "close_callback \<Rightarrow> nat \<Rightarrow> 's \<Rightarrow> 's result"
  cb_msg :: "nat \<Rightarrow> nat \<Rightarrow> Timestamp \<Rightarrow> 's \<Rightarrow> 's result"

section \<open>Members\<close>

definition TcpConnection_name :: "TcpConnection \<Rightarrow> string" where
  "TcpConnection_name c = tc_name c"

definition remoteIP :: "TcpConnection \<Rightarrow> string" where
  "remoteIP c = InetAddress_IP (tc_remote c)"

definition remotePort :: "TcpConnection \<Rightarrow> int" where
  "remotePort c = InetAddress_Port (tc_remote c)"

definition connected :: "TcpConnection \<Rightarrow> bool" where
  "connected c \<longleftrightarrow> tc_state c = kConnected"

definition conn_SetConnectionCallback :: "nat option \<Rightarrow> TcpConnection \<Rightarrow> TcpConnection" where
  "conn_SetConnectionCallback cb c = c\<lparr>tc_conn_cb := cb\<rparr>"

definition conn_SetMessageCallback :: "nat option \<Rightarrow> TcpConnection \<Rightarrow> TcpConnection" where
  "conn_SetMessageCallback cb c = c\<lparr>tc_msg_cb := cb\<rparr>"

definition conn_SetCloseCallback :: "close_callback option \<Rightarrow> TcpConnection \<Rightarrow> TcpConnection" where
  "conn_SetCloseCallback cb c = c\<lparr>tc_close_cb := cb\<rparr>"

definition conn_SetWriteCompleteCallback :: "nat option \<Rightarrow> TcpConnection \<Rightarrow> TcpConnection" where
  "conn_SetWriteCompleteCallback cb c = c\<lparr>tc_wc_cb := cb\<rparr>"

lemmas conn_setters = conn_SetConnectionCallback_def conn_SetMessageCallback_def conn_SetCloseCallback_def
  conn_SetWriteCompleteCallback_def

section \<open>Ownership\<close>

definition set_conn :: "nat \<Rightarrow> TcpConnection \<Rightarrow> 'a tcp_state_scheme \<Rightarrow> 'a tcp_state_scheme" where
  "set_conn x c s = s\<lparr>conns := (conns s)(x \<mapsto> c)\<rparr>"

text \<open>The destructor: the assertion, then the members, the channel and the socket (which closes the
  descriptor) among them.\<close>

definition TcpConnection_delete :: "nat \<Rightarrow> 'a tcp_state_scheme \<Rightarrow> 'a tcp_state_scheme result" where
  "TcpConnection_delete x s =
     ptrR Use_after_free (conns s x) (\<lambda>c.
     assertR (tc_state c = kDisconnected)
       (Inr (s\<lparr>conns := (conns s)(x := None), chans := (chans s)(tc_channel c := None), tick := tick s + 1\<rparr>)))"

definition shared_from_this :: "nat \<Rightarrow> 'a tcp_state_scheme \<Rightarrow> 'a tcp_state_scheme result" where
  "shared_from_this x s =
     ptrR Use_after_free (conns s x) (\<lambda>c.
     if tc_uses c = 0 then Inl Bad_weak_ptr
     else Inr (set_conn x (c\<lparr>tc_uses := Suc (tc_uses c)\<rparr>) s))"

definition release :: "nat \<Rightarrow> 'a tcp_state_scheme \<Rightarrow> 'a tcp_state_scheme result" where
  "release x s =
     ptrR Use_after_free (conns s x) (\<lambda>c.
     if tc_uses c \<le> 1 then TcpConnection_delete x (set_conn x (c\<lparr>tc_uses := 0\<rparr>) s)
     else Inr (set_conn x (c\<lparr>tc_uses := tc_uses c - 1\<rparr>) s))"

text \<open>Calling \<open>f\<close> with a temporary \<^verbatim>\<open>shared_ptr\<close> made by \<^verbatim>\<open>shared_from_this()\<close>.\<close>

definition call_with_this ::
  "(nat \<Rightarrow> 'a tcp_state_scheme \<Rightarrow> 'a tcp_state_scheme result) \<Rightarrow> nat \<Rightarrow>
   'a tcp_state_scheme \<Rightarrow> 'a tcp_state_scheme result" where
  "call_with_this f x s = bindR (shared_from_this x s) (\<lambda>s. bindR (f x s) (release x))"

definition SetState :: "State \<Rightarrow> nat \<Rightarrow> 'a tcp_state_scheme \<Rightarrow> 'a tcp_state_scheme result" where
  "SetState st x s =
     ptrR Use_after_free (conns s x) (\<lambda>c. Inr (set_conn x (c\<lparr>tc_state := st\<rparr>) s))"

section \<open>Construction\<close>

text \<open>\<^verbatim>\<open>make_shared<TcpConnection>\<close> at address \<open>x\<close> with its channel at \<open>c\<close>: one owner.\<close>

definition TcpConnection_new ::
  "nat \<Rightarrow> nat \<Rightarrow> string \<Rightarrow> int \<Rightarrow> sockaddr_in \<Rightarrow> sockaddr_in \<Rightarrow> 'a tcp_state_scheme \<Rightarrow>
   'a tcp_state_scheme result" where
  "TcpConnection_new x c name conn_fd local_addr remote s =
     bindR (Buffer_new kInitialSize) (\<lambda>rev. bindR (Buffer_new kInitialSize) (\<lambda>snd.
       let conn = \<lparr>tc_name = name, tc_state = kConnecting, tc_fd = conn_fd, tc_channel = c,
                   tc_local = local_addr, tc_remote = remote, tc_conn_cb = None, tc_msg_cb = None,
                   tc_close_cb = None, tc_wc_cb = None, tc_rev = rev, tc_snd = snd, tc_uses = 1\<rparr>;
           ch = Channel_SetReadCallback (Conn_HandleRead_fn x) (Channel_new (loop_addr s) conn_fd);
           s = s\<lparr>conns := (conns s)(x \<mapsto> conn), chans := (chans s)(c \<mapsto> ch),
                 sent := (sent s)(conn_fd := []), accepted := (accepted s)(x := []),
                 shut_wr := shut_wr s - {conn_fd}\<rparr>
       in bindR (Channel_EnableReading c s) (\<lambda>s.
          ptrR Use_after_free (chans s c) (\<lambda>ch.
          Inr (s\<lparr>chans := (chans s)(c \<mapsto> Channel_SetCloseCallback (Conn_HandleClose_fn x)
                                     (Channel_SetWriteCallback (Conn_HandleWrite_fn x) ch))\<rparr>)))))"

section \<open>Connecting and closing\<close>

definition ConnectEstablished ::
  "'a tcp_state_scheme callbacks \<Rightarrow> nat \<Rightarrow> 'a tcp_state_scheme \<Rightarrow> 'a tcp_state_scheme result" where
  "ConnectEstablished cbs x s =
     bindR (SetState kConnected x s) (\<lambda>s.
     ptrR Use_after_free (conns s x) (\<lambda>c.
     case tc_conn_cb c of None \<Rightarrow> Inr s | Some f \<Rightarrow> call_with_this (cb_conn cbs f) x s))"

definition ConnectDestroyed ::
  "'a tcp_state_scheme callbacks \<Rightarrow> nat \<Rightarrow> 'a tcp_state_scheme \<Rightarrow> 'a tcp_state_scheme result" where
  "ConnectDestroyed cbs x s =
     assertInLoopThread s
       (ptrR Use_after_free (conns s x) (\<lambda>c.
        bindR (if tc_state c = kConnected \<or> tc_state c = kDisconnecting
               then Channel_DisbaleAll (tc_channel c) s else Inr s) (\<lambda>s.
        bindR (SetState kDisconnected x s) (\<lambda>s.
        ptrR Use_after_free (conns s x) (\<lambda>c.
        case tc_conn_cb c of None \<Rightarrow> Inr s | Some f \<Rightarrow> call_with_this (cb_conn cbs f) x s)))))"

definition HandleClose ::
  "'a tcp_state_scheme callbacks \<Rightarrow> nat \<Rightarrow> 'a tcp_state_scheme \<Rightarrow> 'a tcp_state_scheme result" where
  "HandleClose cbs x s =
     assertInLoopThread s
       (ptrR Use_after_free (conns s x) (\<lambda>c.
        assertR (tc_state c = kConnected \<or> tc_state c = kDisconnecting)
          (bindR (Channel_DisbaleAll (tc_channel c) s) (\<lambda>s.
           bindR (SetState kDisconnected x s) (\<lambda>s.
           ptrR Use_after_free (conns s x) (\<lambda>c.
           case tc_close_cb c of None \<Rightarrow> Inr s | Some f \<Rightarrow> call_with_this (cb_close cbs f) x s))))))"

text \<open>It only logs.\<close>

definition HandleError :: "nat \<Rightarrow> 'a tcp_state_scheme \<Rightarrow> 'a tcp_state_scheme result" where
  "HandleError x s = Inr s"

section \<open>Reading\<close>

definition HandleRead ::
  "kernel \<Rightarrow> 'a tcp_state_scheme callbacks \<Rightarrow> nat \<Rightarrow> 'a tcp_state_scheme \<Rightarrow> 'a tcp_state_scheme result" where
  "HandleRead k cbs x s =
     ptrR Use_after_free (conns s x) (\<lambda>c.
     ptrR Use_after_free (chans s (tc_channel c)) (\<lambda>ch.
     bindR (Buffer_readFd (k_readv k (tick s) (ch_fd ch)) None (tc_rev c)) (\<lambda>(n, _, b).
       let s = set_conn x (c\<lparr>tc_rev := b\<rparr>) (s\<lparr>tick := tick s + 1\<rparr>)
       in if 0 < n
          then case tc_msg_cb c of
                 None \<Rightarrow> Inr s
               | Some f \<Rightarrow> (let now = Timestamp_now k (tick s)
                           in call_with_this (\<lambda>x. cb_msg cbs f x now) x (s\<lparr>tick := tick s + 1\<rparr>))
          else if n = 0 then HandleClose cbs x s
          else HandleError x s)))"

section \<open>Writing\<close>

definition EWOULDBLOCK :: int where
  "EWOULDBLOCK = 11"

text \<open>\<^verbatim>\<open>::write\<close> on a descriptor: the return value, \<^verbatim>\<open>errno\<close>, and the bytes taken recorded in \<open>sent\<close>.\<close>

definition sys_write ::
  "kernel \<Rightarrow> int \<Rightarrow> char list \<Rightarrow> 'a tcp_state_scheme \<Rightarrow> int \<times> int \<times> 'a tcp_state_scheme" where
  "sys_write k fd bs s =
     (let (n, errno) = k_write k (tick s) fd bs
      in (n, errno, s\<lparr>tick := tick s + 1, sent := (sent s)(fd := sent s fd @ take (nat n) bs)\<rparr>))"

text \<open>\<^verbatim>\<open>loop_->RunInLoop(std::bind(write_complete_callback_, shared_from_this()))\<close>: the bound pointer is
  held until the functor has run.\<close>

definition run_writeComplete ::
  "'a tcp_state_scheme callbacks \<Rightarrow> nat \<Rightarrow> 'a tcp_state_scheme \<Rightarrow> 'a tcp_state_scheme result" where
  "run_writeComplete cbs x s =
     ptrR Use_after_free (conns s x) (\<lambda>c.
     case tc_wc_cb c of
       None \<Rightarrow> Inr s
     | Some f \<Rightarrow>
         bindR (shared_from_this x s) (\<lambda>s.
         EventLoop_RunInLoop (Conn_writeComplete_fn x) (\<lambda>s. bindR (cb_conn cbs f x s) (release x)) s))"

text \<open>\<^verbatim>\<open>Socket::ShutdownWrite\<close>.\<close>

definition Socket_ShutdownWrite :: "kernel \<Rightarrow> int \<Rightarrow> 'a tcp_state_scheme \<Rightarrow> 'a tcp_state_scheme" where
  "Socket_ShutdownWrite k fd s =
     (let ret = k_call k (tick s); s = s\<lparr>tick := tick s + 1\<rparr>
      in if ret < 0 then s else s\<lparr>shut_wr := insert fd (shut_wr s)\<rparr>)"

definition shutdownInLoop :: "kernel \<Rightarrow> nat \<Rightarrow> 'a tcp_state_scheme \<Rightarrow> 'a tcp_state_scheme result" where
  "shutdownInLoop k x s =
     assertInLoopThread s
       (ptrR Use_after_free (conns s x) (\<lambda>c.
        ptrR Use_after_free (chans s (tc_channel c)) (\<lambda>ch.
        if \<not> isWritingEnabled ch then Inr (Socket_ShutdownWrite k (tc_fd c) s) else Inr s)))"

definition Shutdown :: "kernel \<Rightarrow> nat \<Rightarrow> 'a tcp_state_scheme \<Rightarrow> 'a tcp_state_scheme result" where
  "Shutdown k x s =
     ptrR Use_after_free (conns s x) (\<lambda>c.
     if tc_state c = kConnected
     then bindR (SetState kDisconnecting x s)
            (EventLoop_RunInLoop (Conn_shutdownInLoop_fn x) (shutdownInLoop k x))
     else Inr s)"

text \<open>The second half of \<^verbatim>\<open>sendInLoop\<close>: what \<^verbatim>\<open>write\<close> has not taken goes to the send buffer.\<close>

definition send_rest :: "nat \<Rightarrow> string \<Rightarrow> int \<Rightarrow> 'a tcp_state_scheme \<Rightarrow> 'a tcp_state_scheme result" where
  "send_rest x msg nwrote s =
     assertR (0 \<le> nwrote)
       (if nwrote < int (length msg)
        then ptrR Use_after_free (conns s x) (\<lambda>c.
             bindR (Buffer_append (drop (nat nwrote) msg) (tc_snd c)) (\<lambda>b.
             let s = set_conn x (c\<lparr>tc_snd := b\<rparr>) s
             in ptrR Use_after_free (chans s (tc_channel c)) (\<lambda>ch.
                if \<not> isWritingEnabled ch then Channel_EnableWriting (tc_channel c) s else Inr s)))
        else Inr s)"

definition sendInLoop ::
  "kernel \<Rightarrow> 'a tcp_state_scheme callbacks \<Rightarrow> nat \<Rightarrow> string \<Rightarrow> 'a tcp_state_scheme \<Rightarrow>
   'a tcp_state_scheme result" where
  "sendInLoop k cbs x msg s =
     assertInLoopThread s
       (ptrR Use_after_free (conns s x) (\<lambda>c.
        ptrR Use_after_free (chans s (tc_channel c)) (\<lambda>ch.
        if \<not> isWritingEnabled ch \<and> readableBytes (tc_snd c) = 0
        then let (n, errno, s) = sys_write k (ch_fd ch) msg s
             in if 0 \<le> n
                then let s = s\<lparr>accepted := (accepted s)(x := accepted s x @ msg)\<rparr>
                     in if n < int (length msg)
                        then send_rest x msg n s
                        else bindR (run_writeComplete cbs x s) (send_rest x msg n)
                else if errno \<noteq> EWOULDBLOCK then Inr s
                else send_rest x msg 0 (s\<lparr>accepted := (accepted s)(x := accepted s x @ msg)\<rparr>)
        else send_rest x msg 0 (s\<lparr>accepted := (accepted s)(x := accepted s x @ msg)\<rparr>))))"

text \<open>The lambda \<^verbatim>\<open>Send\<close> queues when it is called from another thread: \<open>a\<close> is the caller's string, which
  it captured by reference.\<close>

definition sendInLoop_call ::
  "kernel \<Rightarrow> 'a tcp_state_scheme callbacks \<Rightarrow> nat \<Rightarrow> nat \<Rightarrow> 'a tcp_state_scheme \<Rightarrow>
   'a tcp_state_scheme result" where
  "sendInLoop_call k cbs x a s =
     (case captures s a of
        Some (Captured_string msg) \<Rightarrow> sendInLoop k cbs x msg s
      | _ \<Rightarrow> Inl Dangling_reference)"

definition Send ::
  "kernel \<Rightarrow> 'a tcp_state_scheme callbacks \<Rightarrow> nat \<Rightarrow> nat \<Rightarrow> 'a tcp_state_scheme \<Rightarrow>
   'a tcp_state_scheme result" where
  "Send k cbs x a s =
     (if isInLoopThread s then sendInLoop_call k cbs x a s
      else EventLoop_RunInLoop (Conn_sendInLoop_fn x a) (sendInLoop_call k cbs x a) s)"

text \<open>The last part of \<^verbatim>\<open>HandleWrite\<close>, once the send buffer is empty.\<close>

definition write_drained ::
  "kernel \<Rightarrow> 'a tcp_state_scheme callbacks \<Rightarrow> nat \<Rightarrow> 'a tcp_state_scheme \<Rightarrow> 'a tcp_state_scheme result" where
  "write_drained k cbs x s =
     ptrR Use_after_free (conns s x) (\<lambda>c.
     bindR (Channel_DisableWriting (tc_channel c) s) (\<lambda>s.
     bindR (run_writeComplete cbs x s) (\<lambda>s.
     ptrR Use_after_free (conns s x) (\<lambda>c.
     if tc_state c = kDisconnecting then shutdownInLoop k x s else Inr s))))"

definition HandleWrite ::
  "kernel \<Rightarrow> 'a tcp_state_scheme callbacks \<Rightarrow> nat \<Rightarrow> 'a tcp_state_scheme \<Rightarrow> 'a tcp_state_scheme result" where
  "HandleWrite k cbs x s =
     assertInLoopThread s
       (ptrR Use_after_free (conns s x) (\<lambda>c.
        ptrR Use_after_free (chans s (tc_channel c)) (\<lambda>ch.
        if isWritingEnabled ch
        then let (n, errno, s) = sys_write k (ch_fd ch) (take (readableBytes (tc_snd c)) (Buffer_peek (tc_snd c))) s
             in if 0 < n
                then bindR (Buffer_retrieve (nat n) (tc_snd c)) (\<lambda>b.
                     let s = set_conn x (c\<lparr>tc_snd := b\<rparr>) s
                     in if readableBytes b = 0 then write_drained k cbs x s else Inr s)
                else Inr s
        else Inr s)))"

section \<open>The invariant of the connections\<close>

text \<open>The buffers are well-formed, the channel watches the connection's descriptor and asks for
  writability exactly while there is something to send, and every byte taken from \<^verbatim>\<open>Send\<close> has either
  been given to the kernel or waits in the send buffer, in order. No two connections share a
  descriptor or a channel.\<close>

definition conn_ok :: "'a tcp_state_scheme \<Rightarrow> nat \<Rightarrow> TcpConnection \<Rightarrow> bool" where
  "conn_ok s x c \<longleftrightarrow> Buffer_inv (tc_rev c) \<and> Buffer_inv (tc_snd c) \<and>
     (\<exists>ch. chans s (tc_channel c) = Some ch \<and> ch_fd ch = tc_fd c \<and>
        (tc_state c \<noteq> kDisconnected \<longrightarrow> (isWritingEnabled ch \<longleftrightarrow> Buffer_content (tc_snd c) \<noteq> []))) \<and>
     accepted s x = sent s (tc_fd c) @ Buffer_content (tc_snd c)"

definition tcp_inv :: "'a tcp_state_scheme \<Rightarrow> bool" where
  "tcp_inv s \<longleftrightarrow> (\<forall>x c. conns s x = Some c \<longrightarrow> conn_ok s x c) \<and>
     (\<forall>x y c d. conns s x = Some c \<longrightarrow> conns s y = Some d \<longrightarrow> x \<noteq> y \<longrightarrow>
        tc_fd c \<noteq> tc_fd d \<and> tc_channel c \<noteq> tc_channel d)"

lemma tcp_inv_conn: "tcp_inv s \<Longrightarrow> conns s x = Some c \<Longrightarrow> conn_ok s x c"
  by (simp add: tcp_inv_def)

text \<open>An operation on one connection touches only that connection's object, channel and ghosts.\<close>

lemma tcp_inv_update:
  assumes inv: "tcp_inv s" and c: "conns s x = Some c"
    and c': "tc_fd c' = tc_fd c" "tc_channel c' = tc_channel c" "conn_ok s' x c'"
    and frame: "conns s' = (conns s)(x \<mapsto> c')" "\<And>b. b \<noteq> tc_channel c \<Longrightarrow> chans s' b = chans s b"
      "\<And>fd. fd \<noteq> tc_fd c \<Longrightarrow> sent s' fd = sent s fd" "\<And>y. y \<noteq> x \<Longrightarrow> accepted s' y = accepted s y"
  shows "tcp_inv s'"
proof -
  have other: "conn_ok s y d \<and> tc_fd d \<noteq> tc_fd c \<and> tc_channel d \<noteq> tc_channel c"
    if "conns s y = Some d" "y \<noteq> x" for y d
    using inv c that by (auto simp: tcp_inv_def)
  then have "conn_ok s' y d" if "conns s y = Some d" "y \<noteq> x" for y d
    using that frame(2-4) by (fastforce simp: conn_ok_def)
  then show ?thesis
    using inv c c' other unfolding tcp_inv_def frame(1) by (auto split: if_splits)
qed

lemma tcp_inv_cong:
  assumes "conns s' = conns s" "chans s' = chans s" "sent s' = sent s" "accepted s' = accepted s"
  shows "tcp_inv s' \<longleftrightarrow> tcp_inv s"
  by (simp add: tcp_inv_def conn_ok_def assms)

lemma tcp_inv_set_conn:
  assumes "tcp_inv s" "conns s x = Some c" "tc_fd c' = tc_fd c" "tc_channel c' = tc_channel c"
    "tc_rev c' = tc_rev c \<or> Buffer_inv (tc_rev c')" "tc_snd c' = tc_snd c"
    "tc_state c' = tc_state c \<or> tc_state c' = kDisconnected \<or> tc_state c \<noteq> kDisconnected"
  shows "tcp_inv (set_conn x c' s)"
  using tcp_inv_conn [OF assms(1,2)] assms
  by (intro tcp_inv_update [OF assms(1,2)]) (auto simp: set_conn_def conn_ok_def)

lemma shared_from_this_inv: "tcp_inv s \<Longrightarrow> safeR (shared_from_this x s) tcp_inv"
  by (auto simp: shared_from_this_def wp_simps intro: tcp_inv_set_conn)

lemma tcp_inv_delete: "tcp_inv s \<Longrightarrow> safeR (TcpConnection_delete x s) tcp_inv"
  by (auto simp: TcpConnection_delete_def wp_simps tcp_inv_def conn_ok_def)

lemma release_inv: "tcp_inv s \<Longrightarrow> safeR (release x s) tcp_inv"
  by (auto simp: release_def wp_simps intro!: tcp_inv_set_conn tcp_inv_delete)

lemma SetState_Disconnected_inv: "tcp_inv s \<Longrightarrow> safeR (SetState kDisconnected x s) tcp_inv"
  by (auto simp: SetState_def wp_simps intro!: tcp_inv_set_conn)

text \<open>Changing a channel's events, when no assertion fails, changes that channel and the poller.\<close>

lemma set_events_frame:
  assumes "Channel_set_events f b s = Inr s'"
  obtains ch i where "chans s b = Some ch"
    "s' = s\<lparr>chans := (chans s)(b \<mapsto> ch\<lparr>ch_events := f (ch_events ch), ch_index := i\<rparr>),
            pollfds := pollfds s', channels := channels s'\<rparr>"
proof -
  from assms obtain ch where ch: "chans s b = Some ch"
    by (auto simp: Channel_set_events_def ptrR_def split: option.splits)
  let ?ch = "ch\<lparr>ch_events := f (ch_events ch)\<rparr>"
  let ?i = "if ch_index ch < 0 then int (length (pollfds s)) else ch_index ch"
  have "s' = s\<lparr>chans := (chans s)(b \<mapsto> ?ch\<lparr>ch_index := ?i\<rparr>), pollfds := pollfds s', channels := channels s'\<rparr>"
    using assms ch
    by (auto simp: Channel_set_events_def EventLoop_update_def Poller_UpdateChannel_def assertInLoopThread_def
        Let_def result_simps split: if_splits)
  with ch that show thesis by auto
qed

lemma set_events_conns:
  fixes s :: "'a tcp_state_scheme"
  assumes "Channel_set_events f b s = Inr s'" "chans s b = Some ch"
  obtains i where "chans s' = (chans s)(b \<mapsto> ch\<lparr>ch_events := f (ch_events ch), ch_index := i\<rparr>)"
    "conns s' = conns s" "sent s' = sent s" "accepted s' = accepted s" "shut_wr s' = shut_wr s"
proof -
  obtain ch' i where s': "chans s b = Some ch'"
    "s' = s\<lparr>chans := (chans s)(b \<mapsto> ch'\<lparr>ch_events := f (ch_events ch'), ch_index := i\<rparr>),
            pollfds := pollfds s', channels := channels s'\<rparr>"
    using assms(1) by (rule set_events_frame)
  have "conns s' = conns s" "sent s' = sent s" "accepted s' = accepted s" "shut_wr s' = shut_wr s"
      "chans s' = (chans s)(b \<mapsto> ch\<lparr>ch_events := f (ch_events ch), ch_index := i\<rparr>)"
    using s'(1) assms(2) by (subst s'(2); simp)+
  with that show thesis by blast
qed

lemma write_bit [simp]:
  "isWritingEnabled (ch\<lparr>ch_events := e OR kWriteEvent, ch_index := i\<rparr>)"
  "\<not> isWritingEnabled (ch\<lparr>ch_events := e AND NOT kWriteEvent, ch_index := i\<rparr>)"
proof -
  have "(e AND NOT kWriteEvent) AND kWriteEvent = 0" by (rule bit_eqI) (auto simp: bit_simps)
  then show "\<not> isWritingEnabled (ch\<lparr>ch_events := e AND NOT kWriteEvent, ch_index := i\<rparr>)"
    by (simp add: isWritingEnabled_def)
  have "(e OR kWriteEvent) AND kWriteEvent = kWriteEvent" by (rule bit_eqI) (auto simp: bit_simps)
  then show "isWritingEnabled (ch\<lparr>ch_events := e OR kWriteEvent, ch_index := i\<rparr>)"
    by (simp add: isWritingEnabled_def kWriteEvent_def POLLOUT_def)
qed

text \<open>Closing: the channel's events are cleared and the connection is marked as disconnected.\<close>

lemma disable_SetState_inv:
  assumes "tcp_inv s" "conns s x = Some c"
  shows "safeR (bindR (Channel_DisbaleAll (tc_channel c) s) (SetState kDisconnected x)) tcp_inv"
proof -
  have "tcp_inv (set_conn x (d\<lparr>tc_state := kDisconnected\<rparr>) s')"
    if s': "Channel_DisbaleAll (tc_channel c) s = Inr s'" and d: "conns s' x = Some d" for s' d
  proof -
    obtain ch where ch: "chans s (tc_channel c) = Some ch"
      using tcp_inv_conn [OF assms] by (auto simp: conn_ok_def)
    from s' ch obtain i where
      eq: "chans s' = (chans s)(tc_channel c \<mapsto> ch\<lparr>ch_events := kNoneEvent, ch_index := i\<rparr>)"
        "conns s' = conns s" "sent s' = sent s" "accepted s' = accepted s"
      unfolding Channel_DisbaleAll_def by (rule set_events_conns)
    with d assms(2) have [simp]: "d = c" by simp
    show ?thesis
      using tcp_inv_conn [OF assms] ch
      by (intro tcp_inv_update [OF assms]) (auto simp: set_conn_def eq conn_ok_def)
  qed
  then show ?thesis by (auto simp: SetState_def ptrR_def safeR_def result_simps split: option.splits)
qed

text \<open>The rest of a message is appended to the send buffer. The premise is the invariant with the
  bytes still in hand taken off the ghost.\<close>

lemma send_rest_inv:
  assumes c: "conns s x = Some c"
    and inv: "tcp_inv (s\<lparr>accepted := (accepted s)(x := sent s (tc_fd c) @ Buffer_content (tc_snd c))\<rparr>)"
    and acc: "accepted s x = sent s (tc_fd c) @ Buffer_content (tc_snd c) @ drop (nat n) msg"
  shows "safeR (send_rest x msg n s) tcp_inv"
proof (cases "0 \<le> n \<and> n < int (length msg)")
  case False
  let ?t = "s\<lparr>accepted := (accepted s)(x := sent s (tc_fd c) @ Buffer_content (tc_snd c))\<rparr>"
  have "accepted ?t = accepted s" if "0 \<le> n" using False acc that by auto
  then have "tcp_inv s" if "0 \<le> n" using inv tcp_inv_cong [of ?t s] that by simp
  with False show ?thesis by (simp add: send_rest_def wp_simps)
next
  case True
  let ?t = "s\<lparr>accepted := (accepted s)(x := sent s (tc_fd c) @ Buffer_content (tc_snd c))\<rparr>"
  have ct: "conns ?t x = Some c" using c by simp
  from tcp_inv_conn [OF inv ct] obtain ch where ok: "Buffer_inv (tc_rev c)" "Buffer_inv (tc_snd c)"
    and ch: "chans s (tc_channel c) = Some ch" "ch_fd ch = tc_fd c"
    by (auto simp: conn_ok_def)
  have "safeR (if \<not> isWritingEnabled ch then Channel_EnableWriting (tc_channel c) (set_conn x (c\<lparr>tc_snd := b\<rparr>) s)
      else Inr (set_conn x (c\<lparr>tc_snd := b\<rparr>) s)) tcp_inv"
    if b: "Buffer_append (drop (nat n) msg) (tc_snd c) = Inr b" for b
  proof -
    have B: "Buffer_inv b" "Buffer_content b = Buffer_content (tc_snd c) @ drop (nat n) msg"
      using Buffer_append_safe [OF ok(2) b] by auto
    have "nat n < length msg" using True by linarith
    then have ne: "Buffer_content b \<noteq> []" using B(2) by simp
    let ?s = "set_conn x (c\<lparr>tc_snd := b\<rparr>) s"
    show ?thesis
    proof (cases "isWritingEnabled ch")
      case en: True
      have "conn_ok ?s x (c\<lparr>tc_snd := b\<rparr>)"
        using ok ch B(1) ne en by (simp add: set_conn_def conn_ok_def acc B(2))
      then have "tcp_inv ?s" by (rule tcp_inv_update [OF inv ct, rotated 2]) (simp_all add: set_conn_def)
      with en show ?thesis by simp
    next
      case False
      have "tcp_inv s'" if "Channel_EnableWriting (tc_channel c) ?s = Inr s'" for s'
      proof -
        have "chans ?s (tc_channel c) = Some ch" using ch(1) by (simp add: set_conn_def)
        with that obtain i where
          "chans s' = (chans ?s)(tc_channel c \<mapsto> ch\<lparr>ch_events := ch_events ch OR kWriteEvent, ch_index := i\<rparr>)"
            "conns s' = conns ?s" "sent s' = sent ?s" "accepted s' = accepted ?s"
          unfolding Channel_EnableWriting_def by (rule set_events_conns)
        then have eq: "chans s' = (chans s)(tc_channel c \<mapsto> ch\<lparr>ch_events := ch_events ch OR kWriteEvent, ch_index := i\<rparr>)"
            "conns s' = (conns s)(x \<mapsto> c\<lparr>tc_snd := b\<rparr>)" "sent s' = sent s" "accepted s' = accepted s"
          by (simp_all add: set_conn_def)
        have "conn_ok s' x (c\<lparr>tc_snd := b\<rparr>)"
          using ok ch B(1) ne by (simp add: eq conn_ok_def acc B(2))
        then show ?thesis by (rule tcp_inv_update [OF inv ct, rotated 2]) (simp_all add: eq)
      qed
      with False show ?thesis by (auto simp: safeR_def)
    qed
  qed
  moreover have "chans (set_conn x (c\<lparr>tc_snd := b\<rparr>) s) (tc_channel c) = Some ch" for b
    using ch(1) by (simp add: set_conn_def)
  ultimately show ?thesis
    using True c by (cases "Buffer_append (drop (nat n) msg) (tc_snd c)") (simp_all add: send_rest_def Let_def)
qed

lemma tcp_inv_simps [simp]:
  "tcp_inv (s\<lparr>tick := n\<rparr>) \<longleftrightarrow> tcp_inv s" "tcp_inv (s\<lparr>shut_wr := w\<rparr>) \<longleftrightarrow> tcp_inv s"
  "tcp_inv (EventLoop_wakeup s) \<longleftrightarrow> tcp_inv s" "tcp_inv (push_functor f s) \<longleftrightarrow> tcp_inv s"
  by (rule tcp_inv_cong; simp add: EventLoop_wakeup_def push_functor_def)+

lemma RunInLoop_inv:
  "tcp_inv s \<Longrightarrow> safeR (cb s) tcp_inv \<Longrightarrow> safeR (EventLoop_RunInLoop f cb s) tcp_inv"
  by (simp add: EventLoop_RunInLoop_def)

lemma shutdownInLoop_inv: "tcp_inv s \<Longrightarrow> safeR (shutdownInLoop k x s) tcp_inv"
  by (auto simp: shutdownInLoop_def assertInLoopThread_def Socket_ShutdownWrite_def Let_def wp_simps)

lemma Shutdown_inv: "tcp_inv s \<Longrightarrow> safeR (Shutdown k x s) tcp_inv"
  by (auto simp: Shutdown_def SetState_def wp_simps
      intro!: RunInLoop_inv shutdownInLoop_inv tcp_inv_set_conn)

text \<open>After a \<^verbatim>\<open>write\<close> the bytes taken are on record.\<close>

lemma sys_write_conn:
  assumes "sys_write k fd bs s = (n, errno, s')"
  shows "conns s' = conns s" "chans s' = chans s" "accepted s' = accepted s"
    "sent s' = (sent s)(fd := sent s fd @ take (nat n) bs)"
  using assms by (auto simp: sys_write_def split: prod.splits)

lemma send_rest_done: "int (length msg) \<le> n \<Longrightarrow> send_rest x msg n s = Inr s"
  by (simp add: send_rest_def assertR_def)

lemma sys_write_inv:
  assumes inv: "tcp_inv s" and c: "conns s x = Some c" and w: "sys_write k (tc_fd c) msg s = (n, errno, s')"
    and empty: "Buffer_content (tc_snd c) = []"
  shows "tcp_inv (s'\<lparr>accepted := (accepted s')(x := sent s' (tc_fd c))\<rparr>)"
proof (rule tcp_inv_update [OF inv c])
  show "conn_ok (s'\<lparr>accepted := (accepted s')(x := sent s' (tc_fd c))\<rparr>) x c"
    using tcp_inv_conn [OF inv c] empty by (simp add: conn_ok_def sys_write_conn [OF w])
qed (use c in \<open>auto simp: sys_write_conn [OF w]\<close>)

section \<open>Callbacks that keep the invariant\<close>

text \<open>What the library asks of the callbacks: each keeps the invariant of the connections. Then so does
  every operation of \<^verbatim>\<open>TcpConnection\<close>, also one that runs inside a callback.\<close>

locale connection_callbacks =
  fixes cbs :: "'a tcp_state_scheme callbacks"
  assumes conn_keeps: "tcp_inv s \<Longrightarrow> safeR (cb_conn cbs f x s) tcp_inv"
    and close_keeps: "tcp_inv s \<Longrightarrow> safeR (cb_close cbs g x s) tcp_inv"
    and msg_keeps: "tcp_inv s \<Longrightarrow> safeR (cb_msg cbs f x now s) tcp_inv"
begin

lemma call_with_this_keeps:
  assumes "tcp_inv s" and "\<And>s. tcp_inv s \<Longrightarrow> safeR (f x s) tcp_inv"
  shows "safeR (call_with_this f x s) tcp_inv"
  unfolding call_with_this_def safeR_bindR
  by (rule safeR_mono [OF shared_from_this_inv [OF assms(1)]])
    (auto intro: safeR_mono [OF assms(2)] release_inv)

lemma run_writeComplete_keeps: "tcp_inv s \<Longrightarrow> safeR (run_writeComplete cbs x s) tcp_inv"
  by (auto simp: run_writeComplete_def wp_simps split: option.split
      intro!: safeR_mono [OF shared_from_this_inv] RunInLoop_inv safeR_mono [OF conn_keeps] release_inv)

lemma ConnectEstablished_keeps:
  assumes "tcp_inv s" "conns s x = Some c" "tc_state c \<noteq> kDisconnected"
  shows "safeR (ConnectEstablished cbs x s) tcp_inv"
  using assms
  by (auto simp: ConnectEstablished_def SetState_def wp_simps split: option.split
      intro!: tcp_inv_set_conn call_with_this_keeps conn_keeps)

lemma HandleClose_keeps:
  assumes "tcp_inv s"
  shows "safeR (HandleClose cbs x s) tcp_inv"
proof -
  have "safeR (ptrR Use_after_free (conns t x) (\<lambda>c. case tc_close_cb c of None \<Rightarrow> Inr t
      | Some f \<Rightarrow> call_with_this (cb_close cbs f) x t)) tcp_inv" if "tcp_inv t" for t
    using that by (auto simp: wp_simps split: option.split intro!: call_with_this_keeps close_keeps)
  moreover have "safeR (Channel_DisbaleAll (tc_channel c) s) (\<lambda>t. safeR (SetState kDisconnected x t) tcp_inv)"
    if "conns s x = Some c" for c
    using disable_SetState_inv [OF assms that] by (simp add: safeR_bindR)
  ultimately show ?thesis
    by (auto simp: HandleClose_def assertInLoopThread_def wp_simps elim!: safeR_mono)
qed

lemma ConnectDestroyed_keeps:
  assumes "tcp_inv s"
  shows "safeR (ConnectDestroyed cbs x s) tcp_inv"
proof -
  have cb: "safeR (ptrR Use_after_free (conns t x) (\<lambda>c. case tc_conn_cb c of None \<Rightarrow> Inr t
      | Some f \<Rightarrow> call_with_this (cb_conn cbs f) x t)) tcp_inv" if "tcp_inv t" for t
    using that by (auto simp: wp_simps split: option.split intro!: call_with_this_keeps conn_keeps)
  have "safeR (Channel_DisbaleAll (tc_channel c) s) (\<lambda>t. safeR (SetState kDisconnected x t) tcp_inv)"
    if "conns s x = Some c" for c
    using disable_SetState_inv [OF assms that] by (simp add: safeR_bindR)
  moreover have "safeR (SetState kDisconnected x s) tcp_inv" by (rule SetState_Disconnected_inv [OF assms])
  ultimately show ?thesis
    using cb by (auto simp: ConnectDestroyed_def assertInLoopThread_def wp_simps elim!: safeR_mono)
qed

lemma HandleRead_keeps:
  assumes inv: "tcp_inv s"
  shows "safeR (HandleRead k cbs x s) tcp_inv"
proof -
  have rd: "safeR (Buffer_readFd (k_readv k (tick s) fd) None (tc_rev c)) (\<lambda>(n, e, b). Buffer_inv b)"
    if "conns s x = Some c" for c fd
  proof -
    have "Buffer_inv (tc_rev c)" using tcp_inv_conn [OF inv that] by (simp add: conn_ok_def)
    then show ?thesis by (auto simp: safeR_def dest: Buffer_readFd_safe)
  qed
  have sc: "tcp_inv (set_conn x (c\<lparr>tc_rev := b\<rparr>) (s\<lparr>tick := t\<rparr>))"
    if "conns s x = Some c" "Buffer_inv b" for c b t
    using that inv by (intro tcp_inv_set_conn) auto
  show ?thesis
    unfolding HandleRead_def safeR_ptrR safeR_bindR
    by (intro allI impI, rule safeR_mono [OF rd], assumption)
      (auto simp: Let_def HandleError_def split: option.split intro!: sc call_with_this_keeps msg_keeps HandleClose_keeps)
qed

lemma sendInLoop_keeps:
  assumes inv: "tcp_inv s"
  shows "safeR (sendInLoop k cbs x msg s) tcp_inv"
proof -
  have "safeR (sendInLoop k cbs x msg s) tcp_inv"
    if c: "conns s x = Some c" and ch: "chans s (tc_channel c) = Some ch" "ch_fd ch = tc_fd c"
      and thr: "isInLoopThread s" for c ch
  proof -
    have acc: "accepted s x = sent s (tc_fd c) @ Buffer_content (tc_snd c)" "Buffer_inv (tc_snd c)"
      using tcp_inv_conn [OF inv c] by (simp_all add: conn_ok_def)
    show ?thesis
    proof (cases "\<not> isWritingEnabled ch \<and> readableBytes (tc_snd c) = 0")
      case True
      obtain n errno t where w: "sys_write k (tc_fd c) msg s = (n, errno, t)"
        by (cases "sys_write k (tc_fd c) msg s")
      have empty: "Buffer_content (tc_snd c) = []"
        using True acc(2) length_Buffer_content [of "tc_snd c"] by simp
      let ?t = "t\<lparr>accepted := (accepted t)(x := accepted t x @ msg)\<rparr>"
      have rest: "safeR (send_rest x msg m ?t) tcp_inv" if "m = n \<or> (m = 0 \<and> n < 0)" for m
        using that c acc(1) empty sys_write_inv [OF inv c w empty] sys_write_conn [OF w]
        by (intro send_rest_inv [of ?t x c]) (auto simp: sys_write_conn [OF w])
      have all: "tcp_inv ?t" if "int (length msg) \<le> n"
        using that acc(1) empty sys_write_inv [OF inv c w empty] sys_write_conn [OF w] by simp
      have none: "tcp_inv t" if "n < 0"
        using that inv tcp_inv_cong [of t s] sys_write_conn [OF w] by simp
      have eq: "sendInLoop k cbs x msg s =
          (if 0 \<le> n then if n < int (length msg) then send_rest x msg n ?t
                         else bindR (run_writeComplete cbs x ?t) (send_rest x msg n)
           else if errno \<noteq> EWOULDBLOCK then Inr t else send_rest x msg 0 ?t)"
        using True c ch thr w by (simp add: sendInLoop_def assertInLoopThread_def)
      have "safeR (bindR (run_writeComplete cbs x ?t) (send_rest x msg n)) tcp_inv" if "int (length msg) \<le> n"
        using run_writeComplete_keeps [OF all [OF that]] that by (simp add: safeR_bindR send_rest_done)
      then show ?thesis
        unfolding eq using rest [of n] rest [of 0] none by auto
    next
      case False
      have "safeR (send_rest x msg 0 (s\<lparr>accepted := (accepted s)(x := accepted s x @ msg)\<rparr>)) tcp_inv"
      proof (rule send_rest_inv [of _ x c])
        show "tcp_inv (s\<lparr>accepted := (accepted s)(x := accepted s x @ msg),
            accepted := (accepted (s\<lparr>accepted := (accepted s)(x := accepted s x @ msg)\<rparr>))
              (x := sent (s\<lparr>accepted := (accepted s)(x := accepted s x @ msg)\<rparr>) (tc_fd c) @ Buffer_content (tc_snd c))\<rparr>)"
          using inv by (subst tcp_inv_cong [of _ s]) (simp_all add: acc(1) [symmetric])
      qed (use c acc in simp_all)
      with False show ?thesis
        using c ch thr by (auto simp: sendInLoop_def assertInLoopThread_def wp_simps)
    qed
  qed
  moreover have "\<exists>ch. chans s (tc_channel c) = Some ch \<and> ch_fd ch = tc_fd c" if "conns s x = Some c" for c
    using tcp_inv_conn [OF inv that] by (auto simp: conn_ok_def)
  ultimately show ?thesis
    by (cases "conns s x"; cases "isInLoopThread s") (auto simp: sendInLoop_def assertInLoopThread_def ptrR_def)
qed

lemma Send_keeps:
  assumes "tcp_inv s"
  shows "safeR (Send k cbs x a s) tcp_inv"
proof -
  have "safeR (sendInLoop_call k cbs x a s) tcp_inv"
    using assms sendInLoop_keeps by (auto simp: sendInLoop_call_def split: option.split capture.split)
  with assms show ?thesis by (auto simp: Send_def intro: RunInLoop_inv)
qed

lemma write_drained_keeps:
  assumes c: "conns s x = Some c" and ch: "chans s (tc_channel c) = Some ch"
    and inv: "tcp_inv t" "conns t x = Some d" and empty: "Buffer_content (tc_snd c) = []"
    and d: "tc_fd c = tc_fd d" "tc_channel c = tc_channel d" "Buffer_inv (tc_rev c)" "Buffer_inv (tc_snd c)"
      "ch_fd ch = tc_fd c" "accepted s x = sent s (tc_fd c)"
    and frame: "conns s = (conns t)(x \<mapsto> c)" "chans s = chans t"
      "\<And>fd. fd \<noteq> tc_fd d \<Longrightarrow> sent s fd = sent t fd" "accepted s = accepted t"
  shows "safeR (write_drained k cbs x s) tcp_inv"
proof -
  have "tcp_inv s'" if s': "Channel_DisableWriting (tc_channel c) s = Inr s'" for s'
  proof -
    from s' ch obtain i where
      eq: "chans s' = (chans s)(tc_channel c \<mapsto> ch\<lparr>ch_events := ch_events ch AND NOT kWriteEvent, ch_index := i\<rparr>)"
        "conns s' = conns s" "sent s' = sent s" "accepted s' = accepted s"
      unfolding Channel_DisableWriting_def by (rule set_events_conns)
    have "conn_ok s' x c" using d empty by (simp add: conn_ok_def eq)
    then show ?thesis
      using d frame by (intro tcp_inv_update [OF inv, of c]) (simp_all add: eq)
  qed
  then have "safeR (Channel_DisableWriting (tc_channel c) s) tcp_inv" by (simp add: safeR_def)
  then show ?thesis
    using c by (auto simp: write_drained_def wp_simps
        intro!: safeR_mono [OF run_writeComplete_keeps] shutdownInLoop_inv elim!: safeR_mono)
qed

lemma HandleWrite_keeps:
  assumes inv: "tcp_inv s"
  shows "safeR (HandleWrite k cbs x s) tcp_inv"
proof -
  have "safeR (HandleWrite k cbs x s) tcp_inv"
    if c: "conns s x = Some c" and ch: "chans s (tc_channel c) = Some ch" "ch_fd ch = tc_fd c"
      and en: "isWritingEnabled ch" and thr: "isInLoopThread s" for c ch
  proof -
    have ok: "accepted s x = sent s (tc_fd c) @ Buffer_content (tc_snd c)" "Buffer_inv (tc_snd c)"
        "Buffer_inv (tc_rev c)"
      using tcp_inv_conn [OF inv c] by (simp_all add: conn_ok_def)
    obtain n errno t where w: "sys_write k (tc_fd c) (Buffer_content (tc_snd c)) s = (n, errno, t)"
      by (cases "sys_write k (tc_fd c) (Buffer_content (tc_snd c)) s")
    have eq: "HandleWrite k cbs x s = (if 0 < n then bindR (Buffer_retrieve (nat n) (tc_snd c)) (\<lambda>b.
        let s = set_conn x (c\<lparr>tc_snd := b\<rparr>) t
        in if readableBytes b = 0 then write_drained k cbs x s else Inr s) else Inr t)"
      using c ch en thr w by (simp add: HandleWrite_def assertInLoopThread_def take_peek [OF ok(2)])
    have "tcp_inv t" if "\<not> 0 < n"
      using that inv tcp_inv_cong [of t s] sys_write_conn [OF w] by simp
    moreover have "safeR (if readableBytes b = 0 then write_drained k cbs x (set_conn x (c\<lparr>tc_snd := b\<rparr>) t)
        else Inr (set_conn x (c\<lparr>tc_snd := b\<rparr>) t)) tcp_inv"
      if b: "Buffer_retrieve (nat n) (tc_snd c) = Inr b" and n: "0 < n" for b
    proof -
      have B: "Buffer_inv b" "Buffer_content b = drop (nat n) (Buffer_content (tc_snd c))"
        using buffer.remove_safe [OF ok(2) b] by auto
      let ?s = "set_conn x (c\<lparr>tc_snd := b\<rparr>) t"
      have acc: "accepted ?s x = sent ?s (tc_fd c) @ Buffer_content b"
        using ok(1) B(2) by (simp add: set_conn_def sys_write_conn [OF w])
      show ?thesis
      proof (cases "readableBytes b = 0")
        case True
        then have empty: "Buffer_content b = []" using length_Buffer_content [OF B(1)] by simp
        have "safeR (write_drained k cbs x ?s) tcp_inv"
          using ok ch B acc empty
          by (intro write_drained_keeps [OF _ _ inv c, of ?s "c\<lparr>tc_snd := b\<rparr>" ch])
            (simp_all add: set_conn_def sys_write_conn [OF w])
        with True show ?thesis by simp
      next
        case False
        then have "Buffer_content b \<noteq> []" using length_Buffer_content [OF B(1)] by auto
        then have "conn_ok ?s x (c\<lparr>tc_snd := b\<rparr>)"
          using ok ch en B acc by (simp add: conn_ok_def set_conn_def sys_write_conn [OF w])
        then have "tcp_inv ?s"
          by (rule tcp_inv_update [OF inv c, rotated 2]) (simp_all add: set_conn_def sys_write_conn [OF w])
        with False show ?thesis by simp
      qed
    qed
    ultimately show ?thesis
      unfolding eq by (cases "Buffer_retrieve (nat n) (tc_snd c)") (simp_all add: Let_def)
  qed
  moreover have "\<exists>ch. chans s (tc_channel c) = Some ch \<and> ch_fd ch = tc_fd c" if "conns s x = Some c" for c
    using tcp_inv_conn [OF inv that] by (auto simp: conn_ok_def)
  moreover have "safeR (HandleWrite k cbs x s) tcp_inv"
    if "\<And>c ch. conns s x = Some c \<Longrightarrow> chans s (tc_channel c) = Some ch \<Longrightarrow> \<not> (isWritingEnabled ch \<and> isInLoopThread s)"
    using that inv by (auto simp: HandleWrite_def assertInLoopThread_def ptrR_def split: option.split)
  ultimately show ?thesis by (metis option.inject)
qed

end

end
