(* ===== verification/Tcp_Delivery.thy ===== *)
theory Tcp_Delivery
  imports Tcp_Connection
begin

unbundle bit_operations_syntax

text \<open>
  What \<^verbatim>\<open>TcpConnection\<close> does with the data it is given: the exact effect of \<^verbatim>\<open>sendInLoop\<close> and \<^verbatim>\<open>HandleWrite\<close> on
  a connection in use, delivery of everything that waits, and the theorems on sequences of events.
\<close>

section \<open>Exact behaviour\<close>

lemma kRW_bits:
  "e OR kWriteEvent \<noteq> kNoneEvent" "(kReadEvent OR kWriteEvent) AND NOT kWriteEvent = kReadEvent"
  "kReadEvent \<noteq> kNoneEvent" "kReadEvent \<noteq> kReadEvent OR kWriteEvent"
proof -
  have "bit (e OR kWriteEvent) 2" by (simp add: bit_or_iff kWriteEvent_def POLLOUT_def)
  then show "e OR kWriteEvent \<noteq> kNoneEvent" by (auto simp: kNoneEvent_def)
qed (simp_all add: kReadEvent_def kWriteEvent_def kNoneEvent_def poll_bits)

text \<open>A connection in use, without a write-complete callback: registered with the poller for reading,
  and for writing while there is something to send.\<close>

definition conn_live :: "'a tcp_state_scheme \<Rightarrow> nat \<Rightarrow> TcpConnection \<Rightarrow> nat \<Rightarrow> Channel \<Rightarrow> bool" where
  "conn_live s x c i ch \<longleftrightarrow> conns s x = Some c \<and> registered s i (tc_channel c) ch \<and> ch_fd ch = tc_fd c \<and>
     isInLoopThread s \<and> tc_wc_cb c = None \<and> Buffer_inv (tc_snd c) \<and>
     ch_events ch = (if Buffer_content (tc_snd c) = [] then kReadEvent else kReadEvent OR kWriteEvent)"

lemma conn_live_chan: "conn_live s x c i ch \<Longrightarrow> chans s (tc_channel c) = Some ch"
  by (simp add: conn_live_def registered_def)

lemma conn_live_writing:
  "conn_live s x c i ch \<Longrightarrow> isWritingEnabled ch \<longleftrightarrow> Buffer_content (tc_snd c) \<noteq> []"
  by (simp add: conn_live_def isWritingEnabled_def kReadEvent_def kWriteEvent_def poll_bits)

lemma conn_live_empty:
  "conn_live s x c i ch \<Longrightarrow> readableBytes (tc_snd c) = 0 \<longleftrightarrow> Buffer_content (tc_snd c) = []"
  using length_Buffer_content [of "tc_snd c"] by (auto simp: conn_live_def)

lemma conn_liveD:
  assumes "conn_live s x c i ch"
  shows "conns s x = Some c" "chans s (tc_channel c) = Some ch" "registered s i (tc_channel c) ch" "ch_fd ch = tc_fd c"
    "isInLoopThread s" "tc_wc_cb c = None" "Buffer_inv (tc_snd c)" "i < length (pollfds s)" "pfd_fd (pollfds s ! i) = tc_fd c"
  using assms by (auto simp: conn_live_def registered_def)

lemma conn_live_cong:
  assumes "conn_live s x c i ch" "conns s' x = conns s x" "chans s' = chans s" "pollfds s' = pollfds s"
    "channels s' = channels s" "loop_addr s' = loop_addr s" "cur_tid s' = cur_tid s" "threadId s' = threadId s"
  shows "conn_live s' x c i ch"
  using assms by (simp add: conn_live_def registered_def isInLoopThread_def)

lemma conn_live_update:
  assumes live: "conn_live s x c i ch" and other: "conn_live s y d j dh" "conns s' y = conns s y" "y \<noteq> x" and inv: "tcp_inv s"
    and s': "chans s' = (chans s)(tc_channel c \<mapsto> ch')" "ch_index ch' = ch_index ch" "pollfds s' = (pollfds s)[i := p]"
      "channels s' = channels s" "loop_addr s' = loop_addr s" "cur_tid s' = cur_tid s" "threadId s' = threadId s"
  shows "conn_live s' y d j dh"
proof -
  note L = conn_liveD [OF live] and O = conn_liveD [OF other(1)]
  have "tc_channel d \<noteq> tc_channel c" using inv L(1) O(1) other(3) unfolding tcp_inv_def by blast
  then have "j \<noteq> i" using L(3) O(3) by (auto simp: registered_def)
  then show ?thesis
    using other registered_update [OF L(3) s'(1-5)] by (simp add: conn_live_def isInLoopThread_def s')
qed

section \<open>The effect of sending\<close>

text \<open>Sending on a connection in use changes only its send buffer, the events its channel asks for and what is on
  record for it: \<open>w\<close> has been given to the kernel, \<open>q\<close> waits. It makes at most one system call, and the storage of
  the buffer grows by no more than what was added to it.\<close>

definition conn_changed ::
  "nat \<Rightarrow> TcpConnection \<Rightarrow> nat \<Rightarrow> Channel \<Rightarrow> string \<Rightarrow> string \<Rightarrow> 'a tcp_state_scheme \<Rightarrow> 'a tcp_state_scheme \<Rightarrow> bool" where
  "conn_changed x c i ch w q s s' \<longleftrightarrow> tick s \<le> tick s' \<and> tick s' \<le> tick s + 1 \<and> (\<exists>b e p a.
     s' = s\<lparr>tick := tick s', conns := (conns s)(x \<mapsto> c\<lparr>tc_snd := b\<rparr>),
            chans := (chans s)(tc_channel c \<mapsto> ch\<lparr>ch_events := e\<rparr>), pollfds := (pollfds s)[i := p],
            sent := (sent s)(tc_fd c := w), accepted := (accepted s)(x := a)\<rparr> \<and>
     pfd_fd p = tc_fd c \<and> conn_live s' x (c\<lparr>tc_snd := b\<rparr>) i (ch\<lparr>ch_events := e\<rparr>) \<and> Buffer_content b = q \<and>
     length (buffer b) \<le> length (buffer (tc_snd c)) + (length q - length (Buffer_content (tc_snd c))))"

lemma conn_changedI:
  assumes "conn_live s' x (c\<lparr>tc_snd := b\<rparr>) i (ch\<lparr>ch_events := e\<rparr>)" "tick s \<le> tick s'" "tick s' \<le> tick s + 1"
    "s' = s\<lparr>tick := tick s', conns := (conns s)(x \<mapsto> c\<lparr>tc_snd := b\<rparr>),
            chans := (chans s)(tc_channel c \<mapsto> ch\<lparr>ch_events := e\<rparr>), pollfds := (pollfds s)[i := p],
            sent := (sent s)(tc_fd c := w), accepted := (accepted s)(x := a)\<rparr>"
    "pfd_fd p = tc_fd c" "Buffer_content b = q"
    "length (buffer b) \<le> length (buffer (tc_snd c)) + (length q - length (Buffer_content (tc_snd c)))"
  shows "conn_changed x c i ch w q s s'"
  unfolding conn_changed_def using assms by blast

lemma conn_changed_live:
  assumes "conn_changed x c i ch w q s s'"
  shows "\<exists>b ch'. conn_live s' x (c\<lparr>tc_snd := b\<rparr>) i ch' \<and> Buffer_content b = q \<and> sent s' = (sent s)(tc_fd c := w) \<and>
    shut_wr s' = shut_wr s"
proof -
  obtain b e p a where eq: "s' = s\<lparr>tick := tick s', conns := (conns s)(x \<mapsto> c\<lparr>tc_snd := b\<rparr>),
            chans := (chans s)(tc_channel c \<mapsto> ch\<lparr>ch_events := e\<rparr>), pollfds := (pollfds s)[i := p],
            sent := (sent s)(tc_fd c := w), accepted := (accepted s)(x := a)\<rparr>"
    and r: "conn_live s' x (c\<lparr>tc_snd := b\<rparr>) i (ch\<lparr>ch_events := e\<rparr>)" "Buffer_content b = q"
    using assms unfolding conn_changed_def by blast
  have "sent s' = (sent s)(tc_fd c := w)" "shut_wr s' = shut_wr s" by (subst eq; simp)+
  with r show ?thesis by blast
qed

text \<open>Storing a send buffer, with the change of events that goes with it.\<close>

lemma conn_changed_store:
  fixes s :: "'a tcp_state_scheme"
  assumes live: "conn_live s x c i ch" and b: "Buffer_inv b"
      "length (buffer b) \<le> length (buffer (tc_snd c)) + (length (Buffer_content b) - length (Buffer_content (tc_snd c)))"
    and ev: "e = (if Buffer_content b = [] then kReadEvent else kReadEvent OR kWriteEvent)"
    and u: "u = s\<lparr>tick := t, sent := (sent s)(tc_fd c := w), accepted := (accepted s)(x := a)\<rparr>" "tick s \<le> t" "t \<le> tick s + 1"
  shows "okR (if e = ch_events ch then Inr (set_conn x (c\<lparr>tc_snd := b\<rparr>) u)
      else Channel_set_events (\<lambda>_. e) (tc_channel c) (set_conn x (c\<lparr>tc_snd := b\<rparr>) u))
    (\<lambda>s'. conn_changed x c i ch w (Buffer_content b) s s' \<and> tick s' = t)"
proof -
  note D = conn_liveD [OF live]
  let ?v = "set_conn x (c\<lparr>tc_snd := b\<rparr>) u"
  have reg: "registered ?v i (tc_channel c) ch" "isInLoopThread ?v"
    using D by (simp_all add: u(1) set_conn_def registered_def isInLoopThread_def)
  have e: "e \<noteq> kNoneEvent" using ev kRW_bits by (simp split: if_splits)
  define p where "p = (if e = ch_events ch then pollfds s ! i else (pollfds s ! i)\<lparr>pfd_events := ucast e, pfd_revents := 0\<rparr>)"
  define s' where "s' = ?v\<lparr>chans := (chans s)(tc_channel c \<mapsto> ch\<lparr>ch_events := e\<rparr>), pollfds := (pollfds s)[i := p]\<rparr>"
  have "(if e = ch_events ch then Inr ?v else Channel_set_events (\<lambda>_. e) (tc_channel c) ?v) = Inr s'"
  proof (cases "e = ch_events ch")
    case False
    then show ?thesis
      unfolding set_events_registered [OF reg(2,1)] using e by (simp add: s'_def p_def u(1) set_conn_def)
  qed (use D(2) in \<open>simp add: s'_def p_def u(1) set_conn_def fun_upd_idem\<close>)
  moreover have "conn_live s' x (c\<lparr>tc_snd := b\<rparr>) i (ch\<lparr>ch_events := e\<rparr>)"
    using live b(1) by (auto simp: conn_live_def s'_def p_def registered_def isInLoopThread_def u(1) set_conn_def ev)
  then have "conn_changed x c i ch w (Buffer_content b) s s'"
    by (rule conn_changedI [where p = p and w = w and a = a]) (use D u(2,3) b(2) in \<open>simp_all add: s'_def u(1) set_conn_def p_def\<close>)
  moreover have "tick s' = t" by (simp add: s'_def u(1) set_conn_def)
  ultimately show ?thesis by simp
qed

lemma set_events_const: "chans s c = Some ch \<Longrightarrow> Channel_set_events f c s = Channel_set_events (\<lambda>_. f (ch_events ch)) c s"
  by (simp add: Channel_set_events_def)

lemma conn_changed_tick:
  assumes live: "conn_live s x c i ch" and u: "u = s\<lparr>tick := t, sent := (sent s)(tc_fd c := w), accepted := (accepted s)(x := a)\<rparr>" "tick s \<le> t" "t \<le> tick s + 1"
  shows "conn_changed x c i ch w (Buffer_content (tc_snd c)) s u"
  using conn_changed_store [OF live conn_liveD(7) [OF live] _ refl u] live
  by (simp add: conn_live_def set_conn_def u(1) fun_upd_idem split: if_splits)

lemma send_rest_changed:
  assumes live: "conn_live s x c i ch" and n: "0 \<le> n" "n \<le> int (length msg)" and len: "length msg \<le> max_size"
    and u: "u = s\<lparr>tick := t, sent := (sent s)(tc_fd c := w), accepted := (accepted s)(x := a)\<rparr>" "tick s \<le> t" "t \<le> tick s + 1"
  shows "failR (if Buffer_fits msg (tc_snd c) then {} else {Length_error}) (send_rest x msg n u)
    (conn_changed x c i ch w (Buffer_content (tc_snd c) @ drop (nat n) msg) s)"
proof (cases "n < int (length msg)")
  case False
  then have "send_rest x msg n u = Inr u" by (intro send_rest_done) simp
  then show ?thesis using conn_changed_tick [OF live u] False by simp
next
  case True
  note D = conn_liveD [OF live]
  have cu: "conns u x = Some c" "chans u (tc_channel c) = Some ch" using D by (simp_all add: u(1))
  let ?rest = "drop (nat n) msg"
  have ne: "?rest \<noteq> []" using True n by (simp add: nat_less_iff)
  have store: "okR (if \<not> isWritingEnabled ch then Channel_EnableWriting (tc_channel c) (set_conn x (c\<lparr>tc_snd := b\<rparr>) u)
      else Inr (set_conn x (c\<lparr>tc_snd := b\<rparr>) u)) (conn_changed x c i ch w (Buffer_content (tc_snd c) @ ?rest) s)"
    if b: "Buffer_inv b" "Buffer_content b = Buffer_content (tc_snd c) @ ?rest"
      "length (buffer b) \<le> length (buffer (tc_snd c)) + length ?rest" for b
  proof -
    let ?v = "set_conn x (c\<lparr>tc_snd := b\<rparr>) u"
    have ev: "ch_events ch = (if isWritingEnabled ch then kReadEvent OR kWriteEvent else kReadEvent)"
      using live conn_live_writing [OF live] by (simp add: conn_live_def)
    have "chans ?v (tc_channel c) = Some ch" using cu(2) by (simp add: set_conn_def)
    then have "Channel_EnableWriting (tc_channel c) ?v = Channel_set_events (\<lambda>_. ch_events ch OR kWriteEvent) (tc_channel c) ?v"
      unfolding Channel_EnableWriting_def by (rule set_events_const)
    moreover have "Buffer_content b \<noteq> []" using b(2) ne by simp
    ultimately show ?thesis
      using conn_changed_store [OF live b(1) _ refl u] ev b(2,3) kRW_bits(4) by (auto elim!: okR_mono split: if_splits)
  qed
  have chv: "chans (set_conn x (c\<lparr>tc_snd := b\<rparr>) u) (tc_channel c) = Some ch" for b
    using cu(2) by (simp add: set_conn_def)
  have "Buffer_fits msg (tc_snd c) \<Longrightarrow> Buffer_fits ?rest (tc_snd c)" by (simp add: Buffer_fits_def)
  moreover have "failR (if Buffer_fits ?rest (tc_snd c) then {} else {Length_error}) (Buffer_append ?rest (tc_snd c))
      (\<lambda>b. (Buffer_inv b \<and> Buffer_content b = Buffer_content (tc_snd c) @ ?rest) \<and>
        length (buffer b) \<le> length (buffer (tc_snd c)) + length ?rest)"
    using len by (intro failR_safeR [OF Buffer_append_fail Buffer_append_size] D(7)) simp
  ultimately show ?thesis
    using True n(1) cu(1) chv failR_okR [OF store]
    by (cases "Buffer_append ?rest (tc_snd c)") (auto simp: send_rest_def Let_def split: if_splits)
qed

lemma sendInLoop_changed:
  assumes live: "conn_live s x c i ch" and len: "length msg \<le> max_size"
    and w: "k_write k (tick s) (tc_fd c) msg = (n, errno)" "- 1 \<le> n" "n \<le> int (length msg)"
  defines "p \<equiv> Buffer_content (tc_snd c)"
  shows "failR (if Buffer_fits msg (tc_snd c) then {} else {Length_error}) (sendInLoop k cbs x msg s)
    (if p \<noteq> [] then conn_changed x c i ch (sent s (tc_fd c)) (p @ msg) s
     else if 0 \<le> n then conn_changed x c i ch (sent s (tc_fd c) @ take (nat n) msg) (drop (nat n) msg) s
     else conn_changed x c i ch (sent s (tc_fd c)) (if errno = EWOULDBLOCK then msg else []) s)"
proof -
  note D = conn_liveD [OF live]
  show ?thesis
  proof (cases "p = []")
    case False
    let ?u = "s\<lparr>accepted := (accepted s)(x := accepted s x @ msg)\<rparr>"
    have "sendInLoop k cbs x msg s = send_rest x msg 0 ?u"
      using False D conn_live_writing [OF live] by (simp add: sendInLoop_def assertInLoopThread_def p_def)
    then show ?thesis
      using send_rest_changed [OF live, where n = 0 and msg = msg and u = ?u and t = "tick s" and w = "sent s (tc_fd c)"
        and a = "accepted s x @ msg"] len False by (simp add: p_def)
  next
    case True
    let ?w = "sent s (tc_fd c) @ take (nat n) msg" and ?a = "accepted s x @ msg"
    let ?t = "s\<lparr>tick := tick s + 1, sent := (sent s)(tc_fd c := ?w)\<rparr>"
    let ?u = "?t\<lparr>accepted := (accepted s)(x := ?a)\<rparr>"
    have eq: "sendInLoop k cbs x msg s = (if 0 \<le> n then send_rest x msg n ?u
        else if errno \<noteq> EWOULDBLOCK then Inr ?t else send_rest x msg 0 ?u)"
      using True D w conn_live_writing [OF live] conn_live_empty [OF live]
      by (simp add: sendInLoop_def assertInLoopThread_def run_writeComplete_def sys_write_def Let_def p_def)
    have rest: "failR (if Buffer_fits msg (tc_snd c) then {} else {Length_error}) (send_rest x msg m ?u)
        (conn_changed x c i ch ?w (drop (nat m) msg) s)" if "0 \<le> m" "m \<le> int (length msg)" for m
      using send_rest_changed [OF live that len refl, where t = "tick s + 1" and w = ?w and a = ?a] True by (simp add: p_def)
    have "conn_changed x c i ch ?w [] s ?t"
      using conn_changed_tick [OF live, where u = ?t and t = "tick s + 1" and w = ?w and a = "accepted s x"] True by (simp add: p_def)
    then show ?thesis using True eq rest [of n] rest [of 0] w(2,3) by (cases "0 \<le> n") (simp_all add: p_def)
  qed
qed

lemma sendInLoop_live:
  assumes live: "conn_live s x c i ch" and fits: "Buffer_fits msg (tc_snd c)"
    and w: "k_write k (tick s) (tc_fd c) msg = (n, errno)" "- 1 \<le> n" "n \<le> int (length msg)"
  shows "\<exists>s' b ch'. sendInLoop k cbs x msg s = Inr s' \<and> conn_live s' x (c\<lparr>tc_snd := b\<rparr>) i ch' \<and>
    (if Buffer_content (tc_snd c) \<noteq> []
     then sent s' = sent s \<and> Buffer_content b = Buffer_content (tc_snd c) @ msg
     else if 0 \<le> n
     then sent s' = (sent s)(tc_fd c := sent s (tc_fd c) @ take (nat n) msg) \<and> Buffer_content b = drop (nat n) msg
     else sent s' = sent s \<and> Buffer_content b = (if errno = EWOULDBLOCK then msg else []))"
proof -
  have len: "length msg \<le> max_size" using fits by (simp add: Buffer_fits_def)
  obtain s' where s': "sendInLoop k cbs x msg s = Inr s'"
    using sendInLoop_changed [OF live len w] fits by (auto simp flip: okR_failR simp: okR_def)
  show ?thesis
    using sendInLoop_changed [OF live len w, of cbs] s'
    by (auto dest!: conn_changed_live split: if_splits)
qed

lemma HandleWrite_changed:
  assumes live: "conn_live s x c i ch"
    and w: "k_write k (tick s) (tc_fd c) (Buffer_content (tc_snd c)) = (n, errno)" "n \<le> int (length (Buffer_content (tc_snd c)))"
  defines "p \<equiv> Buffer_content (tc_snd c)"
  shows "\<exists>t. conn_changed x c i ch (sent s (tc_fd c) @ take (nat n) p) (drop (nat n) p) s t \<and>
    tick t = (if p = [] then tick s else tick s + 1) \<and>
    HandleWrite k cbs x s = Inr (if p \<noteq> [] \<and> drop (nat n) p = [] \<and> tc_state c = kDisconnecting
      then Socket_ShutdownWrite k (tc_fd c) t else t)"
proof (cases "p = []")
  case True
  then have "HandleWrite k cbs x s = Inr s"
    using conn_liveD [OF live] conn_live_writing [OF live] by (simp add: HandleWrite_def assertInLoopThread_def p_def)
  then show ?thesis
    using conn_changed_tick [OF live, where u = s and t = "tick s" and w = "sent s (tc_fd c)" and a = "accepted s x"] True
    by (intro exI [of _ s]) (simp add: p_def)
next
  case False
  note D = conn_liveD [OF live]
  let ?w = "sent s (tc_fd c) @ take (nat n) p"
  let ?u = "s\<lparr>tick := tick s + 1, sent := (sent s)(tc_fd c := ?w)\<rparr>"
  have ev: "ch_events ch = kReadEvent OR kWriteEvent" using live False by (simp add: conn_live_def p_def)
  have eq: "HandleWrite k cbs x s = (if 0 < n then bindR (Buffer_retrieve (nat n) (tc_snd c)) (\<lambda>b.
      let s = set_conn x (c\<lparr>tc_snd := b\<rparr>) ?u in if readableBytes b = 0 then write_drained k cbs x s else Inr s) else Inr ?u)"
    using False D conn_live_writing [OF live] w(1) by (simp add: HandleWrite_def assertInLoopThread_def sys_write_def take_peek p_def)
  show ?thesis
  proof (cases "0 < n")
    case np: False
    then show ?thesis
      using eq False conn_changed_tick [OF live, where u = ?u and t = "tick s + 1" and w = ?w and a = "accepted s x"]
      by (intro exI [of _ ?u]) (simp add: p_def)
  next
    case True
    then have "nat n \<le> length p" using w(2) by (simp add: p_def nat_le_iff)
    then obtain b where b: "Buffer_retrieve (nat n) (tc_snd c) = Inr b" "Buffer_inv b" "Buffer_content b = drop (nat n) p"
        "length (buffer b) = length (buffer (tc_snd c))"
      using Buffer_retrieve_ok [OF D(7)] Buffer_retrieve_size by (fastforce simp: p_def)
    let ?v = "set_conn x (c\<lparr>tc_snd := b\<rparr>) ?u"
    have rb: "readableBytes b = 0 \<longleftrightarrow> drop (nat n) p = []" using length_Buffer_content [OF b(2)] b(3) by auto
    have cv: "conns ?v x = Some (c\<lparr>tc_snd := b\<rparr>)" "chans ?v (tc_channel c) = Some ch" using D by (simp_all add: set_conn_def)
    note store = conn_changed_store [OF live b(2) _ refl, where u = ?u and t = "tick s + 1" and w = ?w and a = "accepted s x"]
    show ?thesis
    proof (cases "drop (nat n) p = []")
      case ne: False
      then have "HandleWrite k cbs x s = Inr ?v" "conn_changed x c i ch ?w (drop (nat n) p) s ?v"
        using eq True b rb store ev by simp_all
      then show ?thesis using ne False by (intro exI [of _ ?v]) (simp add: set_conn_def)
    next
      case empty: True
      have "Channel_DisableWriting (tc_channel c) ?v = Channel_set_events (\<lambda>_. kReadEvent) (tc_channel c) ?v"
        unfolding Channel_DisableWriting_def
        using set_events_const [OF cv(2), of "\<lambda>e. e AND NOT kWriteEvent"] ev kRW_bits(2) by simp
      then obtain t where t: "Channel_DisableWriting (tc_channel c) ?v = Inr t" "conn_changed x c i ch ?w [] s t" "tick t = tick s + 1"
        using store b(3,4) empty ev kRW_bits(4) by (auto simp: okR_def)
      obtain b' ch' where l: "conn_live t x (c\<lparr>tc_snd := b'\<rparr>) i ch'" "Buffer_content b' = []"
        using conn_changed_live [OF t(2)] by blast
      have "write_drained k cbs x ?v = Inr (if tc_state c = kDisconnecting then Socket_ShutdownWrite k (tc_fd c) t else t)"
        using t(1) cv(1) conn_liveD [OF l(1)] conn_live_writing [OF l(1)] l(2)
        by (simp add: write_drained_def run_writeComplete_def shutdownInLoop_def assertInLoopThread_def)
      then show ?thesis using eq True b rb t empty False by (intro exI [of _ t]) simp
    qed
  qed
qed

lemma HandleWrite_live:
  assumes live: "conn_live s x c i ch" and ne: "Buffer_content (tc_snd c) \<noteq> []"
    and w: "k_write k (tick s) (tc_fd c) (Buffer_content (tc_snd c)) = (n, errno)" "1 \<le> n"
      "n \<le> int (length (Buffer_content (tc_snd c)))"
  shows "\<exists>s' b ch'. HandleWrite k cbs x s = Inr s' \<and> conn_live s' x (c\<lparr>tc_snd := b\<rparr>) i ch' \<and>
    Buffer_content b = drop (nat n) (Buffer_content (tc_snd c)) \<and>
    sent s' = (sent s)(tc_fd c := sent s (tc_fd c) @ take (nat n) (Buffer_content (tc_snd c))) \<and>
    shut_wr s' = (if Buffer_content b = [] \<and> tc_state c = kDisconnecting \<and> 0 \<le> k_call k (tick s + 1)
                  then insert (tc_fd c) (shut_wr s) else shut_wr s)"
proof -
  let ?p = "Buffer_content (tc_snd c)"
  obtain t where t: "conn_changed x c i ch (sent s (tc_fd c) @ take (nat n) ?p) (drop (nat n) ?p) s t" "tick t = tick s + 1"
    "HandleWrite k cbs x s = Inr (if drop (nat n) ?p = [] \<and> tc_state c = kDisconnecting
      then Socket_ShutdownWrite k (tc_fd c) t else t)" (is "_ = Inr ?r")
    using HandleWrite_changed [OF live w(1,3), of cbs] ne by auto
  obtain b ch' where b: "conn_live t x (c\<lparr>tc_snd := b\<rparr>) i ch'" "Buffer_content b = drop (nat n) ?p"
      "sent t = (sent s)(tc_fd c := sent s (tc_fd c) @ take (nat n) ?p)" "shut_wr t = shut_wr s"
    using conn_changed_live [OF t(1)] by blast
  have "conn_live ?r x (c\<lparr>tc_snd := b\<rparr>) i ch'"
    by (rule conn_live_cong [OF b(1)]) (simp_all add: Socket_ShutdownWrite_def Let_def)
  then show ?thesis
    using t(2,3) b(2-4) by (intro exI [of _ ?r] exI [of _ b] exI [of _ ch']) (simp add: Socket_ShutdownWrite_def Let_def)
qed

text \<open>A kernel that takes at least a byte whenever it is offered one.\<close>

definition write_progress :: "kernel \<Rightarrow> bool" where
  "write_progress k \<longleftrightarrow> (\<forall>t fd bs. bs \<noteq> [] \<longrightarrow>
     1 \<le> fst (k_write k t fd bs) \<and> fst (k_write k t fd bs) \<le> int (length bs))"

lemma drain_live:
  assumes k: "write_progress k" "\<And>t. 0 \<le> k_call k t" and m: "length (Buffer_content (tc_snd c)) \<le> length ws"
    and live: "conn_live s x c i ch"
  shows "\<exists>s' b ch'. foldR (\<lambda>_. HandleWrite k cbs x) ws s = Inr s' \<and> conn_live s' x (c\<lparr>tc_snd := b\<rparr>) i ch' \<and>
    Buffer_content b = [] \<and> sent s' = (sent s)(tc_fd c := sent s (tc_fd c) @ Buffer_content (tc_snd c)) \<and>
    shut_wr s' = (if Buffer_content (tc_snd c) \<noteq> [] \<and> tc_state c = kDisconnecting
                  then insert (tc_fd c) (shut_wr s) else shut_wr s)"
  using m live
proof (induction ws arbitrary: s c ch)
  case Nil
  then show ?case by (intro exI [of _ s] exI [of _ "tc_snd c"] exI [of _ ch]) auto
next
  case (Cons w ws)
  let ?p = "Buffer_content (tc_snd c)"
  show ?case
  proof (cases "?p = []")
    case True
    then have "HandleWrite k cbs x s = Inr s"
      using conn_live_chan [OF Cons.prems(2)] conn_live_writing [OF Cons.prems(2)] Cons.prems(2)
      by (simp add: HandleWrite_def assertInLoopThread_def conn_live_def)
    with Cons.IH [OF _ Cons.prems(2)] True show ?thesis by simp
  next
    case False
    obtain n errno where w: "k_write k (tick s) (tc_fd c) ?p = (n, errno)"
      by (cases "k_write k (tick s) (tc_fd c) ?p")
    with k(1) False have n: "1 \<le> n" "n \<le> int (length ?p)"
      unfolding write_progress_def by (metis fst_conv)+
    obtain t b chb where t: "HandleWrite k cbs x s = Inr t" "conn_live t x (c\<lparr>tc_snd := b\<rparr>) i chb"
        "Buffer_content b = drop (nat n) ?p" "sent t = (sent s)(tc_fd c := sent s (tc_fd c) @ take (nat n) ?p)"
        "shut_wr t = (if Buffer_content b = [] \<and> tc_state c = kDisconnecting then insert (tc_fd c) (shut_wr s) else shut_wr s)"
      using HandleWrite_live [OF Cons.prems(2) False w n, of cbs, unfolded eqTrueI [OF k(2)] simp_thms]
      by (elim exE conjE) blast
    have "length (drop (nat n) ?p) \<le> length ws" using Cons.prems(1) n by simp
    then have "length (Buffer_content (tc_snd (c\<lparr>tc_snd := b\<rparr>))) \<le> length ws" using t(3) by simp
    let ?c = "c\<lparr>tc_snd := b\<rparr>"
    obtain s' b' ch' where s': "foldR (\<lambda>_. HandleWrite k cbs x) ws t = Inr s'"
        "conn_live s' x (?c\<lparr>tc_snd := b'\<rparr>) i ch'" "Buffer_content b' = []"
        "sent s' = (sent t)(tc_fd ?c := sent t (tc_fd ?c) @ Buffer_content (tc_snd ?c))"
        "shut_wr s' = (if Buffer_content (tc_snd ?c) \<noteq> [] \<and> tc_state ?c = kDisconnecting
           then insert (tc_fd ?c) (shut_wr t) else shut_wr t)"
      using Cons.IH [OF \<open>length (Buffer_content (tc_snd ?c)) \<le> length ws\<close> t(2)] by blast
    have "sent s' = (sent s)(tc_fd c := sent s (tc_fd c) @ ?p)" by (simp add: s'(4) t(3,4))
    moreover have "shut_wr s' = (if tc_state c = kDisconnecting then insert (tc_fd c) (shut_wr s) else shut_wr s)"
      by (simp add: s'(5) t(5))
    ultimately show ?thesis
      using s'(1-3) t(1) False by (intro exI [of _ s'] exI [of _ b'] exI [of _ ch']) simp
  qed
qed

section \<open>Properties\<close>

text \<open>What can happen to a connection: its channel reports an event, or someone calls it.\<close>

datatype conn_event = Ev_read | Ev_write | Ev_close | Ev_send nat | Ev_shutdown | Ev_destroyed

fun conn_event_run ::
  "kernel \<Rightarrow> 'a tcp_state_scheme callbacks \<Rightarrow> nat \<times> conn_event \<Rightarrow> 'a tcp_state_scheme \<Rightarrow>
   'a tcp_state_scheme result" where
  "conn_event_run k cbs (x, Ev_read) s = HandleRead k cbs x s"
| "conn_event_run k cbs (x, Ev_write) s = HandleWrite k cbs x s"
| "conn_event_run k cbs (x, Ev_close) s = HandleClose cbs x s"
| "conn_event_run k cbs (x, Ev_send a) s = Send k cbs x a s"
| "conn_event_run k cbs (x, Ev_shutdown) s = Shutdown k x s"
| "conn_event_run k cbs (x, Ev_destroyed) s = ConnectDestroyed cbs x s"

text \<open>A loop with one connection to descriptor 20, with \<open>p\<close> waiting to be sent, for concrete runs.\<close>

definition demo_conn :: "string \<Rightarrow> State \<Rightarrow> TcpConnection" where
  "demo_conn p st =
     \<lparr>tc_name = ''demo#0'', tc_state = st, tc_fd = 20, tc_channel = 5,
      tc_local = \<lparr>sin_port = 0, sin_addr = 0\<rparr>, tc_remote = \<lparr>sin_port = 0, sin_addr = 0\<rparr>,
      tc_conn_cb = None, tc_msg_cb = None, tc_close_cb = None, tc_wc_cb = None,
      tc_rev = \<lparr>buffer = replicate 16 (CHR ''z''), readerIndex = 8, writerIndex = 8\<rparr>,
      tc_snd = \<lparr>buffer = replicate 8 (CHR ''z'') @ p, readerIndex = 8, writerIndex = 8 + length p\<rparr>, tc_uses = 1\<rparr>"

definition demo_channel :: "string \<Rightarrow> Channel" where
  "demo_channel p = (Channel_new 0 20)\<lparr>ch_index := 0, ch_read_cb := Some (Conn_HandleRead_fn 1),
     ch_write_cb := Some (Conn_HandleWrite_fn 1), ch_close_cb := Some (Conn_HandleClose_fn 1),
     ch_events := (if p = [] then kReadEvent else kReadEvent OR kWriteEvent)\<rparr>"

definition demo_state :: "string \<Rightarrow> State \<Rightarrow> tcp_state" where
  "demo_state p st =
     \<lparr>tick = 0, cur_tid = 7, chans = [5 \<mapsto> demo_channel p],
      pollfds = [\<lparr>pfd_fd = 20, pfd_events = ucast (ch_events (demo_channel p)), pfd_revents = 0\<rparr>],
      channels = [20 \<mapsto> 5], loop_addr = 0, threadId = 7, looping = True, quit_flag = False,
      active_channels = [], wakeup_fd = 9, wakeup_count = 0, functors = [],
      captures = [0 \<mapsto> Captured_string ''hello''], next_capture = 1,
      timers = [], timerfd = 8, timerfd_channel = 1, timer_armed = None, CreatedNum = 0, wakeup_channel = 2,
      t_loopInThisThread = Some 0, conns = [1 \<mapsto> demo_conn p st], sent = (\<lambda>_. []),
      accepted = (\<lambda>_. p), shut_wr = {}\<rparr>"

definition no_callbacks :: "'s callbacks" where
  "no_callbacks = \<lparr>cb_conn = (\<lambda>_ _ s. Inr s), cb_close = (\<lambda>_ _ s. Inr s), cb_msg = (\<lambda>_ _ _ s. Inr s)\<rparr>"

lemma demo_facts:
  assumes "length p \<le> 100"
  shows "conn_live (demo_state p st) 1 (demo_conn p st) 0 (demo_channel p)" "Buffer_content (tc_snd (demo_conn p st)) = p"
    "tcp_inv (demo_state p st)" "Buffer_inv (tc_rev (demo_conn p st))"
proof -
  show c: "Buffer_content (tc_snd (demo_conn p st)) = p"
    by (simp add: demo_conn_def Buffer_content_def)
  have b: "Buffer_inv (tc_snd (demo_conn p st))"
    using assms by (simp add: demo_conn_def Buffer_inv_def kCheapPrepend_def max_size_def)
  show r: "Buffer_inv (tc_rev (demo_conn p st))"
    by (simp add: demo_conn_def Buffer_inv_def kCheapPrepend_def max_size_def)
  show live: "conn_live (demo_state p st) 1 (demo_conn p st) 0 (demo_channel p)"
    unfolding conn_live_def c using b
    by (simp add: demo_state_def registered_def demo_conn_def isInLoopThread_def demo_channel_def Channel_new_def)
  have "conn_ok (demo_state p st) 1 (demo_conn p st)"
    using conn_live_chan [OF live] conn_live_writing [OF live] live c b r
    by (simp add: conn_ok_def conn_live_def) (simp add: demo_state_def)
  then show "tcp_inv (demo_state p st)" by (simp add: tcp_inv_def) (simp add: demo_state_def)
qed

lemma no_callbacks_keep: "connection_callbacks no_callbacks"
  by unfold_locales (simp_all add: no_callbacks_def)

text \<open>C2: for any sequence of events and calls on any connections, with callbacks that keep the
  invariant: unless the program has failed, the bytes accepted for sending on a connection are
  exactly those given to the kernel followed by those in the send buffer, in order and without loss
  or duplication, and the channel asks for writability exactly while there is something to send.\<close>

theorem TcpConnection_stream_integrity:
  assumes "connection_callbacks cbs" and "tcp_inv s"
  shows "safeR (foldR (conn_event_run k cbs) evs s) (\<lambda>s'. tcp_inv s' \<and>
    (\<forall>x c. conns s' x = Some c \<longrightarrow> accepted s' x = sent s' (tc_fd c) @ Buffer_content (tc_snd c)))"
proof -
  have "safeR (conn_event_run k cbs e t) tcp_inv" if "tcp_inv t" for e t
    using that assms(1)
    by (cases "(k, cbs, e, t)" rule: conn_event_run.cases)
      (auto intro: connection_callbacks.HandleRead_keeps connection_callbacks.HandleWrite_keeps
        connection_callbacks.HandleClose_keeps connection_callbacks.Send_keeps Shutdown_inv
        connection_callbacks.ConnectDestroyed_keeps)
  then have "safeR (foldR (conn_event_run k cbs) evs s) tcp_inv"
    using assms(2) by (intro foldR_safe)
  then show ?thesis by (rule safeR_mono) (auto simp: tcp_inv_def conn_ok_def)
qed

theorem TcpConnection_stream_integrity_witness:
  "connection_callbacks (no_callbacks :: tcp_state callbacks) \<and> tcp_inv (demo_state ''abc'' kConnected) \<and>
   safeR (foldR (conn_event_run null_kernel no_callbacks) [(1, Ev_write), (1, Ev_send 0)] (demo_state ''abc'' kConnected)) tcp_inv"
  using TcpConnection_stream_integrity [OF no_callbacks_keep demo_facts(3), of "''abc''" null_kernel
      "[(1, Ev_write), (1, Ev_send 0)]" kConnected] no_callbacks_keep demo_facts(3) [of "''abc''" kConnected]
  by (auto elim!: safeR_mono)

text \<open>C4: sending on a connection in use never fails: with data still waiting the message is put behind
  it; otherwise it is offered to the kernel, what is not taken waits in the send buffer and writability
  is asked for; a message refused with an error other than \<^verbatim>\<open>EWOULDBLOCK\<close> is dropped.\<close>

theorem sendInLoop_correct:
  assumes "conn_live s x c i ch" and "Buffer_fits msg (tc_snd c)"
    and "k_write k (tick s) (tc_fd c) msg = (n, errno)" "- 1 \<le> n" "n \<le> int (length msg)"
  shows "\<exists>s' b ch'. sendInLoop k cbs x msg s = Inr s' \<and> conn_live s' x (c\<lparr>tc_snd := b\<rparr>) i ch' \<and>
    (if Buffer_content (tc_snd c) \<noteq> []
     then sent s' = sent s \<and> Buffer_content b = Buffer_content (tc_snd c) @ msg
     else if 0 \<le> n
     then sent s' = (sent s)(tc_fd c := sent s (tc_fd c) @ take (nat n) msg) \<and> Buffer_content b = drop (nat n) msg
     else sent s' = sent s \<and> Buffer_content b = (if errno = EWOULDBLOCK then msg else []))"
  using assms by (rule sendInLoop_live)

theorem sendInLoop_correct_witness:
  "\<exists>s' b ch'. sendInLoop (null_kernel\<lparr>k_write := (\<lambda>_ _ _. (2, 0))\<rparr>) no_callbacks 1 ''hello'' (demo_state [] kConnected) = Inr s' \<and>
     conn_live s' 1 ((demo_conn [] kConnected)\<lparr>tc_snd := b\<rparr>) 0 ch' \<and> Buffer_content b = ''llo'' \<and> sent s' 20 = ''he''"
proof -
  let ?k = "null_kernel\<lparr>k_write := (\<lambda>_ _ _. (2, 0))\<rparr>"
  have "Buffer_fits ''hello'' (tc_snd (demo_conn [] kConnected))"
    by (simp add: Buffer_fits_def demo_conn_def max_size_def)
  moreover have "k_write ?k (tick (demo_state [] kConnected)) (tc_fd (demo_conn [] kConnected)) ''hello'' = (2, 0)"
    by simp
  moreover have "Buffer_content (tc_snd (demo_conn [] kConnected)) = []" "sent (demo_state [] kConnected) = (\<lambda>_. [])"
      "tc_fd (demo_conn [] kConnected) = 20"
    using demo_facts(2) [of "[]"] by (simp_all add: demo_state_def demo_conn_def)
  ultimately show ?thesis
    using sendInLoop_correct [OF demo_facts(1), of "[]" "''hello''" kConnected ?k 2 0 no_callbacks] by fastforce
qed

text \<open>C3: pending data is delivered: if the kernel takes at least a byte each time it is asked, then after
  as many writability events as there are bytes waiting (fewer may do) everything has been given to
  the kernel in order, writability is no longer asked for, and a connection being shut down has its
  sending side closed.\<close>

theorem HandleWrite_drains:
  assumes "write_progress k" and "\<And>t. 0 \<le> k_call k t" and "length (Buffer_content (tc_snd c)) \<le> length ws"
    and "conn_live s x c i ch"
  shows "\<exists>s' b ch'. foldR (\<lambda>_. HandleWrite k cbs x) ws s = Inr s' \<and> conn_live s' x (c\<lparr>tc_snd := b\<rparr>) i ch' \<and>
    \<not> isWritingEnabled ch' \<and> Buffer_content b = [] \<and>
    sent s' = (sent s)(tc_fd c := sent s (tc_fd c) @ Buffer_content (tc_snd c)) \<and>
    shut_wr s' = (if Buffer_content (tc_snd c) \<noteq> [] \<and> tc_state c = kDisconnecting
                  then insert (tc_fd c) (shut_wr s) else shut_wr s)"
proof -
  obtain s' b ch' where s': "foldR (\<lambda>_. HandleWrite k cbs x) ws s = Inr s'" "conn_live s' x (c\<lparr>tc_snd := b\<rparr>) i ch'"
    "Buffer_content b = []" "sent s' = (sent s)(tc_fd c := sent s (tc_fd c) @ Buffer_content (tc_snd c))"
    "shut_wr s' = (if Buffer_content (tc_snd c) \<noteq> [] \<and> tc_state c = kDisconnecting
                  then insert (tc_fd c) (shut_wr s) else shut_wr s)"
    using drain_live [OF assms(1) _ assms(3,4), of cbs] assms(2) by blast
  then have "\<not> isWritingEnabled ch'" using conn_live_writing [OF s'(2)] by simp
  with s' show ?thesis by blast
qed

theorem HandleWrite_drains_witness:
  "\<exists>s'. foldR (\<lambda>_. HandleWrite (null_kernel\<lparr>k_write := (\<lambda>_ _ bs. (1, 0))\<rparr>) no_callbacks 1) [(), (), ()]
      (demo_state ''abc'' kDisconnecting) = Inr s' \<and> sent s' 20 = ''abc'' \<and> 20 \<in> shut_wr s'"
proof -
  let ?k = "null_kernel\<lparr>k_write := (\<lambda>_ _ bs. (1, 0))\<rparr>"
  have k: "write_progress ?k" "0 \<le> k_call ?k t" for t
    by (auto simp: write_progress_def null_kernel_def Suc_le_eq simp flip: length_greater_0_conv)
  have d: "Buffer_content (tc_snd (demo_conn ''abc'' kDisconnecting)) = ''abc''"
      "sent (demo_state ''abc'' kDisconnecting) = (\<lambda>_. [])" "tc_fd (demo_conn ''abc'' kDisconnecting) = 20"
      "tc_state (demo_conn ''abc'' kDisconnecting) = kDisconnecting"
    using demo_facts(2) [of "''abc''"] by (simp_all add: demo_state_def demo_conn_def)
  have live: "conn_live (demo_state ''abc'' kDisconnecting) 1 (demo_conn ''abc'' kDisconnecting) 0 (demo_channel ''abc'')"
    by (rule demo_facts(1)) simp
  show ?thesis
    using HandleWrite_drains [OF k _ live, where ws = "[(), (), ()]" and cbs = no_callbacks] d by fastforce
qed

text \<open>C38: the sending side of a connection in use is closed only when everything accepted for sending
  has been given to the kernel.\<close>

theorem shutdown_after_drain:
  assumes "tcp_inv s" and "conns s x = Some c" and "tc_state c \<noteq> kDisconnected"
    and "shutdownInLoop k x s = Inr s'" and "shut_wr s' \<noteq> shut_wr s"
  shows "shut_wr s' = insert (tc_fd c) (shut_wr s) \<and> accepted s x = sent s (tc_fd c)"
  using tcp_inv_conn [OF assms(1,2)] assms
  by (auto simp: shutdownInLoop_def conn_ok_def assertInLoopThread_def Socket_ShutdownWrite_def Let_def
      split: if_splits)

theorem shutdown_after_drain_witness:
  "\<exists>s'. shutdownInLoop null_kernel 1 (demo_state [] kDisconnecting) = Inr s' \<and> shut_wr s' = {20} \<and>
     accepted (demo_state [] kDisconnecting) 1 = sent (demo_state [] kDisconnecting) 20"
proof -
  let ?s = "demo_state [] kDisconnecting" and ?c = "demo_conn [] kDisconnecting"
  have live: "conn_live ?s 1 ?c 0 (demo_channel [])" and inv: "tcp_inv ?s"
    by (rule demo_facts; simp)+
  have c: "conns ?s 1 = Some ?c" "tc_state ?c \<noteq> kDisconnected" "tc_fd ?c = 20" "shut_wr ?s = {}" "isInLoopThread ?s"
    by (simp_all add: demo_state_def demo_conn_def isInLoopThread_def)
  have w: "\<not> isWritingEnabled (demo_channel [])"
    using conn_live_writing [OF live] demo_facts(2) [of "[]"] by simp
  have r: "shutdownInLoop null_kernel 1 ?s = Inr (Socket_ShutdownWrite null_kernel 20 ?s)"
    using c w conn_live_chan [OF live] by (simp add: shutdownInLoop_def assertInLoopThread_def)
  have n: "shut_wr (Socket_ShutdownWrite null_kernel 20 ?s) \<noteq> shut_wr ?s"
    using c by (simp add: Socket_ShutdownWrite_def null_kernel_def)
  show ?thesis using shutdown_after_drain [OF inv c(1,2) r n] r c by auto
qed

text \<open>\<^verbatim>\<open>Send\<close> does not look at the state: on a connection that has been closed (and is kept alive by the
  user) a message the kernel does not take at once runs into the poller's assertion, since the
  channel is no longer registered.\<close>

lemma Send_after_close_fails:
  assumes live: "conn_live s x c i ch" and st: "tc_state c = kConnected" "tc_close_cb c = None"
    and empty: "Buffer_content (tc_snd c) = []" and fits: "Buffer_fits msg (tc_snd c)"
    and w: "k_write k (tick s) (tc_fd c) msg = (n, errno)" "0 \<le> n" "n < int (length msg)"
  shows "bindR (HandleClose cbs x s) (sendInLoop k cbs x msg) = Inl Assertion_failed"
proof -
  have reg: "registered s i (tc_channel c) ch" and thr: "isInLoopThread s" and c: "conns s x = Some c"
    and b: "Buffer_inv (tc_snd c)" and fd: "ch_fd ch = tc_fd c"
    using live by (simp_all add: conn_live_def)
  let ?ch = "ch\<lparr>ch_events := kNoneEvent\<rparr>" and ?c = "c\<lparr>tc_state := kDisconnected\<rparr>"
  let ?t = "set_conn x ?c (s\<lparr>chans := (chans s)(tc_channel c \<mapsto> ?ch), channels := (channels s)(ch_fd ch := None),
      pollfds := take i (pollfds s) @ drop (Suc i) (pollfds s)\<rparr>)"
  have cl: "HandleClose cbs x s = Inr ?t"
    using thr c st set_events_registered [OF thr reg, of "\<lambda>_. kNoneEvent"]
    by (simp add: HandleClose_def assertInLoopThread_def Channel_DisbaleAll_def SetState_def set_conn_def)
  have "Buffer_fits (drop (nat n) msg) (tc_snd c)" using fits by (simp add: Buffer_fits_def)
  then obtain b' where b': "Buffer_append (drop (nat n) msg) (tc_snd c) = Inr b'"
    using buffer.add_total [OF b] by blast
  have "sendInLoop k cbs x msg ?t = Inl Assertion_failed"
    using thr c w b' empty fd reg length_Buffer_content [OF b]
    by (simp add: sendInLoop_def assertInLoopThread_def isInLoopThread_def set_conn_def isWritingEnabled_def
        kNoneEvent_def sys_write_def send_rest_def Channel_EnableWriting_def Channel_set_events_def
        EventLoop_update_def Poller_UpdateChannel_def registered_def assertR_def)
  then show ?thesis by (simp add: cl)
qed

text \<open>\<^verbatim>\<open>Send\<close> from another thread only queues a lambda that holds a reference to the caller's string: once the
  string is destroyed, running the lambda reads it out of dead memory.\<close>

lemma Send_other_thread_dangles:
  assumes "\<not> isInLoopThread s"
  shows "\<exists>s'. Send k cbs x a s = Inr s' \<and> functors s' = functors s @ [Conn_sendInLoop_fn x a] \<and> accepted s' = accepted s \<and>
    (\<forall>t. sendInLoop_call k cbs x a (s'\<lparr>cur_tid := t, captures := (captures s')(a := None)\<rparr>) = Inl Dangling_reference)"
  using assms by (simp add: Send_def EventLoop_RunInLoop_def sendInLoop_call_def EventLoop_wakeup_def push_functor_def Let_def)

end
