(* ===== verification/Acceptor.thy ===== *)
theory Acceptor
  imports Tcp_Delivery
begin

unbundle bit_operations_syntax

text \<open>
  \<^verbatim>\<open>Socket\<close> (net/socket.h, net/socket.cc) and \<^verbatim>\<open>Acceptor\<close> (net/acceptor.h, net/acceptor.cc). \<^verbatim>\<open>LOG_FATAL\<close> only
  logs; it is the \<^verbatim>\<open>abort\<close> after it that ends the program (\<open>Aborted\<close>). Two ghosts record what the kernel was asked to
  do: the address a descriptor was bound to and the descriptors that listen.
\<close>

section \<open>State\<close>

text \<open>\<open>new_conn_callback\<close> tells whether a callback is set; the only one that is ever set is the lambda of
  \<^verbatim>\<open>TcpServer::Start\<close>, a parameter of \<open>Acceptor_handleRead\<close>.\<close>

record acceptor_state = tcp_state +
  bound_to :: "int \<Rightarrow> sockaddr_in option"
  listening :: "int set"
  listen_socket :: int
  listen_channel :: nat
  new_conn_callback :: bool

section \<open>\<open>Socket\<close>\<close>

definition NewNonBlockingSocket ::
  "kernel \<Rightarrow> 'a acceptor_state_scheme \<Rightarrow> (int \<times> 'a acceptor_state_scheme) result" where
  "NewNonBlockingSocket k s =
     (let sockfd = k_call k (tick s); s = s\<lparr>tick := tick s + 1\<rparr>
      in if sockfd = - 1 then Inl Aborted else Inr (sockfd, s))"

definition Socket_Bind ::
  "kernel \<Rightarrow> int \<Rightarrow> sockaddr_in \<Rightarrow> 'a acceptor_state_scheme \<Rightarrow> 'a acceptor_state_scheme result" where
  "Socket_Bind k sockfd addr s =
     (let ret = k_call k (tick s); s = s\<lparr>tick := tick s + 1\<rparr>
      in if ret = - 1 then Inl Aborted
         else Inr (s\<lparr>bound_to := (bound_to s)(sockfd \<mapsto> SockAddress addr)\<rparr>))"

text \<open>The destructor closes the descriptor.\<close>

definition Socket_delete :: "int \<Rightarrow> 'a acceptor_state_scheme \<Rightarrow> 'a acceptor_state_scheme" where
  "Socket_delete sockfd s =
     s\<lparr>tick := tick s + 1, bound_to := (bound_to s)(sockfd := None), listening := listening s - {sockfd}\<rparr>"

text \<open>On failure, which is only logged, the zeroed address is returned.\<close>

definition getLocalAddr ::
  "kernel \<Rightarrow> int \<Rightarrow> 'a acceptor_state_scheme \<Rightarrow> sockaddr_in \<times> 'a acceptor_state_scheme" where
  "getLocalAddr k sockfd s =
     (let localaddr = \<lparr>sin_port = 0, sin_addr = 0\<rparr>; (ret, name) = k_name k (tick s)
      in (if ret < 0 then localaddr else name, s\<lparr>tick := tick s + 1\<rparr>))"

definition getPeerAddr ::
  "kernel \<Rightarrow> int \<Rightarrow> 'a acceptor_state_scheme \<Rightarrow> sockaddr_in \<times> 'a acceptor_state_scheme" where
  "getPeerAddr k sockfd s =
     (let peeraddr = \<lparr>sin_port = 0, sin_addr = 0\<rparr>; (ret, name) = k_name k (tick s)
      in (if ret < 0 then peeraddr else name, s\<lparr>tick := tick s + 1\<rparr>))"

section \<open>\<open>Acceptor\<close>\<close>

text \<open>The constructor, with the channel at address \<open>c\<close>. It asks for events before the socket listens.\<close>

definition Acceptor_new ::
  "kernel \<Rightarrow> nat \<Rightarrow> sockaddr_in \<Rightarrow> 'a acceptor_state_scheme \<Rightarrow> 'a acceptor_state_scheme result" where
  "Acceptor_new k c listen_addr s =
     bindR (NewNonBlockingSocket k s) (\<lambda>(sockfd, s).
       let s = s\<lparr>listen_socket := sockfd, listen_channel := c, new_conn_callback := False,
                 chans := (chans s)(c \<mapsto> Channel_new (loop_addr s) sockfd)\<rparr>
       in bindR (Socket_Bind k sockfd listen_addr s) (\<lambda>s.
          ptrR Use_after_free (chans s c) (\<lambda>ch.
          Channel_EnableReading c (s\<lparr>chans := (chans s)(c \<mapsto> Channel_SetReadCallback Acceptor_handleRead_fn ch)\<rparr>))))"

text \<open>The members are destroyed; the channel stays in the poller.\<close>

definition Acceptor_delete :: "'a acceptor_state_scheme \<Rightarrow> 'a acceptor_state_scheme" where
  "Acceptor_delete s =
     Socket_delete (listen_socket s) (s\<lparr>new_conn_callback := False, chans := (chans s)(listen_channel s := None)\<rparr>)"

definition SetNewConnectionCallback :: "'a acceptor_state_scheme \<Rightarrow> 'a acceptor_state_scheme" where
  "SetNewConnectionCallback s = s\<lparr>new_conn_callback := True\<rparr>"

definition Acceptor_listen :: "kernel \<Rightarrow> 'a acceptor_state_scheme \<Rightarrow> 'a acceptor_state_scheme result" where
  "Acceptor_listen k s =
     assertInLoopThread s
       (let ret = k_call k (tick s); s = s\<lparr>tick := tick s + 1\<rparr>
        in if ret = - 1 then Inl Aborted else Inr (s\<lparr>listening := insert (listen_socket s) (listening s)\<rparr>))"

definition Acceptor_handleRead ::
  "kernel \<Rightarrow> (int \<Rightarrow> sockaddr_in \<Rightarrow> 'a acceptor_state_scheme \<Rightarrow> 'a acceptor_state_scheme result) \<Rightarrow>
   'a acceptor_state_scheme \<Rightarrow> 'a acceptor_state_scheme result" where
  "Acceptor_handleRead k new_conn s =
     assertInLoopThread s
       (let (connfd, addr) = k_accept k (tick s); s = s\<lparr>tick := tick s + 1\<rparr>
        in if connfd < 0 then Inl Aborted
           else let client = InetAddress_of addr
                in if new_conn_callback s then new_conn connfd client s
                   else Inr (s\<lparr>tick := tick s + 1\<rparr>))"

section \<open>Properties\<close>

definition acceptor_channel :: "nat \<Rightarrow> int \<Rightarrow> nat \<Rightarrow> Channel" where
  "acceptor_channel loop fd i = (Channel_new loop fd)\<lparr>ch_read_cb := Some Acceptor_handleRead_fn, ch_events := kReadEvent,
     ch_index := int i\<rparr>"

text \<open>What the constructor leaves behind.\<close>

definition constructed_acceptor :: "nat \<Rightarrow> int \<Rightarrow> sockaddr_in \<Rightarrow> 'a acceptor_state_scheme \<Rightarrow> 'a acceptor_state_scheme" where
  "constructed_acceptor c fd addr s =
     s\<lparr>listen_socket := fd, listen_channel := c, new_conn_callback := False, tick := tick s + 2,
       bound_to := (bound_to s)(fd \<mapsto> addr),
       pollfds := pollfds s @ [\<lparr>pfd_fd = fd, pfd_events = ucast kReadEvent, pfd_revents = 0\<rparr>],
       chans := (chans s)(c \<mapsto> acceptor_channel (loop_addr s) fd (length (pollfds s))),
       channels := (channels s)(fd \<mapsto> c)\<rparr>"

lemma Acceptor_new_eq:
  assumes "isInLoopThread s" "fd = k_call k (tick s)" "channels s fd = None"
  shows "Acceptor_new k c addr s =
    (if fd = - 1 \<or> k_call k (tick s + 1) = - 1 then Inl Aborted else Inr (constructed_acceptor c fd addr s))"
proof -
  let ?ch = "(Channel_new (loop_addr s) fd)\<lparr>ch_read_cb := Some Acceptor_handleRead_fn\<rparr>"
  define t where "t = s\<lparr>listen_socket := fd, listen_channel := c, new_conn_callback := False, tick := tick s + 1 + 1,
    bound_to := (bound_to s)(fd \<mapsto> addr), chans := (chans s)(c \<mapsto> ?ch)\<rparr>"
  have "Acceptor_new k c addr s = (if fd = - 1 \<or> k_call k (tick s + 1) = - 1 then Inl Aborted
      else Channel_EnableReading c t)"
    by (simp add: Acceptor_new_def NewNonBlockingSocket_def Socket_Bind_def SockAddress_def Let_def t_def assms(2))
  moreover have "isInLoopThread t" "chans t c = Some ?ch" "ch_index ?ch < 0" "ch_loop ?ch = loop_addr t"
      "channels t (ch_fd ?ch) = None"
    using assms by (simp_all add: t_def Channel_new_def isInLoopThread_def)
  from set_events_new [OF this, of "\<lambda>e. e OR kReadEvent"]
  have "Channel_EnableReading c t = Inr (constructed_acceptor c fd addr s)"
    by (simp add: Channel_EnableReading_def constructed_acceptor_def acceptor_channel_def Channel_new_def t_def)
  ultimately show ?thesis by simp
qed

lemma constructed_acceptor_poller:
  assumes inv: "Poller_inv s" and c: "chans s c = None" and fd: "channels s fd = None" "fd \<noteq> - 1"
  shows "Poller_inv (constructed_acceptor c fd addr s)"
proof -
  let ?s = "constructed_acceptor c fd addr s"
  have new: "fd \<notin> set (map pfd_fd (pollfds s))" using inv fd(1) by (auto simp: Poller_inv_def)
  have reg: "\<exists>b ch. registered ?s i b ch" if "i < length (pollfds ?s)" for i
  proof (cases "i < length (pollfds s)")
    case True
    with inv obtain b ch where "registered s i b ch" by (auto simp: Poller_inv_def)
    moreover from this c fd(1) have "b \<noteq> c" "ch_fd ch \<noteq> fd" by (auto simp: registered_def)
    ultimately have "registered ?s i b ch" by (auto simp: registered_def constructed_acceptor_def nth_append)
    then show ?thesis by blast
  next
    case False
    with that have "registered ?s i c (acceptor_channel (loop_addr s) fd (length (pollfds s)))"
      by (simp add: registered_def constructed_acceptor_def acceptor_channel_def Channel_new_def less_Suc_eq)
    then show ?thesis by blast
  qed
  then show ?thesis
    unfolding Poller_inv_def using inv new fd(2)
    by (intro conjI) (auto simp: Poller_inv_def constructed_acceptor_def)
qed

text \<open>Constructing an acceptor and listening on a consistent loop that does not know the new descriptor
  binds the socket to the given address, leaves it listening, registers its channel with the poller
  for reading with the acceptor's handler and keeps the poller consistent; when \<^verbatim>\<open>socket\<close>, \<^verbatim>\<open>bind\<close> or \<^verbatim>\<open>listen\<close> fails
  the program aborts.\<close>

lemma Acceptor_new_correct:
  assumes "Poller_inv s" "isInLoopThread s" "channels s (k_call k (tick s)) = None" "chans s c = None"
  shows "if k_call k (tick s) = - 1 \<or> k_call k (tick s + 1) = - 1 \<or> k_call k (tick s + 2) = - 1
    then bindR (Acceptor_new k c addr s) (Acceptor_listen k) = Inl Aborted
    else \<exists>s' ch. bindR (Acceptor_new k c addr s) (Acceptor_listen k) = Inr s' \<and> Poller_inv s' \<and>
      listen_socket s' = k_call k (tick s) \<and> bound_to s' (listen_socket s') = Some addr \<and>
      listen_socket s' \<in> listening s' \<and> registered s' (length (pollfds s)) c ch \<and>
      ch_read_cb ch = Some Acceptor_handleRead_fn \<and> ch_events ch = kReadEvent"
proof -
  let ?fd = "k_call k (tick s)"
  define u where "u = constructed_acceptor c ?fd addr s"
  define ch where "ch = acceptor_channel (loop_addr s) ?fd (length (pollfds s))"
  have "Poller_inv (u\<lparr>tick := n, listening := l\<rparr>)" if "?fd \<noteq> - 1" for n l
    using constructed_acceptor_poller [OF assms(1,4,3) that, of addr] by (simp add: Poller_inv_def registered_def u_def)
  moreover have "registered (u\<lparr>tick := n, listening := l\<rparr>) (length (pollfds s)) c ch" for n l
    by (simp add: registered_def u_def constructed_acceptor_def acceptor_channel_def Channel_new_def ch_def)
  moreover have "listen_socket u = ?fd" "bound_to u ?fd = Some addr" "isInLoopThread u" "tick u = tick s + 2"
      "ch_read_cb ch = Some Acceptor_handleRead_fn" "ch_events ch = kReadEvent"
    using assms(2) by (simp_all add: u_def constructed_acceptor_def isInLoopThread_def ch_def acceptor_channel_def)
  ultimately show ?thesis
    using Acceptor_new_eq [OF assms(2) refl assms(3), of c addr, folded u_def]
    by (auto simp: Acceptor_listen_def assertInLoopThread_def Let_def intro!: exI)
qed

text \<open>A loop that watches nothing yet, for concrete runs.\<close>

definition idle_loop :: acceptor_state where
  "idle_loop =
     \<lparr>tick = 0, cur_tid = 7, chans = Map.empty, pollfds = [], channels = Map.empty, loop_addr = 0, threadId = 7,
      looping = False, quit_flag = False, active_channels = [], wakeup_fd = 9, wakeup_count = 0, functors = [],
      captures = Map.empty, next_capture = 0, timers = [], timerfd = 8, timerfd_channel = 1, timer_armed = None,
      CreatedNum = 0, wakeup_channel = 2, t_loopInThisThread = Some 0, conns = Map.empty, sent = (\<lambda>_. []),
      accepted = (\<lambda>_. []), shut_wr = {}, bound_to = Map.empty, listening = {}, listen_socket = 0,
      listen_channel = 0, new_conn_callback = False\<rparr>"

end
