(* ===== verification/Tcp_Server.thy ===== *)
theory Tcp_Server
  imports Acceptor "HOL-Library.Char_ord" "HOL-Library.List_Lexorder"
begin

unbundle bit_operations_syntax

text \<open>
  \<^verbatim>\<open>TcpServer\<close> (net/tcp_server.h, net/tcp_server.cc): the acceptor's callback that makes a connection, the close
  callback that forgets it, and the destructor. Objects made by the server get addresses that were
  never used before. The map \<^verbatim>\<open>connections_\<close> is the list of its entries in the order of the names. The
  functions of the user are a parameter (\<open>callbacks\<close>); \<open>server_cbs\<close> adds the server's own close callback to
  them, and \<open>run_closure\<close> says what every closure stored in the reactor does, so that the event loop can
  be run on the whole program.
\<close>

section \<open>State\<close>

record server_state = acceptor_state +
  srv_name :: string
  srv_conn_cb :: "nat option"
  srv_msg_cb :: "nat option"
  srv_wc_cb :: "nat option"
  next_conn_id :: int
  listen_addr :: sockaddr_in
  connections :: "(string \<times> nat) list"
  next_addr :: nat

section \<open>Operations\<close>

definition TcpServer_new ::
  "kernel \<Rightarrow> sockaddr_in \<Rightarrow> string \<Rightarrow> 'a server_state_scheme \<Rightarrow> 'a server_state_scheme result" where
  "TcpServer_new k addr name s =
     (let c = next_addr s; s = s\<lparr>next_addr := Suc c\<rparr>
      in bindR (Acceptor_new k c addr s) (\<lambda>s.
         Inr (s\<lparr>srv_name := name, srv_conn_cb := None, srv_msg_cb := None, srv_wc_cb := None,
                next_conn_id := 0, listen_addr := addr, connections := []\<rparr>)))"

definition SetConnectionCallback :: "nat \<Rightarrow> 'a server_state_scheme \<Rightarrow> 'a server_state_scheme" where
  "SetConnectionCallback cb s = s\<lparr>srv_conn_cb := Some cb\<rparr>"

definition SetMessageCallback :: "nat \<Rightarrow> 'a server_state_scheme \<Rightarrow> 'a server_state_scheme" where
  "SetMessageCallback cb s = s\<lparr>srv_msg_cb := Some cb\<rparr>"

definition SetWriteCompleteCallback :: "nat \<Rightarrow> 'a server_state_scheme \<Rightarrow> 'a server_state_scheme" where
  "SetWriteCompleteCallback cb s = s\<lparr>srv_wc_cb := Some cb\<rparr>"

definition connection_name :: "string \<Rightarrow> int \<Rightarrow> string" where
  "connection_name name i = name @ ''#'' @ printf_d i"

text \<open>\<^verbatim>\<open>connections_[conn_name] = conn\<close>: the map's pointer counts as an owner, and what it pointed to before, if
  anything, loses one.\<close>

definition connections_put ::
  "string \<Rightarrow> nat \<Rightarrow> 'a server_state_scheme \<Rightarrow> 'a server_state_scheme result" where
  "connections_put name x s =
     bindR (shared_from_this x s) (\<lambda>s.
       let old = map_of (connections s) name; s = s\<lparr>connections := map_assign name x (connections s)\<rparr>
       in case old of None \<Rightarrow> Inr s | Some y \<Rightarrow> release y s)"

text \<open>The lambda that \<^verbatim>\<open>Start\<close> gives to the acceptor.\<close>

definition newConnection ::
  "'a server_state_scheme callbacks \<Rightarrow> int \<Rightarrow> sockaddr_in \<Rightarrow> 'a server_state_scheme \<Rightarrow>
   'a server_state_scheme result" where
  "newConnection cbs connfd remote s =
     assertInLoopThread s
       (let conn_name = connection_name (srv_name s) (next_conn_id s)
        in if next_conn_id s = 2147483647 then Inl Signed_overflow
           else let x = next_addr s;
                    s = s\<lparr>next_conn_id := next_conn_id s + 1, next_addr := x + 2\<rparr>
                in bindR (TcpConnection_new x (Suc x) conn_name connfd (listen_addr s) remote s) (\<lambda>s.
                   bindR (connections_put conn_name x s) (\<lambda>s.
                   ptrR Use_after_free (conns s x) (\<lambda>conn.
                     let conn = conn_SetConnectionCallback (srv_conn_cb s) conn;
                         conn = conn_SetMessageCallback (srv_msg_cb s) conn;
                         conn = conn_SetWriteCompleteCallback (srv_wc_cb s) conn;
                         conn = conn_SetCloseCallback (Some Server_removeConnection) conn;
                         s = set_conn x conn s
                     in bindR (ConnectEstablished cbs x s) (release x)))))"

text \<open>The close callback of the server's connections. The pointer bound into the functor is an owner
  until the functor has run.\<close>

definition removeConnection ::
  "'a server_state_scheme callbacks \<Rightarrow> nat \<Rightarrow> 'a server_state_scheme \<Rightarrow> 'a server_state_scheme result" where
  "removeConnection cbs x s =
     assertInLoopThread s
       (ptrR Use_after_free (conns s x) (\<lambda>c.
        case map_of (connections s) (tc_name c) of
          None \<Rightarrow> Inl Assertion_failed
        | Some y \<Rightarrow>
            bindR (release y (s\<lparr>connections := map_erase (tc_name c) (connections s)\<rparr>)) (\<lambda>s.
            bindR (shared_from_this x s) (\<lambda>s.
            EventLoop_RunInLoop (Conn_ConnectDestroyed_fn x)
              (\<lambda>s. bindR (ConnectDestroyed cbs x s) (release x)) s))))"

definition server_cbs :: "'a server_state_scheme callbacks \<Rightarrow> 'a server_state_scheme callbacks" where
  "server_cbs cbs = cbs\<lparr>cb_close := (\<lambda>g x s.
     case g of Server_removeConnection \<Rightarrow> removeConnection cbs x s | User_close n \<Rightarrow> cb_close cbs g x s)\<rparr>"

definition TcpServer_Start :: "kernel \<Rightarrow> 'a server_state_scheme \<Rightarrow> 'a server_state_scheme result" where
  "TcpServer_Start k s = Acceptor_listen k (SetNewConnectionCallback s)"

text \<open>The body of the destructor's loop: \<^verbatim>\<open>conn\<close> is a second owner, the map gives its pointer up, the functor
  holds a third pointer while it runs, and \<^verbatim>\<open>conn\<close> goes out of scope.\<close>

definition destroy_connection ::
  "'a server_state_scheme callbacks \<Rightarrow> string \<times> nat \<Rightarrow> 'a server_state_scheme \<Rightarrow>
   'a server_state_scheme result" where
  "destroy_connection cbs = (\<lambda>(name, x) s.
     bindR (shared_from_this x s) (\<lambda>s.
     bindR (release x s) (\<lambda>s.
     bindR (shared_from_this x s) (\<lambda>s.
     bindR (EventLoop_RunInLoop (Conn_ConnectDestroyed_fn x)
       (\<lambda>s. bindR (ConnectDestroyed cbs x s) (release x)) s) (release x)))))"

definition TcpServer_delete ::
  "'a server_state_scheme callbacks \<Rightarrow> 'a server_state_scheme \<Rightarrow> 'a server_state_scheme result" where
  "TcpServer_delete cbs s =
     assertInLoopThread s
       (bindR (foldR (destroy_connection cbs) (connections s) s) (\<lambda>s.
        Inr (Acceptor_delete (s\<lparr>connections := []\<rparr>))))"

section \<open>What the stored closures do\<close>

text \<open>\<open>user\<close> runs the functions the user gave to \<^verbatim>\<open>RunInLoop\<close> and to the timers.\<close>

definition run_closure ::
  "kernel \<Rightarrow> 'a server_state_scheme callbacks \<Rightarrow>
   (closure \<Rightarrow> 'a server_state_scheme \<Rightarrow> 'a server_state_scheme result) \<Rightarrow>
   closure \<Rightarrow> 'a server_state_scheme \<Rightarrow> 'a server_state_scheme result" where
  "run_closure k cbs user f s =
     (case f of
        Acceptor_handleRead_fn \<Rightarrow> Acceptor_handleRead k (newConnection cbs) s
      | EventLoop_handleRead_fn \<Rightarrow> Inr (EventLoop_handleRead s)
      | TimerQueue_HandleRead_fn \<Rightarrow> TimerQueue_HandleRead k user s
      | Conn_HandleRead_fn x \<Rightarrow> HandleRead k (server_cbs cbs) x s
      | Conn_HandleWrite_fn x \<Rightarrow> HandleWrite k (server_cbs cbs) x s
      | Conn_HandleClose_fn x \<Rightarrow> HandleClose (server_cbs cbs) x s
      | Conn_sendInLoop_fn x a \<Rightarrow> sendInLoop_call k (server_cbs cbs) x a s
      | Conn_shutdownInLoop_fn x \<Rightarrow> shutdownInLoop k x s
      | Conn_ConnectDestroyed_fn x \<Rightarrow> bindR (ConnectDestroyed cbs x s) (release x)
      | Conn_writeComplete_fn x \<Rightarrow>
          ptrR Use_after_free (conns s x) (\<lambda>c.
          case tc_wc_cb c of None \<Rightarrow> release x s | Some g \<Rightarrow> bindR (cb_conn cbs g x s) (release x))
      | TimerQueue_addTimer_fn a \<Rightarrow> TimerQueue_addTimer_call k a s
      | User_fn n \<Rightarrow> user f s)"

section \<open>The invariant of the connections under the server\<close>

lemma tcp_inv_server [simp]:
  "tcp_inv (s\<lparr>connections := m\<rparr>) \<longleftrightarrow> tcp_inv s" "tcp_inv (s\<lparr>next_addr := a\<rparr>) \<longleftrightarrow> tcp_inv s"
  "tcp_inv (s\<lparr>next_conn_id := i\<rparr>) \<longleftrightarrow> tcp_inv s"
  by (rule tcp_inv_cong; simp)+

lemma server_cbs_simps [simp]:
  "cb_conn (server_cbs cbs) = cb_conn cbs" "cb_msg (server_cbs cbs) = cb_msg cbs"
  "cb_close (server_cbs cbs) Server_removeConnection = removeConnection cbs"
  "cb_close (server_cbs cbs) (User_close n) = cb_close cbs (User_close n)"
  by (simp_all add: server_cbs_def fun_eq_iff)

text \<open>The server's close callback is a callback that keeps the invariant.\<close>

context connection_callbacks
begin

lemma destroyed_keeps:
  "tcp_inv s \<Longrightarrow> safeR (bindR (ConnectDestroyed cbs x s) (release x)) tcp_inv"
  by (auto simp: safeR_bindR intro!: safeR_mono [OF ConnectDestroyed_keeps] release_inv)

end

lemma removeConnection_keeps:
  assumes "connection_callbacks cbs" "tcp_inv s"
  shows "safeR (removeConnection cbs x s) tcp_inv"
  using assms
  by (auto simp: removeConnection_def assertInLoopThread_def wp_simps split: option.split
      intro!: safeR_mono [OF release_inv] safeR_mono [OF shared_from_this_inv] RunInLoop_inv
        connection_callbacks.destroyed_keeps [unfolded safeR_bindR])

lemma server_cbs_keep: "connection_callbacks cbs \<Longrightarrow> connection_callbacks (server_cbs cbs)"
proof -
  assume cbs: "connection_callbacks cbs"
  then have "safeR (cb_close (server_cbs cbs) g x s) tcp_inv" if "tcp_inv s" for g x s
    using that by (cases g) (simp_all add: removeConnection_keeps connection_callbacks.close_keeps)
  then show ?thesis
    using cbs by unfold_locales (simp_all add: connection_callbacks.conn_keeps connection_callbacks.msg_keeps)
qed

text \<open>The timers do not touch the connections.\<close>

lemma tcp_inv_timers [simp]:
  "tcp_inv (s\<lparr>timers := t\<rparr>) = tcp_inv s" "tcp_inv (s\<lparr>timer_armed := a\<rparr>) = tcp_inv s" "tcp_inv (s\<lparr>CreatedNum := n\<rparr>) = tcp_inv s"
  by (rule tcp_inv_cong; simp)+

lemma resetTimerfd_tcp: "tcp_inv s \<Longrightarrow> safeR (resetTimerfd k e s) tcp_inv"
  by (cases "howMuchTimeFromNow (Timestamp_now k (tick s)) e") (simp_all add: resetTimerfd_def Let_def split: prod.split)

lemma reset_timer_tcp: "tcp_inv s \<Longrightarrow> safeR (reset_timer now p s) tcp_inv"
  by (cases p, cases "Timer_ReArm now (snd p)") (simp_all add: reset_timer_def)

lemma TimerQueue_reset_tcp: "tcp_inv s \<Longrightarrow> safeR (TimerQueue_reset k ex now s) tcp_inv"
  unfolding TimerQueue_reset_def safeR_bindR
  by (rule safeR_mono [OF foldR_safe [where I = tcp_inv]]) (simp_all add: reset_timer_tcp resetTimerfd_tcp Let_def)

lemma TimerQueue_HandleRead_tcp:
  assumes user: "\<And>f s. tcp_inv s \<Longrightarrow> safeR (user f s) tcp_inv" and inv: "tcp_inv s"
  shows "safeR (TimerQueue_HandleRead k user s) tcp_inv"
proof -
  have "safeR (foldR (\<lambda>(key, t). Timer_Fire user t) ex s) tcp_inv" if "tcp_inv s" for s and ex :: "(Timestamp \<times> Timer) list"
    using that by (intro foldR_safe [where I = tcp_inv]) (simp_all add: Timer_Fire_def user split: prod.split)
  then show ?thesis
    using inv unfolding TimerQueue_HandleRead_def GetExpired_def readTimerfd_def Let_def prod.case safeR_bindR
    by (intro safeR_mono [where P = tcp_inv, OF _ TimerQueue_reset_tcp]) simp_all
qed

lemma addTimer_call_tcp: "tcp_inv s \<Longrightarrow> safeR (TimerQueue_addTimer_call k a s) tcp_inv"
  by (simp add: TimerQueue_addTimer_call_def TimerQueue_addTimer_def Timer_new_def Let_def assertInLoopThread_def
      resetTimerfd_tcp split: option.split capture.split)

text \<open>Every closure of the reactor except the one that accepts keeps the invariant of the connections.\<close>

lemma run_closure_keeps:
  assumes cbs: "connection_callbacks cbs" and user: "\<And>f s. tcp_inv s \<Longrightarrow> safeR (user f s) tcp_inv"
    and inv: "tcp_inv s" and f: "f \<noteq> Acceptor_handleRead_fn"
  shows "safeR (run_closure k cbs user f s) tcp_inv"
proof -
  note server = server_cbs_keep [OF cbs]
  have "tcp_inv (EventLoop_handleRead s)"
    using inv tcp_inv_cong [of "EventLoop_handleRead s" s] by (simp add: EventLoop_handleRead_def)
  moreover have "safeR (sendInLoop_call k (server_cbs cbs) x a s) tcp_inv" for x a
    using inv connection_callbacks.sendInLoop_keeps [OF server]
    by (auto simp: sendInLoop_call_def split: option.split capture.split)
  moreover have "safeR (bindR (cb_conn cbs g x s) (release x)) tcp_inv" for g x
    unfolding safeR_bindR by (rule safeR_mono [OF connection_callbacks.conn_keeps [OF cbs inv]]) (rule release_inv)
  ultimately show ?thesis
    using inv f
    by (auto simp: run_closure_def safeR_ptrR split: closure.split option.split
        intro: TimerQueue_HandleRead_tcp user connection_callbacks.HandleRead_keeps [OF server]
          connection_callbacks.HandleWrite_keeps [OF server] connection_callbacks.HandleClose_keeps [OF server]
          shutdownInLoop_inv connection_callbacks.destroyed_keeps [OF cbs] addTimer_call_tcp release_inv)
qed

section \<open>Callbacks that only look\<close>

text \<open>The two states agree on what the library keeps; the user's part may differ.\<close>

definition same_lib :: "'a server_state_scheme \<Rightarrow> 'a server_state_scheme \<Rightarrow> bool" where
  "same_lib s s' \<longleftrightarrow> server_state.truncate s' = server_state.truncate s"

text \<open>A callback of the user is quiet when it succeeds on every live connection and leaves the library's part
  of the state alone: it may read the connection and change what the user added to the state.\<close>

definition quiet :: "(nat \<Rightarrow> 'a server_state_scheme \<Rightarrow> 'a server_state_scheme result) \<Rightarrow> bool" where
  "quiet f \<longleftrightarrow> (\<forall>x s. conns s x \<noteq> None \<longrightarrow> (\<exists>s'. f x s = Inr s' \<and> same_lib s s'))"

definition quiet_cbs :: "'a server_state_scheme callbacks \<Rightarrow> bool" where
  "quiet_cbs cbs \<longleftrightarrow> (\<forall>f. quiet (cb_conn cbs f))"

lemma same_lib_refl [simp]: "same_lib s s"
  by (simp add: same_lib_def)

lemma same_libD:
  assumes "same_lib s s'"
  shows "conns s' = conns s" "chans s' = chans s" "sent s' = sent s" "accepted s' = accepted s"
    "shut_wr s' = shut_wr s" "pollfds s' = pollfds s" "channels s' = channels s" "cur_tid s' = cur_tid s"
    "threadId s' = threadId s" "loop_addr s' = loop_addr s" "connections s' = connections s"
    "next_addr s' = next_addr s" "next_conn_id s' = next_conn_id s" "srv_name s' = srv_name s" "tick s' = tick s"
    "listen_channel s' = listen_channel s" "listen_socket s' = listen_socket s" "captures s' = captures s"
    "next_capture s' = next_capture s" "functors s' = functors s" "listening s' = listening s"
  using assms by (simp_all add: same_lib_def server_state.defs)

lemma same_lib_set_conn: "same_lib s s' \<Longrightarrow> same_lib (set_conn x c s) (set_conn x c s')"
  by (simp add: same_lib_def set_conn_def server_state.defs)

lemma set_conn_simps [simp]:
  "conns (set_conn x c s) = (conns s)(x \<mapsto> c)" "set_conn x c (set_conn x d s) = set_conn x c s"
  "conns s x = Some c \<Longrightarrow> set_conn x c s = s" "isInLoopThread (set_conn x c s) = isInLoopThread s"
  by (simp_all add: set_conn_def isInLoopThread_def fun_upd_idem)

lemma set_conn_connections: "set_conn x c (s\<lparr>connections := m\<rparr>) = (set_conn x c s)\<lparr>connections := m\<rparr>"
  by (simp add: set_conn_def)

lemma set_conn_server [simp]:
  "connections (set_conn x c s) = connections s" "srv_conn_cb (set_conn x c s) = srv_conn_cb s"
  "srv_msg_cb (set_conn x c s) = srv_msg_cb s" "srv_wc_cb (set_conn x c s) = srv_wc_cb s"
  by (simp_all add: set_conn_def)

lemma call_with_this_quiet:
  assumes "quiet f" "conns s x = Some c" "1 \<le> tc_uses c"
  shows "\<exists>s'. call_with_this f x s = Inr s' \<and> same_lib s s'"
proof -
  let ?s = "set_conn x (c\<lparr>tc_uses := Suc (tc_uses c)\<rparr>) s"
  obtain t where t: "f x ?s = Inr t" "same_lib ?s t"
    using assms(1) unfolding quiet_def by (metis option.distinct(1) fun_upd_same set_conn_simps(1))
  have "conns t x = Some (c\<lparr>tc_uses := Suc (tc_uses c)\<rparr>)" using same_libD(1) [OF t(2)] by simp
  then have "call_with_this f x s = Inr (set_conn x c t)"
    using assms t(1) by (simp add: call_with_this_def shared_from_this_def release_def)
  moreover have "same_lib s (set_conn x c t)"
    using same_lib_set_conn [OF t(2), of x c] assms(2) by simp
  ultimately show ?thesis by blast
qed

section \<open>The server's invariant\<close>

text \<open>Between events: the server's map holds exactly the live connections, under their names, and is their
  only owner; the names carry numbers below the next one; addresses from \<^term>\<open>next_addr s\<close> on are free.\<close>

definition srv_inv :: "'a server_state_scheme \<Rightarrow> bool" where
  "srv_inv s \<longleftrightarrow> tcp_inv s \<and> (\<forall>a \<ge> next_addr s. conns s a = None \<and> chans s a = None) \<and>
     0 \<le> next_conn_id s \<and> map_sorted (connections s) \<and>
     (\<forall>n x. map_of (connections s) n = Some x \<longrightarrow> (\<exists>c i. conns s x = Some c \<and> tc_name c = n \<and>
        n = connection_name (srv_name s) i \<and> 0 \<le> i \<and> i < next_conn_id s)) \<and>
     (\<forall>x c. conns s x = Some c \<longrightarrow> map_of (connections s) (tc_name c) = Some x \<and> tc_uses c = 1)"

lemma connection_name_inj [simp]: "connection_name n i = connection_name n j \<longleftrightarrow> i = j"
  using inj_printf_d by (simp add: connection_name_def inj_def) metis

lemma srv_inv_fresh_name: "srv_inv s \<Longrightarrow> map_of (connections s) (connection_name (srv_name s) (next_conn_id s)) = None"
  by (rule ccontr) (fastforce simp: srv_inv_def)

lemma TcpConnection_new_ok:
  assumes "isInLoopThread s" "channels s fd = None"
  shows "\<exists>r w. fresh_buffer r \<and> fresh_buffer w \<and>
    TcpConnection_new x c name fd la remote s = Inr (s\<lparr>
      conns := (conns s)(x \<mapsto> \<lparr>tc_name = name, tc_state = kConnecting, tc_fd = fd, tc_channel = c,
         tc_local = la, tc_remote = remote, tc_conn_cb = None, tc_msg_cb = None,
         tc_close_cb = None, tc_wc_cb = None, tc_rev = r, tc_snd = w, tc_uses = 1\<rparr>),
      chans := (chans s)(c \<mapsto> (Channel_new (loop_addr s) fd)\<lparr>ch_read_cb := Some (Conn_HandleRead_fn x),
         ch_events := kReadEvent, ch_index := int (length (pollfds s)),
         ch_write_cb := Some (Conn_HandleWrite_fn x), ch_close_cb := Some (Conn_HandleClose_fn x)\<rparr>),
      sent := (sent s)(fd := []), accepted := (accepted s)(x := []), shut_wr := shut_wr s - {fd},
      pollfds := pollfds s @ [\<lparr>pfd_fd = fd, pfd_events = ucast kReadEvent, pfd_revents = 0\<rparr>],
      channels := (channels s)(fd \<mapsto> c)\<rparr>)"
proof -
  obtain b where b: "Buffer_new kInitialSize = Inr b" "fresh_buffer b"
    using Buffer_new_fresh by (auto simp: okR_def)
  show ?thesis
    using assms b
    by (intro exI [of _ b] conjI)
      (simp_all add: TcpConnection_new_def Let_def Channel_EnableReading_def Channel_set_events_def EventLoop_update_def
        Poller_UpdateChannel_def assertInLoopThread_def isInLoopThread_def Channel_new_def)
qed

lemma srv_inv_same_lib: "same_lib s s' \<Longrightarrow> srv_inv s' \<longleftrightarrow> srv_inv s"
  using tcp_inv_cong [of s' s] by (simp add: srv_inv_def same_libD)

lemma conn_live_same_lib: "same_lib s s' \<Longrightarrow> conn_live s' x c i ch \<longleftrightarrow> conn_live s x c i ch"
  by (simp add: conn_live_def registered_def isInLoopThread_def same_libD)

text \<open>Adding a connection with an unused name, descriptor and addresses keeps the invariant.\<close>

lemma srv_inv_add:
  assumes inv: "srv_inv s" and x: "x = next_addr s" and fd: "\<forall>y d. conns s y = Some d \<longrightarrow> tc_fd d \<noteq> tc_fd c"
    and c: "tc_name c = connection_name (srv_name s) (next_conn_id s)" "tc_channel c = Suc x" "tc_uses c = 1"
      "Buffer_inv (tc_rev c)" "Buffer_inv (tc_snd c)" "Buffer_content (tc_snd c) = []"
    and ch: "ch_fd ch = tc_fd c" "\<not> isWritingEnabled ch"
    and s': "conns s' = (conns s)(x \<mapsto> c)" "chans s' = (chans s)(Suc x \<mapsto> ch)" "sent s' = (sent s)(tc_fd c := [])"
      "accepted s' = (accepted s)(x := [])" "connections s' = map_assign (tc_name c) x (connections s)"
      "next_addr s' = x + 2" "next_conn_id s' = next_conn_id s + 1" "srv_name s' = srv_name s"
  shows "srv_inv s'"
proof -
  note fresh = srv_inv_fresh_name [OF inv]
  from inv have free: "conns s a = None" "chans s a = None" if "x \<le> a" for a
    using that by (simp_all add: srv_inv_def x)
  have old: "conn_ok s' y d \<and> tc_fd d \<noteq> tc_fd c \<and> tc_channel d \<noteq> Suc x \<and> y \<noteq> x" if "conns s y = Some d" for y d
  proof -
    have ok: "conn_ok s y d" using inv that by (simp add: srv_inv_def tcp_inv_def)
    then have "chans s (tc_channel d) \<noteq> None" by (auto simp: conn_ok_def)
    then have "tc_channel d \<noteq> Suc x" using free(2) [of "Suc x"] by auto
    moreover have "y \<noteq> x" using free(1) [of x] that by auto
    moreover have "tc_fd d \<noteq> tc_fd c" using fd that by blast
    ultimately show ?thesis using ok by (simp add: conn_ok_def s')
  qed
  have new: "conn_ok s' x c" using c ch by (simp add: conn_ok_def s')
  have "tcp_inv s'"
    using inv new c(2) unfolding tcp_inv_def s'(1) srv_inv_def
    by (intro conjI allI impI) (auto split: if_splits dest: old)
  moreover have "map_of (connections s') (tc_name d) = Some y" if "conns s y = Some d" for y d
  proof -
    have "map_of (connections s) (tc_name d) = Some y" using inv that by (simp add: srv_inv_def)
    with fresh have "tc_name d \<noteq> tc_name c" by (auto simp: c(1))
    with \<open>map_of (connections s) (tc_name d) = Some y\<close> show ?thesis by (simp add: s')
  qed
  moreover have "\<exists>d i. conns s' y = Some d \<and> tc_name d = n \<and> n = connection_name (srv_name s) i \<and> 0 \<le> i \<and> i < next_conn_id s'"
    if y: "map_of (connections s) n = Some y" for n y
  proof -
    obtain d i where d: "conns s y = Some d" "tc_name d = n" "n = connection_name (srv_name s) i"
      "0 \<le> i" "i < next_conn_id s" using inv y unfolding srv_inv_def by blast
    with old [OF d(1)] show ?thesis by (intro exI [of _ d] exI [of _ i]) (simp add: s')
  qed
  moreover have "0 \<le> next_conn_id s" "map_sorted (connections s)" "\<forall>y d. conns s y = Some d \<longrightarrow> tc_uses d = 1"
    using inv by (auto simp: srv_inv_def)
  ultimately show ?thesis
    using c free fresh unfolding srv_inv_def
    by (intro conjI) (auto simp: s' map_sorted_assign split: if_splits)
qed

text \<open>What the server has after accepting: the new connection with its channel, with \<open>r\<close> and \<open>w\<close> as its buffers.\<close>

definition fresh_conn :: "int \<Rightarrow> sockaddr_in \<Rightarrow> Buffer \<Rightarrow> Buffer \<Rightarrow> 'a server_state_scheme \<Rightarrow> TcpConnection" where
  "fresh_conn fd remote r w s =
     \<lparr>tc_name = connection_name (srv_name s) (next_conn_id s), tc_state = kConnected, tc_fd = fd, tc_channel = Suc (next_addr s),
      tc_local = listen_addr s, tc_remote = remote, tc_conn_cb = srv_conn_cb s, tc_msg_cb = srv_msg_cb s,
      tc_close_cb = Some Server_removeConnection, tc_wc_cb = srv_wc_cb s, tc_rev = r, tc_snd = w, tc_uses = 1\<rparr>"

definition fresh_channel :: "int \<Rightarrow> 'a server_state_scheme \<Rightarrow> Channel" where
  "fresh_channel fd s = (Channel_new (loop_addr s) fd)\<lparr>ch_read_cb := Some (Conn_HandleRead_fn (next_addr s)),
     ch_events := kReadEvent, ch_index := int (length (pollfds s)),
     ch_write_cb := Some (Conn_HandleWrite_fn (next_addr s)), ch_close_cb := Some (Conn_HandleClose_fn (next_addr s))\<rparr>"

definition with_conn ::
  "int \<Rightarrow> sockaddr_in \<Rightarrow> Buffer \<Rightarrow> Buffer \<Rightarrow> 'a server_state_scheme \<Rightarrow> 'a server_state_scheme" where
  "with_conn fd remote r w s =
     s\<lparr>next_conn_id := next_conn_id s + 1, next_addr := next_addr s + 2,
       conns := (conns s)(next_addr s \<mapsto> fresh_conn fd remote r w s), chans := (chans s)(Suc (next_addr s) \<mapsto> fresh_channel fd s),
       sent := (sent s)(fd := []), accepted := (accepted s)(next_addr s := []), shut_wr := shut_wr s - {fd},
       pollfds := pollfds s @ [\<lparr>pfd_fd = fd, pfd_events = ucast kReadEvent, pfd_revents = 0\<rparr>],
       channels := (channels s)(fd \<mapsto> Suc (next_addr s)),
       connections := map_assign (connection_name (srv_name s) (next_conn_id s)) (next_addr s) (connections s)\<rparr>"

lemma newConnection_eq:
  assumes fresh: "map_of (connections s) (connection_name (srv_name s) (next_conn_id s)) = None" and thr: "isInLoopThread s"
    and id: "next_conn_id s \<noteq> 2147483647" and fd: "channels s fd = None" and cbs: "quiet_cbs cbs"
  shows "\<exists>r w s'. fresh_buffer r \<and> fresh_buffer w \<and>
    newConnection cbs fd remote s = Inr s' \<and> same_lib (with_conn fd remote r w s) s'"
proof -
  let ?x = "next_addr s" and ?name = "connection_name (srv_name s) (next_conn_id s)"
  let ?s = "s\<lparr>next_conn_id := next_conn_id s + 1, next_addr := ?x + 2\<rparr>"
  have thr': "isInLoopThread ?s" "channels ?s fd = None" using thr fd by (simp_all add: isInLoopThread_def)
  obtain r w where rw: "fresh_buffer r" "fresh_buffer w"
    and new: "TcpConnection_new ?x (Suc ?x) ?name fd (listen_addr s) remote ?s = Inr (?s\<lparr>
      conns := (conns s)(?x \<mapsto> \<lparr>tc_name = ?name, tc_state = kConnecting, tc_fd = fd, tc_channel = Suc ?x,
         tc_local = listen_addr s, tc_remote = remote, tc_conn_cb = None, tc_msg_cb = None,
         tc_close_cb = None, tc_wc_cb = None, tc_rev = r, tc_snd = w, tc_uses = 1\<rparr>),
      chans := (chans s)(Suc ?x \<mapsto> fresh_channel fd s), sent := (sent s)(fd := []), accepted := (accepted s)(?x := []),
      shut_wr := shut_wr s - {fd},
      pollfds := pollfds s @ [\<lparr>pfd_fd = fd, pfd_events = ucast kReadEvent, pfd_revents = 0\<rparr>],
      channels := (channels s)(fd \<mapsto> Suc ?x)\<rparr>)" (is "_ = Inr ?t")
    using TcpConnection_new_ok [OF thr', of ?x "Suc ?x" ?name "listen_addr s" remote] by (auto simp: fresh_channel_def)
  define t where "t = ?t"
  define c where "c = fresh_conn fd remote r w s"
  define u where "u = set_conn ?x (c\<lparr>tc_uses := 2\<rparr>) (t\<lparr>connections := map_assign ?name ?x (connections s)\<rparr>)"
  have t_facts: "conns t ?x = Some (c\<lparr>tc_state := kConnecting, tc_conn_cb := None, tc_msg_cb := None, tc_close_cb := None, tc_wc_cb := None\<rparr>)"
      "connections t = connections s" "srv_conn_cb t = srv_conn_cb s" "srv_msg_cb t = srv_msg_cb s"
      "srv_wc_cb t = srv_wc_cb s"
    by (simp_all add: t_def c_def fresh_conn_def)
  have put: "connections_put ?name ?x t = Inr ((set_conn ?x (c\<lparr>tc_state := kConnecting, tc_conn_cb := None,
      tc_msg_cb := None, tc_close_cb := None, tc_wc_cb := None, tc_uses := 2\<rparr>) t)\<lparr>connections := map_assign ?name ?x (connections s)\<rparr>)"
    using t_facts fresh by (simp add: connections_put_def shared_from_this_def set_conn_def c_def fresh_conn_def numeral_2_eq_2)
  have eq: "newConnection cbs fd remote s =
      bindR (case srv_conn_cb s of None \<Rightarrow> Inr u | Some f \<Rightarrow> call_with_this (cb_conn cbs f) ?x u) (release ?x)"
    using thr id new [folded t_def] put t_facts
    by (simp add: newConnection_def assertInLoopThread_def ConnectEstablished_def SetState_def Let_def conn_setters
        u_def c_def fresh_conn_def set_conn_connections split: option.split)
  have cu: "conns u ?x = Some (c\<lparr>tc_uses := 2\<rparr>)" by (simp add: u_def)
  have "\<exists>t. (case srv_conn_cb s of None \<Rightarrow> Inr u | Some f \<Rightarrow> call_with_this (cb_conn cbs f) ?x u) = Inr t \<and> same_lib u t"
    using cbs call_with_this_quiet [OF _ cu] by (auto simp: quiet_cbs_def split: option.split)
  then obtain t' where t': "(case srv_conn_cb s of None \<Rightarrow> Inr u | Some f \<Rightarrow> call_with_this (cb_conn cbs f) ?x u) = Inr t'"
      "same_lib u t'" by blast
  have "release ?x t' = Inr (set_conn ?x c t')"
    using same_libD(1) [OF t'(2)] cu by (simp add: release_def c_def fresh_conn_def)
  moreover have "set_conn ?x c u = with_conn fd remote r w s"
    by (simp add: u_def t_def set_conn_def with_conn_def c_def)
  ultimately show ?thesis
    using rw eq t' same_lib_set_conn [OF t'(2), of ?x c] by auto
qed

lemma registered_with_conn:
  assumes "channels s fd = None" "chans s (Suc (next_addr s)) = None"
  shows "registered (with_conn fd peer r w s) j d dh \<longleftrightarrow>
    registered s j d dh \<or> (j = length (pollfds s) \<and> d = Suc (next_addr s) \<and> dh = fresh_channel fd s)"
proof (cases "j < length (pollfds s)")
  case True
  then show ?thesis
    using assms by (auto simp: registered_def with_conn_def nth_append fresh_channel_def)
next
  case False
  then show ?thesis
    by (auto simp: registered_def with_conn_def nth_append fresh_channel_def Channel_new_def)
qed

lemma Poller_inv_with_conn:
  assumes "Poller_inv s" "channels s fd = None" "chans s (Suc (next_addr s)) = None" "fd \<noteq> - 1"
  shows "Poller_inv (with_conn fd peer r w s)"
proof -
  have "fd \<notin> set (map pfd_fd (pollfds s))" using assms(1,2) by (auto simp: Poller_inv_def)
  moreover have "\<exists>d dh. registered (with_conn fd peer r w s) j d dh" if "j < Suc (length (pollfds s))" for j
    using that assms(1) by (cases "j = length (pollfds s)") (auto simp: registered_with_conn [OF assms(2,3)] Poller_inv_def)
  ultimately show ?thesis
    using assms(1,4) by (auto simp: Poller_inv_def) (auto simp: with_conn_def)
qed

lemma with_conn_simps [simp]:
  "conns (with_conn fd peer r w s) = (conns s)(next_addr s \<mapsto> fresh_conn fd peer r w s)"
  "chans (with_conn fd peer r w s) = (chans s)(Suc (next_addr s) \<mapsto> fresh_channel fd s)"
  "sent (with_conn fd peer r w s) = (sent s)(fd := [])" "channels (with_conn fd peer r w s) = (channels s)(fd \<mapsto> Suc (next_addr s))"
  "connections (with_conn fd peer r w s) = map_assign (connection_name (srv_name s) (next_conn_id s)) (next_addr s) (connections s)"
  "tick (with_conn fd peer r w s) = tick s" "isInLoopThread (with_conn fd peer r w s) = isInLoopThread s"
  by (simp_all add: with_conn_def isInLoopThread_def)

lemma srv_inv_with_conn:
  assumes "srv_inv s" "\<forall>y d. conns s y = Some d \<longrightarrow> tc_fd d \<noteq> fd" "Buffer_inv r" "Buffer_inv w" "Buffer_content w = []"
  shows "srv_inv (with_conn fd peer r w s)"
  by (rule srv_inv_add [OF assms(1) refl, where c = "fresh_conn fd peer r w s" and ch = "fresh_channel fd s"])
    (use assms in \<open>simp_all add: fresh_conn_def fresh_channel_def Channel_new_def isWritingEnabled_def kReadEvent_def
      kWriteEvent_def poll_bits\<close>, simp_all add: with_conn_def)

lemma conn_live_with_conn:
  assumes "isInLoopThread s" "channels s fd = None" "chans s (Suc (next_addr s)) = None" "srv_wc_cb s = None"
    "Buffer_inv w" "Buffer_content w = []"
  shows "conn_live (with_conn fd peer r w s) (next_addr s) (fresh_conn fd peer r w s) (length (pollfds s)) (fresh_channel fd s)"
  using assms registered_with_conn [OF assms(2,3)] unfolding conn_live_def
  by (simp add: fresh_conn_def) (simp add: fresh_channel_def Channel_new_def)

lemma newConnection_ok:
  assumes inv: "srv_inv s" and thr: "isInLoopThread s" and id: "next_conn_id s < 2147483647"
    and fd: "channels s fd = None" "\<forall>y d. conns s y = Some d \<longrightarrow> tc_fd d \<noteq> fd" and cbs: "quiet_cbs cbs"
  obtains s' c ch where "newConnection cbs fd remote s = Inr s'" "srv_inv s'"
    "conns s' = (conns s)(next_addr s \<mapsto> c)" "tc_name c = connection_name (srv_name s) (next_conn_id s)"
    "tc_state c = kConnected" "tc_fd c = fd" "tc_local c = listen_addr s" "tc_remote c = remote"
    "tc_conn_cb c = srv_conn_cb s" "tc_msg_cb c = srv_msg_cb s" "tc_close_cb c = Some Server_removeConnection"
    "tc_wc_cb c = srv_wc_cb s" "tc_uses c = 1" "Buffer_content (tc_rev c) = []" "Buffer_content (tc_snd c) = []"
    "registered s' (length (pollfds s)) (tc_channel c) ch" "ch = fresh_channel fd s"
    "connections s' = map_assign (tc_name c) (next_addr s) (connections s)"
    "srv_wc_cb s = None \<longrightarrow> conn_live s' (next_addr s) c (length (pollfds s)) ch"
proof -
  obtain r w s' where rw: "Buffer_inv r" "Buffer_inv w" "Buffer_content r = []" "Buffer_content w = []"
    and s': "newConnection cbs fd remote s = Inr s'" "same_lib (with_conn fd remote r w s) s'"
    using newConnection_eq [OF srv_inv_fresh_name [OF inv] thr _ fd(1) cbs, of remote] id by (auto simp: fresh_buffer_def)
  let ?v = "with_conn fd remote r w s" and ?c = "fresh_conn fd remote r w s" and ?ch = "fresh_channel fd s"
  have free: "chans s (Suc (next_addr s)) = None" using inv by (simp add: srv_inv_def)
  have "srv_inv ?v" by (rule srv_inv_with_conn [OF inv fd(2) rw(1,2,4)])
  moreover have "registered ?v (length (pollfds s)) (tc_channel ?c) ?ch"
    using registered_with_conn [OF fd(1) free] by (simp add: fresh_conn_def)
  moreover have "registered s' j b d \<longleftrightarrow> registered ?v j b d" for j b d
    by (simp add: registered_def same_libD [OF s'(2)])
  ultimately show thesis
    using s'(1) srv_inv_same_lib [OF s'(2)] conn_live_same_lib [OF s'(2)] same_libD [OF s'(2)]
      conn_live_with_conn [OF thr fd(1) free _ rw(2,4)]
    by (intro that [of s' ?c ?ch]) (simp_all add: fresh_conn_def rw)
qed

lemma srv_inv_map: "srv_inv s \<Longrightarrow> conns s x = Some c \<Longrightarrow> map_of (connections s) (tc_name c) = Some x \<and> tc_uses c = 1"
  by (simp add: srv_inv_def)

text \<open>A change of the buffers of one connection and of the events of its channel.\<close>

lemma srv_inv_conn:
  assumes inv: "srv_inv s" and c: "conns s x = Some c" "chans s a \<noteq> None" "tc_name c' = tc_name c" "tc_uses c' = tc_uses c"
    and s': "tcp_inv s'" "conns s' = (conns s)(x \<mapsto> c')" "chans s' = (chans s)(a \<mapsto> ch)" "connections s' = connections s"
      "next_addr s' = next_addr s" "next_conn_id s' = next_conn_id s" "srv_name s' = srv_name s"
  shows "srv_inv s'"
proof -
  have free: "\<forall>d \<ge> next_addr s. conns s d = None \<and> chans s d = None" using inv by (simp add: srv_inv_def)
  have "x < next_addr s" using free c(1) by (cases "next_addr s \<le> x") simp_all
  moreover have "a < next_addr s" using free c(2) by (cases "next_addr s \<le> a") simp_all
  ultimately have "\<forall>d \<ge> next_addr s'. conns s' d = None \<and> chans s' d = None" using free by (simp add: s')
  moreover have "\<exists>d i. conns s' y = Some d \<and> tc_name d = n \<and> n = connection_name (srv_name s') i \<and> 0 \<le> i \<and> i < next_conn_id s'"
    if y: "map_of (connections s') n = Some y" for n y
  proof -
    obtain d i where "conns s y = Some d" "tc_name d = n" "n = connection_name (srv_name s) i" "0 \<le> i" "i < next_conn_id s"
      using inv y unfolding srv_inv_def s' by blast
    then show ?thesis using c by (intro exI [of _ "if y = x then c' else d"] exI [of _ i]) (auto simp: s')
  qed
  moreover have "map_of (connections s') (tc_name d) = Some y \<and> tc_uses d = 1" if "conns s' y = Some d" for y d
    using that srv_inv_map [OF inv] c by (auto simp: s' split: if_splits)
  ultimately show ?thesis using inv s' by (simp add: srv_inv_def)
qed

section \<open>Closing a connection\<close>

text \<open>Removing a connection and its channel keeps the invariant.\<close>

lemma srv_inv_remove:
  assumes inv: "srv_inv s" and c: "conns s x = Some c"
    and s': "conns s' = (conns s)(x := None)" "\<And>b. b \<noteq> tc_channel c \<Longrightarrow> chans s' b = chans s b" "chans s' (tc_channel c) = None"
      "sent s' = sent s" "accepted s' = accepted s" "connections s' = map_erase (tc_name c) (connections s)"
      "next_addr s' = next_addr s" "next_conn_id s' = next_conn_id s" "srv_name s' = srv_name s"
  shows "srv_inv s'"
proof -
  have tcp: "tcp_inv s" using inv by (simp add: srv_inv_def)
  have m: "map_of (connections s) (tc_name d) = Some y" "tc_uses d = 1" if "conns s y = Some d" for y d
    using srv_inv_map [OF inv that] by auto
  have old: "conn_ok s' y d" "tc_name d \<noteq> tc_name c" if "conns s y = Some d" "y \<noteq> x" for y d
  proof -
    have "conn_ok s y d" "tc_channel d \<noteq> tc_channel c" using tcp c that by (auto simp: tcp_inv_def)
    then show "conn_ok s' y d" by (simp add: conn_ok_def s')
    show "tc_name d \<noteq> tc_name c" using m(1) [OF c] m(1) [OF that(1)] that(2) by auto
  qed
  have "tcp_inv s'"
    using tcp unfolding tcp_inv_def s'(1) by (auto split: if_splits dest: old(1))
  moreover have "\<exists>d i. conns s' y = Some d \<and> tc_name d = n \<and> n = connection_name (srv_name s) i \<and> 0 \<le> i \<and> i < next_conn_id s"
    if y: "map_of (connections s) n = Some y" "n \<noteq> tc_name c" for n y
  proof -
    obtain d i where d: "conns s y = Some d" "tc_name d = n" "n = connection_name (srv_name s) i"
      "0 \<le> i" "i < next_conn_id s" using inv y(1) unfolding srv_inv_def by blast
    then have "y \<noteq> x" using c y(2) by auto
    with d show ?thesis by (auto simp: s')
  qed
  moreover have "chans s' b = None" if "next_addr s \<le> b" for b
    using inv that s'(2) [of b] s'(3) by (cases "b = tc_channel c") (auto simp: srv_inv_def)
  moreover have "conns s b = None" if "next_addr s \<le> b" for b
    using inv that by (simp add: srv_inv_def)
  moreover have "0 \<le> next_conn_id s" "map_sorted (map_erase (tc_name c) (connections s))"
    using inv by (simp_all add: srv_inv_def map_sorted_erase)
  ultimately show ?thesis
    using m old(2) unfolding srv_inv_def by (intro conjI) (auto simp: s' split: if_splits)
qed

lemma ConnectDestroyed_quiet:
  assumes "quiet_cbs cbs" "isInLoopThread s" "conns s x = Some c" "tc_state c = kDisconnected" "1 \<le> tc_uses c"
  shows "\<exists>s'. ConnectDestroyed cbs x s = Inr s' \<and> same_lib s s'"
proof -
  have [simp]: "c\<lparr>tc_state := kDisconnected\<rparr> = c" using assms(4) by simp
  have "ConnectDestroyed cbs x s = (case tc_conn_cb c of None \<Rightarrow> Inr s | Some f \<Rightarrow> call_with_this (cb_conn cbs f) x s)"
    using assms(2-4) by (simp add: ConnectDestroyed_def assertInLoopThread_def SetState_def)
  then show ?thesis
    using assms(1) call_with_this_quiet [OF _ assms(3,5)] by (auto simp: quiet_cbs_def split: option.split)
qed

lemma isInLoopThread_same_lib: "same_lib s s' \<Longrightarrow> isInLoopThread s' \<longleftrightarrow> isInLoopThread s"
  by (simp add: isInLoopThread_def same_libD)

lemma release_shared: "conns s x = Some c \<Longrightarrow> 2 \<le> tc_uses c \<Longrightarrow> release x s = Inr (set_conn x (c\<lparr>tc_uses := tc_uses c - 1\<rparr>) s)"
  by (simp add: release_def)

lemma release_last:
  "conns s x = Some c \<Longrightarrow> tc_uses c = 1 \<Longrightarrow> tc_state c = kDisconnected \<Longrightarrow>
   release x s = Inr (s\<lparr>conns := (conns s)(x := None), chans := (chans s)(tc_channel c := None), tick := tick s + 1\<rparr>)"
  by (simp add: release_def TcpConnection_delete_def set_conn_def)

lemma shared_ok: "conns s x = Some c \<Longrightarrow> 1 \<le> tc_uses c \<Longrightarrow> shared_from_this x s = Inr (set_conn x (c\<lparr>tc_uses := Suc (tc_uses c)\<rparr>) s)"
  by (simp add: shared_from_this_def)

text \<open>The functor that \<^verbatim>\<open>RunInLoop\<close> runs at once, with its bound pointer one of two owners.\<close>

lemma run_destroyed:
  assumes "quiet_cbs cbs" "isInLoopThread s" "conns s x = Some c" "tc_state c = kDisconnected" "tc_uses c = 2"
  shows "\<exists>t. EventLoop_RunInLoop f (\<lambda>s. bindR (ConnectDestroyed cbs x s) (release x)) s = Inr t \<and>
    same_lib (set_conn x (c\<lparr>tc_uses := 1\<rparr>) s) t"
proof -
  obtain t where t: "ConnectDestroyed cbs x s = Inr t" "same_lib s t"
    using ConnectDestroyed_quiet [OF assms(1-4)] assms(5) by auto
  have "release x t = Inr (set_conn x (c\<lparr>tc_uses := 1\<rparr>) t)"
    using same_libD(1) [OF t(2)] assms(3,5) by (simp add: release_shared [of t x c])
  moreover have "same_lib (set_conn x (c\<lparr>tc_uses := 1\<rparr>) s) (set_conn x (c\<lparr>tc_uses := 1\<rparr>) t)"
    by (rule same_lib_set_conn [OF t(2)])
  ultimately show ?thesis using assms(2) t(1) by (simp add: EventLoop_RunInLoop_def)
qed

lemma HandleClose_server:
  assumes inv: "srv_inv s" and thr: "isInLoopThread s" and cbs: "quiet_cbs cbs" and c: "conns s x = Some c"
    and st: "tc_state c = kConnected \<or> tc_state c = kDisconnecting" "tc_close_cb c = Some Server_removeConnection"
    and reg: "registered s i (tc_channel c) ch"
  shows "\<exists>s'. HandleClose (server_cbs cbs) x s = Inr s' \<and> srv_inv s' \<and> conns s' = (conns s)(x := None) \<and>
    chans s' = (chans s)(tc_channel c := None) \<and> connections s' = map_erase (tc_name c) (connections s) \<and>
    channels s' = (channels s)(tc_fd c := None) \<and> pollfds s' = take i (pollfds s) @ drop (Suc i) (pollfds s) \<and>
    sent s' = sent s \<and> accepted s' = accepted s"
proof -
  let ?d = "c\<lparr>tc_state := kDisconnected\<rparr>" and ?b = "tc_channel c"
  define r where "r = removed s i ?b ch"
  have u: "tc_uses c = 1" "map_of (connections s) (tc_name c) = Some x" using srv_inv_map [OF inv c] by auto
  then have d: "?d\<lparr>tc_uses := Suc 0\<rparr> = ?d" by simp
  have fd: "ch_fd ch = tc_fd c" using tcp_inv_conn [of s x c] inv c reg by (auto simp: srv_inv_def conn_ok_def registered_def)
  have r: "isInLoopThread r" "conns r = conns s" "connections r = connections s" "next_addr r = next_addr s"
      "next_conn_id r = next_conn_id s" "srv_name r = srv_name s" "sent r = sent s" "accepted r = accepted s"
      "channels r = (channels s)(tc_fd c := None)" "pollfds r = take i (pollfds s) @ drop (Suc i) (pollfds s)"
      "chans r = (chans s)(?b \<mapsto> ch\<lparr>ch_events := kNoneEvent\<rparr>)"
    using thr fd by (simp_all add: r_def removed_def isInLoopThread_def)
  define q where "q = set_conn x (?d\<lparr>tc_uses := 2\<rparr>) (r\<lparr>connections := map_erase (tc_name c) (connections s)\<rparr>)"
  have q: "isInLoopThread q" "conns q x = Some (?d\<lparr>tc_uses := 2\<rparr>)" using r(1) by (simp_all add: q_def isInLoopThread_def set_conn_def)
  obtain t where t: "EventLoop_RunInLoop (Conn_ConnectDestroyed_fn x) (\<lambda>s. bindR (ConnectDestroyed cbs x s) (release x)) q = Inr t"
      "same_lib (set_conn x ?d q) t"
    using run_destroyed [OF cbs q(1,2), of "Conn_ConnectDestroyed_fn x"] d by auto
  have "removeConnection cbs x (set_conn x (?d\<lparr>tc_uses := 2\<rparr>) r) = Inr t"
    using r(1,3) u t(1)
    by (simp add: removeConnection_def assertInLoopThread_def release_def shared_from_this_def q_def
        set_conn_connections [symmetric] numeral_2_eq_2)
  moreover have "release x t = Inr (t\<lparr>conns := (conns t)(x := None), chans := (chans t)(?b := None), tick := tick t + 1\<rparr>)"
    using same_libD(1) [OF t(2)] u(1) by (subst release_last [where c = ?d]) simp_all
  ultimately have res: "HandleClose (server_cbs cbs) x s =
      Inr (t\<lparr>conns := (conns t)(x := None), chans := (chans t)(?b := None), tick := tick t + 1\<rparr>)" (is "_ = Inr ?s'")
    using thr c st r(2) u(1) DisbaleAll_registered [OF thr reg]
    by (auto simp: HandleClose_def assertInLoopThread_def SetState_def call_with_this_def shared_from_this_def
        r_def [symmetric] numeral_2_eq_2)
  have s': "conns ?s' = (conns s)(x := None)" "chans ?s' = (chans s)(?b := None)"
      "connections ?s' = map_erase (tc_name c) (connections s)" "next_addr ?s' = next_addr s"
      "next_conn_id ?s' = next_conn_id s" "srv_name ?s' = srv_name s" "sent ?s' = sent s" "accepted ?s' = accepted s"
      "channels ?s' = (channels s)(tc_fd c := None)" "pollfds ?s' = take i (pollfds s) @ drop (Suc i) (pollfds s)"
    using r by (simp_all add: same_libD [OF t(2)] q_def) (simp_all add: set_conn_def)
  have "srv_inv ?s'"
    by (rule srv_inv_remove [OF inv c s'(1) _ _ s'(7,8,3-6)]; subst s'(2); simp)
  with res s' show ?thesis by blast
qed

section \<open>Destroying the server\<close>

lemma ConnectDestroyed_live:
  assumes "quiet_cbs cbs" "isInLoopThread s" "conns s x = Some c" "tc_state c = kConnected \<or> tc_state c = kDisconnecting"
    "1 \<le> tc_uses c" "registered s i (tc_channel c) ch"
  shows "\<exists>s'. ConnectDestroyed cbs x s = Inr s' \<and>
    same_lib (set_conn x (c\<lparr>tc_state := kDisconnected\<rparr>) (removed s i (tc_channel c) ch)) s'"
proof -
  let ?r = "removed s i (tc_channel c) ch" and ?d = "c\<lparr>tc_state := kDisconnected\<rparr>"
  have r: "conns ?r = conns s" by (simp add: removed_def)
  have "ConnectDestroyed cbs x s = (case tc_conn_cb c of None \<Rightarrow> Inr (set_conn x ?d ?r)
      | Some f \<Rightarrow> call_with_this (cb_conn cbs f) x (set_conn x ?d ?r))"
    using assms(2-4) r DisbaleAll_registered [OF assms(2,6)]
    by (auto simp: ConnectDestroyed_def assertInLoopThread_def SetState_def split: option.split)
  then show ?thesis
    using assms(1,5) call_with_this_quiet [of "cb_conn cbs _" "set_conn x ?d ?r" x ?d]
    by (auto simp: quiet_cbs_def split: option.split)
qed

lemma destroy_connection_eq:
  assumes "isInLoopThread s" "conns s x = Some c" "tc_uses c = 1"
  shows "destroy_connection cbs (name, x) s =
    bindR (bindR (ConnectDestroyed cbs x (set_conn x (c\<lparr>tc_uses := 2\<rparr>) s)) (release x)) (release x)"
proof -
  have c: "c\<lparr>tc_uses := 1\<rparr> = c" using assms(3) by simp
  have sh: "shared_from_this x s = Inr (set_conn x (c\<lparr>tc_uses := 2\<rparr>) s)"
    using shared_ok [OF assms(2)] assms(3) by (simp add: numeral_2_eq_2)
  moreover have "release x (set_conn x (c\<lparr>tc_uses := 2\<rparr>) s) = Inr s"
    using assms(2) c by (subst release_shared [where c = "c\<lparr>tc_uses := 2\<rparr>"]) simp_all
  ultimately show ?thesis
    using assms(1) by (simp add: destroy_connection_def EventLoop_RunInLoop_def)
qed

lemma destroy_connection_ok:
  assumes "quiet_cbs cbs" "isInLoopThread s" "conns s x = Some c" "tc_state c = kConnected \<or> tc_state c = kDisconnecting"
    "tc_uses c = 1" "registered s i (tc_channel c) ch"
  shows "\<exists>s'. destroy_connection cbs (name, x) s = Inr s' \<and> conns s' = (conns s)(x := None) \<and>
    chans s' = (chans s)(tc_channel c := None) \<and> channels s' = (channels s)(ch_fd ch := None) \<and>
    pollfds s' = take i (pollfds s) @ drop (Suc i) (pollfds s) \<and> isInLoopThread s' \<and> loop_addr s' = loop_addr s \<and>
    listen_channel s' = listen_channel s \<and> listen_socket s' = listen_socket s \<and> listening s' = listening s"
proof -
  let ?b = "tc_channel c" and ?d = "c\<lparr>tc_state := kDisconnected\<rparr>"
  define q where "q = set_conn x (c\<lparr>tc_uses := 2\<rparr>) s"
  have q: "isInLoopThread q" "conns q x = Some (c\<lparr>tc_uses := 2\<rparr>)" "registered q i ?b ch"
    using assms(2,6) by (simp_all add: q_def) (simp add: set_conn_def registered_def)
  obtain t where t: "ConnectDestroyed cbs x q = Inr t"
      "same_lib (set_conn x (c\<lparr>tc_uses := 2, tc_state := kDisconnected\<rparr>) (removed q i ?b ch)) t"
    using ConnectDestroyed_live [OF assms(1) q(1,2), of i ch] assms(4) q(3) by auto
  have rt: "release x t = Inr (set_conn x (?d\<lparr>tc_uses := 1\<rparr>) t)"
    using same_libD(1) [OF t(2)] by (simp add: release_def)
  have rt2: "release x (set_conn x (?d\<lparr>tc_uses := 1\<rparr>) t) = Inr (t\<lparr>conns := (conns t)(x := None), chans := (chans t)(?b := None), tick := tick t + 1\<rparr>)"
    by (subst release_last [where c = "?d\<lparr>tc_uses := 1\<rparr>"]) (simp_all add: set_conn_def)
  have "destroy_connection cbs (name, x) s =
      Inr (t\<lparr>conns := (conns t)(x := None), chans := (chans t)(?b := None), tick := tick t + 1\<rparr>)"
    using destroy_connection_eq [OF assms(2,3,5)] t(1) rt rt2 by (simp add: q_def [symmetric])
  then show ?thesis
    using assms(2) by (auto simp: same_libD [OF t(2)] q_def isInLoopThread_def) (auto simp: set_conn_def removed_def)
qed

text \<open>The update of a channel whose remembered index no longer points to its entry fails.\<close>

lemma set_events_stale:
  assumes "isInLoopThread s" "chans s b = Some ch" "ch_loop ch = loop_addr s" "channels s (ch_fd ch) = Some b"
    "0 \<le> ch_index ch" "nat (ch_index ch) < length (pollfds s) \<Longrightarrow>
      pfd_fd (pollfds s ! nat (ch_index ch)) \<noteq> ch_fd ch \<and> pfd_fd (pollfds s ! nat (ch_index ch)) \<noteq> - 1"
  shows "Channel_set_events f b s = Inl Assertion_failed"
  using assms
  by (auto simp: Channel_set_events_def EventLoop_update_def Poller_UpdateChannel_def
      assertInLoopThread_def isInLoopThread_def Let_def assertR_def)

section \<open>A server with one or two clients, for concrete runs\<close>

definition demo_buffer :: Buffer where
  "demo_buffer = \<lparr>buffer = replicate 16 (CHR ''z''), readerIndex = 8, writerIndex = 8\<rparr>"

definition demo_client :: "nat \<Rightarrow> TcpConnection" where
  "demo_client i =
     \<lparr>tc_name = connection_name ''srv'' (int i), tc_state = kConnected, tc_fd = 20 + int i, tc_channel = 5 + 2 * i,
      tc_local = \<lparr>sin_port = 0, sin_addr = 0\<rparr>, tc_remote = \<lparr>sin_port = 0, sin_addr = 0\<rparr>,
      tc_conn_cb = Some 0, tc_msg_cb = Some 0, tc_close_cb = Some Server_removeConnection, tc_wc_cb = None,
      tc_rev = demo_buffer, tc_snd = demo_buffer, tc_uses = 1\<rparr>"

definition demo_client_channel :: "nat \<Rightarrow> Channel" where
  "demo_client_channel i = (Channel_new 0 (20 + int i))\<lparr>ch_index := int i + 1, ch_events := kReadEvent, ch_revents := POLLIN,
     ch_read_cb := Some (Conn_HandleRead_fn (4 + 2 * i)), ch_write_cb := Some (Conn_HandleWrite_fn (4 + 2 * i)),
     ch_close_cb := Some (Conn_HandleClose_fn (4 + 2 * i))\<rparr>"

definition demo_server :: "bool \<Rightarrow> server_state" where
  "demo_server two =
     \<lparr>tick = 0, cur_tid = 7,
      chans = ([3 \<mapsto> (Channel_new 0 11)\<lparr>ch_index := 0, ch_events := kReadEvent, ch_read_cb := Some Acceptor_handleRead_fn\<rparr>,
               5 \<mapsto> demo_client_channel 0])(7 := if two then Some (demo_client_channel 1) else None),
      pollfds = [\<lparr>pfd_fd = 11, pfd_events = ucast kReadEvent, pfd_revents = 0\<rparr>,
                 \<lparr>pfd_fd = 20, pfd_events = ucast kReadEvent, pfd_revents = 0\<rparr>] @
                (if two then [\<lparr>pfd_fd = 21, pfd_events = ucast kReadEvent, pfd_revents = 0\<rparr>] else []),
      channels = ([11 \<mapsto> 3, 20 \<mapsto> 5])(21 := if two then Some 7 else None),
      loop_addr = 0, threadId = 7, looping = True, quit_flag = False,
      active_channels = [], wakeup_fd = 9, wakeup_count = 0, functors = [], captures = Map.empty, next_capture = 0,
      timers = [], timerfd = 8, timerfd_channel = 1, timer_armed = None, CreatedNum = 0, wakeup_channel = 2,
      t_loopInThisThread = Some 0,
      conns = ([4 \<mapsto> demo_client 0])(6 := if two then Some (demo_client 1) else None),
      sent = (\<lambda>_. []), accepted = (\<lambda>_. []), shut_wr = {}, bound_to = Map.empty, listening = {11}, listen_socket = 11,
      listen_channel = 3, new_conn_callback = True, srv_name = ''srv'', srv_conn_cb = Some 0, srv_msg_cb = Some 0,
      srv_wc_cb = None, next_conn_id = 2, listen_addr = \<lparr>sin_port = 0, sin_addr = 0\<rparr>,
      connections = (connection_name ''srv'' 0, 4) # (if two then [(connection_name ''srv'' 1, 6)] else []),
      next_addr = 8\<rparr>"

lemma demo_name_order: "connection_name n 0 < connection_name n 1"
proof -
  have "printf_d 0 = ''0''" "printf_d 1 = ''1''"
    by (simp_all add: printf_d_def dec.simps digit_def char_of_eq_iff)
  then show ?thesis by (induction n) (simp_all add: connection_name_def)
qed

lemma demo_buffer_facts [simp]: "Buffer_inv demo_buffer" "Buffer_content demo_buffer = []"
  by (simp_all add: demo_buffer_def Buffer_inv_def Buffer_content_def kCheapPrepend_def max_size_def)

lemma demo_registered:
  "registered (demo_server two) 0 3 ((Channel_new 0 11)\<lparr>ch_index := 0, ch_events := kReadEvent, ch_read_cb := Some Acceptor_handleRead_fn\<rparr>)"
  "registered (demo_server two) 1 5 (demo_client_channel 0)"
  "two \<Longrightarrow> registered (demo_server two) 2 7 (demo_client_channel 1)"
  by (simp_all add: registered_def demo_server_def demo_client_channel_def Channel_new_def)

lemma demo_poller: "Poller_inv (demo_server two)"
proof -
  have "\<exists>c ch. registered (demo_server two) i c ch" if "i < length (pollfds (demo_server two))" for i
  proof -
    have "i < (if two then 3 else 2)" using that by (simp add: demo_server_def split: if_splits)
    then consider "i = 0" | "i = 1" | "i = 2" "two" by (cases two) fastforce+
    then show ?thesis using demo_registered [of two] by cases blast+
  qed
  moreover have "distinct (map pfd_fd (pollfds (demo_server two)))" "- 1 \<notin> set (map pfd_fd (pollfds (demo_server two)))"
      "dom (channels (demo_server two)) = set (map pfd_fd (pollfds (demo_server two)))"
    by (auto simp: demo_server_def split: if_splits)
  ultimately show ?thesis by (simp add: Poller_inv_def)
qed

lemma demo_srv_inv: "srv_inv (demo_server two)"
proof -
  have w: "\<not> isWritingEnabled (demo_client_channel i)" for i
    by (simp add: isWritingEnabled_def demo_client_channel_def kReadEvent_def kWriteEvent_def poll_bits)
  moreover have "ch_fd (demo_client_channel i) = 20 + int i" for i
    by (simp add: demo_client_channel_def Channel_new_def)
  ultimately have "tcp_inv (demo_server two)"
    by (auto simp: tcp_inv_def conn_ok_def demo_server_def demo_client_def split: if_splits)
  moreover have "map_sorted (connections (demo_server two))"
    by (simp add: demo_server_def demo_name_order)
  moreover have "\<forall>x c. conns (demo_server two) x = Some c \<longrightarrow>
      map_of (connections (demo_server two)) (tc_name c) = Some x \<and> tc_uses c = 1"
    by (auto simp: demo_server_def demo_client_def split: if_splits)
  moreover have "\<exists>c i. conns (demo_server two) x = Some c \<and> tc_name c = n \<and>
        n = connection_name (srv_name (demo_server two)) i \<and> 0 \<le> i \<and> i < next_conn_id (demo_server two)"
    if "map_of (connections (demo_server two)) n = Some x" for n x
    using that by (auto simp: demo_server_def demo_client_def split: if_splits)
  moreover have "\<forall>a\<ge>next_addr (demo_server two). conns (demo_server two) a = None \<and> chans (demo_server two) a = None"
      "0 \<le> next_conn_id (demo_server two)" by (simp_all add: demo_server_def)
  ultimately show ?thesis unfolding srv_inv_def by blast
qed

lemma no_callbacks_quiet: "quiet_cbs no_callbacks"
  by (simp add: quiet_cbs_def quiet_def no_callbacks_def)

section \<open>Properties\<close>

text \<open>C6: when the listening socket is readable and \<^verbatim>\<open>accept4\<close> gives a descriptor that the loop does not know, the
  server makes a connection with a name no other connection has, in state \<^verbatim>\<open>kConnected\<close>, with the two addresses,
  empty buffers and the server's four callbacks. Its channel is registered with the poller for reading and for nothing else, and calls the connection's
  \<^verbatim>\<open>HandleRead\<close>, \<^verbatim>\<open>HandleWrite\<close> and \<^verbatim>\<open>HandleClose\<close>; the server's map is the connection's only owner. Connection callbacks are
  assumed only to look at the connection.\<close>

theorem TcpServer_accept_correct:
  assumes "srv_inv s" and "isInLoopThread s" and "new_conn_callback s" and "next_conn_id s < 2147483647"
    and "k_accept k (tick s) = (fd, peer)" and "0 \<le> fd"
    and "channels s fd = None" and "\<forall>y d. conns s y = Some d \<longrightarrow> tc_fd d \<noteq> fd" and "quiet_cbs cbs"
  shows "\<exists>s' c ch. run_closure k cbs user Acceptor_handleRead_fn s = Inr s' \<and> srv_inv s' \<and>
    conns s' = (conns s)(next_addr s \<mapsto> c) \<and> tc_state c = kConnected \<and> tc_fd c = fd \<and> tc_remote c = peer \<and> tc_local c = listen_addr s \<and>
    tc_conn_cb c = srv_conn_cb s \<and> tc_msg_cb c = srv_msg_cb s \<and> tc_wc_cb c = srv_wc_cb s \<and> tc_close_cb c = Some Server_removeConnection \<and>
    Buffer_content (tc_rev c) = [] \<and> Buffer_content (tc_snd c) = [] \<and> tc_uses c = 1 \<and>
    tc_name c \<notin> fst ` set (connections s) \<and> connections s' = map_assign (tc_name c) (next_addr s) (connections s) \<and>
    registered s' (length (pollfds s)) (tc_channel c) ch \<and> ch_fd ch = fd \<and> ch_events ch = kReadEvent \<and>
    ch_read_cb ch = Some (Conn_HandleRead_fn (next_addr s)) \<and> ch_write_cb ch = Some (Conn_HandleWrite_fn (next_addr s)) \<and>
    ch_close_cb ch = Some (Conn_HandleClose_fn (next_addr s)) \<and>
    (srv_wc_cb s = None \<longrightarrow> conn_live s' (next_addr s) c (length (pollfds s)) ch)"
proof -
  let ?s = "s\<lparr>tick := tick s + 1\<rparr>"
  have ok: "srv_inv ?s" "isInLoopThread ?s" "next_conn_id ?s < 2147483647" "channels ?s fd = None"
    "\<forall>y d. conns ?s y = Some d \<longrightarrow> tc_fd d \<noteq> fd"
    using assms tcp_inv_cong [of ?s s] by (simp_all add: srv_inv_def isInLoopThread_def)
  have run: "run_closure k cbs user Acceptor_handleRead_fn s = newConnection cbs fd peer ?s"
    using assms(2,3,5,6) by (simp add: run_closure_def Acceptor_handleRead_def assertInLoopThread_def InetAddress_of_def)
  have name: "connection_name (srv_name s) (next_conn_id s) \<notin> fst ` set (connections s)"
    using srv_inv_fresh_name [OF assms(1)] by (simp add: map_of_eq_None_iff)
  show ?thesis
  proof (rule newConnection_ok [OF ok assms(9), of peer], goal_cases)
    case (1 s' c ch)
    then show ?case
      using run name by (intro exI [of _ s'] exI [of _ c] exI [of _ ch]) (simp add: fresh_channel_def Channel_new_def)
  qed
qed

theorem TcpServer_accept_correct_witness:
  "\<exists>s' c. run_closure (null_kernel\<lparr>k_accept := \<lambda>_. (30, \<lparr>sin_port = 7, sin_addr = 9\<rparr>)\<rparr>) no_callbacks (\<lambda>_. Inr)
      Acceptor_handleRead_fn (demo_server True) = Inr s' \<and> conns s' 8 = Some c \<and> tc_fd c = 30 \<and> tc_state c = kConnected \<and>
      (\<exists>ch. registered s' (length (pollfds (demo_server True))) (tc_channel c) ch \<and> ch_read_cb ch = Some (Conn_HandleRead_fn 8))"
proof -
  let ?k = "null_kernel\<lparr>k_accept := \<lambda>_. (30, \<lparr>sin_port = 7, sin_addr = 9\<rparr>)\<rparr>" and ?s = "demo_server True"
  have "isInLoopThread ?s" "new_conn_callback ?s" "next_conn_id ?s < 2147483647"
      "k_accept ?k (tick ?s) = (30, \<lparr>sin_port = 7, sin_addr = 9\<rparr>)" "channels ?s 30 = None"
      "\<forall>y d. conns ?s y = Some d \<longrightarrow> tc_fd d \<noteq> 30" "next_addr ?s = 8"
    by (auto simp: demo_server_def isInLoopThread_def demo_client_def split: if_splits)
  then show ?thesis
    using TcpServer_accept_correct [OF demo_srv_inv, where cbs = no_callbacks, OF _ _ _ _ _ _ _ no_callbacks_quiet,
        of True ?k 30 "\<lparr>sin_port = 7, sin_addr = 9\<rparr>" "\<lambda>_. Inr"] by auto
qed

lemma Buffer_readFd_eof:
  assumes "Buffer_inv b" "rv (readFd_iov b) = Inr []"
  shows "Buffer_readFd rv e b = Inr (0, e, b)"
proof -
  have "sz_add (writerIndex b) 0 = writerIndex b" using assms(1) by (simp add: Buffer_inv_def sz_add_def max_size_def)
  then show ?thesis using assms by (simp add: Buffer_readFd_def Let_def Buffer_inv_def)
qed

text \<open>C29: a peer that closes its side normally, so that \<^verbatim>\<open>readv\<close> reports the end of the stream, makes the server
  destroy the connection and its channel while the channel's \<^verbatim>\<open>HandleEvent\<close> is still running: it goes on
  to read freed memory. The comment in \<^verbatim>\<open>removeConnection\<close> says the connection is kept until the server is
  destroyed.\<close>

theorem peer_close_use_after_free:
  assumes "srv_inv s" and "isInLoopThread s" and "quiet_cbs cbs" and "conns s x = Some c"
    and "tc_state c = kConnected" and "tc_close_cb c = Some Server_removeConnection"
    and "registered s i (tc_channel c) ch" and "ch_read_cb ch = Some (Conn_HandleRead_fn x)"
    and "ch_revents ch = POLLIN" and "k_readv k (tick s) (tc_fd c) (readFd_iov (tc_rev c)) = Inr []"
  shows "Channel_HandleEvent (run_closure k cbs user) (tc_channel c) s = Inl Use_after_free"
proof -
  have ok: "conn_ok s x c" using assms(1,4) by (simp add: srv_inv_def tcp_inv_def)
  have ch: "chans s (tc_channel c) = Some ch" "ch_fd ch = tc_fd c"
    using assms(7) ok by (auto simp: registered_def conn_ok_def)
  let ?s = "s\<lparr>tick := tick s + 1\<rparr>"
  have "Buffer_readFd (k_readv k (tick s) (tc_fd c)) None (tc_rev c) = Inr (0, None, tc_rev c)"
    using ok assms(10) by (intro Buffer_readFd_eof) (simp_all add: conn_ok_def)
  then have rd: "run_closure k cbs user (Conn_HandleRead_fn x) s = HandleClose (server_cbs cbs) x ?s"
    using assms(4) ch by (simp add: run_closure_def HandleRead_def Let_def)
  have "srv_inv ?s" using assms(1) tcp_inv_cong [of ?s s] by (simp add: srv_inv_def)
  moreover have "isInLoopThread ?s" "conns ?s x = Some c" "registered ?s i (tc_channel c) ch"
    using assms by (simp_all add: isInLoopThread_def registered_def)
  ultimately obtain s' where "HandleClose (server_cbs cbs) x ?s = Inr s'" "chans s' (tc_channel c) = None"
    using HandleClose_server [of ?s cbs x c i ch] assms by auto
  with rd show ?thesis by (intro HandleEvent_after_free [OF ch(1) assms(9,8)]) auto
qed

theorem peer_close_use_after_free_witness:
  "Channel_HandleEvent (run_closure (null_kernel\<lparr>k_readv := \<lambda>_ _ _. Inr []\<rparr>) no_callbacks (\<lambda>_. Inr)) 5 (demo_server True) =
     Inl Use_after_free"
proof -
  have "isInLoopThread (demo_server True)" "conns (demo_server True) 4 = Some (demo_client 0)"
    by (simp_all add: demo_server_def isInLoopThread_def)
  then have "Channel_HandleEvent (run_closure (null_kernel\<lparr>k_readv := \<lambda>_ _ _. Inr []\<rparr>) no_callbacks (\<lambda>_. Inr))
      (tc_channel (demo_client 0)) (demo_server True) = Inl Use_after_free"
    using demo_registered(2) [of True]
    by (intro peer_close_use_after_free [OF demo_srv_inv _ no_callbacks_quiet, where x = 4 and i = 1 and ch = "demo_client_channel 0"])
      (simp_all add: demo_client_def demo_client_channel_def)
  then show ?thesis by (simp add: demo_client_def)
qed

text \<open>Destroying a server with one connection closes and frees it and closes the listening socket, but
  the poller keeps its pointer to the acceptor's channel, which is gone.\<close>

lemma TcpServer_delete_dangling_channel:
  assumes "srv_inv s" and "Poller_inv s" and "isInLoopThread s" and "quiet_cbs cbs"
    and "connections s = [(n, x)]" and "conns s x = Some c" and "tc_state c = kConnected"
    and "registered s i (tc_channel c) ch"
    and "registered s j (listen_channel s) lch" and "listen_channel s \<noteq> tc_channel c"
  shows "\<exists>s'. TcpServer_delete cbs s = Inr s' \<and> conns s' = Map.empty \<and> listen_socket s \<notin> listening s' \<and>
    channels s' (ch_fd lch) = Some (listen_channel s) \<and> chans s' (listen_channel s) = None"
proof -
  have u: "tc_uses c = 1" using srv_inv_map [OF assms(1,6)] by simp
  obtain s' where s': "destroy_connection cbs (n, x) s = Inr s'" "conns s' = (conns s)(x := None)"
      "channels s' = (channels s)(ch_fd ch := None)" "listen_channel s' = listen_channel s"
      "listen_socket s' = listen_socket s"
    using destroy_connection_ok [OF assms(4,3,6) _ u assms(8), of n] assms(7) by auto
  have "i \<noteq> j" using assms(8-10) by (auto simp: registered_def)
  then have "ch_fd lch \<noteq> ch_fd ch"
    using Poller_inv_fd_inj [OF assms(2), of i j] assms(8,9) by (auto simp: registered_def)
  moreover have "channels s (ch_fd lch) = Some (listen_channel s)" using assms(9) by (simp add: registered_def)
  moreover have "conns s y = None" if "y \<noteq> x" for y
  proof (rule ccontr)
    assume "conns s y \<noteq> None"
    then obtain d where "conns s y = Some d" by blast
    from srv_inv_map [OF assms(1) this] assms(5) that show False by (simp split: if_splits)
  qed
  then have "(conns s)(x := None) = Map.empty" by (auto simp: fun_eq_iff)
  moreover have "TcpServer_delete cbs s = Inr (Acceptor_delete (s'\<lparr>connections := []\<rparr>))"
    using s'(1) assms(3,5) by (simp add: TcpServer_delete_def assertInLoopThread_def)
  ultimately show ?thesis
    using s'(2-5) by (simp add: Acceptor_delete_def Socket_delete_def)
qed

text \<open>Destroying a server with two clients, the first of which (in the order of the names) sits before the
  other in the poller's vector, fails an assertion: removing the first leaves the second with a wrong
  index.\<close>

lemma TcpServer_delete_two_fails:
  assumes "srv_inv s" and "Poller_inv s" and "isInLoopThread s" and "quiet_cbs cbs"
    and "connections s = (n, x) # (m, y) # rest"
    and "conns s x = Some c" and "tc_state c = kConnected" and "registered s i (tc_channel c) ch"
    and "conns s y = Some d" and "tc_state d = kConnected" and "registered s j (tc_channel d) dh" and "i < j"
  shows "TcpServer_delete cbs s = Inl Assertion_failed"
proof -
  have u: "tc_uses c = 1" "tc_uses d = 1" using srv_inv_map [OF assms(1)] assms(6,9) by simp_all
  obtain s' where s': "destroy_connection cbs (n, x) s = Inr s'" "conns s' = (conns s)(x := None)"
      "chans s' = (chans s)(tc_channel c := None)" "channels s' = (channels s)(ch_fd ch := None)"
      "pollfds s' = take i (pollfds s) @ drop (Suc i) (pollfds s)" "isInLoopThread s'" "loop_addr s' = loop_addr s"
    using destroy_connection_ok [OF assms(4,3,6) _ u(1) assms(8), of n] assms(7) by auto
  have ij: "i < length (pollfds s)" "j < length (pollfds s)" "i \<noteq> j" using assms(8,11,12) by (auto simp: registered_def)
  have y: "y \<noteq> x" using assms(6,8,9,11) ij(3) by (auto simp: registered_def)
  have b: "tc_channel d \<noteq> tc_channel c" using assms(8,11) ij(3) by (auto simp: registered_def)
  have fd: "ch_fd dh \<noteq> ch_fd ch" using Poller_inv_fd_inj [OF assms(2) ij(1,2)] assms(8,11) ij(3) by (auto simp: registered_def)
  have stale: "Channel_set_events f (tc_channel d) t = Inl Assertion_failed"
    if t: "isInLoopThread t" "chans t = chans s'" "loop_addr t = loop_addr s'" "channels t = channels s'" "pollfds t = pollfds s'"
    for f and t :: "'a server_state_scheme"
  proof (rule set_events_stale [OF t(1), where ch = dh])
    assume "nat (ch_index dh) < length (pollfds t)"
    then have "Suc j < length (pollfds s)" using t(5) s'(5) assms(11) ij by (simp add: registered_def)
    moreover have "pollfds t ! j = pollfds s ! Suc j"
      using t(5) s'(5) assms(12) calculation by (simp add: nth_append min_def)
    ultimately show "pfd_fd (pollfds t ! nat (ch_index dh)) \<noteq> ch_fd dh \<and> pfd_fd (pollfds t ! nat (ch_index dh)) \<noteq> - 1"
      using assms(11) Poller_inv_fd_inj [OF assms(2), of "Suc j" j] Poller_inv_fd_valid [OF assms(2), of "Suc j"]
      by (auto simp: registered_def)
  qed (use t(2-4) s'(3,4,7) assms(11) b fd in \<open>simp_all add: registered_def\<close>)
  define q where "q = set_conn y (d\<lparr>tc_uses := 2\<rparr>) s'"
  have q: "isInLoopThread q" "conns q y = Some (d\<lparr>tc_uses := 2\<rparr>)" "chans q = chans s'" "loop_addr q = loop_addr s'"
      "channels q = channels s'" "pollfds q = pollfds s'"
    using s'(6) by (simp_all add: q_def) (simp_all add: set_conn_def)
  have "ConnectDestroyed cbs y q = Inl Assertion_failed"
    using q assms(10) stale [OF q(1,3-6)] by (simp add: ConnectDestroyed_def assertInLoopThread_def Channel_DisbaleAll_def)
  then have "destroy_connection cbs (m, y) s' = Inl Assertion_failed"
    using s'(2) y assms(9) by (subst destroy_connection_eq [OF s'(6) _ u(2)]) (simp_all add: q_def [symmetric])
  then show ?thesis using assms(3,5) s'(1) by (simp add: TcpServer_delete_def assertInLoopThread_def)
qed

end
