(* ===== verification/Echo_Server.thy ===== *)
theory Echo_Server
  imports Tcp_Server
begin

unbundle bit_operations_syntax

text \<open>
  The example program examples/echo/main.cc: a server that prints what happens and sends every message
  back. Its two callbacks are the functions with number 0; what they print is recorded in \<open>out\<close>. Its
  callbacks satisfy the contract that the library asks of callbacks, so the facts about connections
  hold for this program.
\<close>

section \<open>The program\<close>

record echo_state = server_state +
  out :: string

definition newline :: string where
  "newline = [CHR 0x0A]"

definition echo_connection :: "nat \<Rightarrow> 'a echo_state_scheme \<Rightarrow> 'a echo_state_scheme result" where
  "echo_connection x s =
     ptrR Use_after_free (conns s x) (\<lambda>conn.
     Inr (s\<lparr>out := out s @
       (if connected conn
        then ''onConnection(): new connection ['' @ TcpConnection_name conn @ ''] from '' @
             remoteIP conn @ '':'' @ printf_d (remotePort conn) @ newline
        else ''onConnection(): shutdown connection ['' @ TcpConnection_name conn @ ''] from '' @
             remoteIP conn @ '':'' @ printf_d (remotePort conn) @ newline)\<rparr>))"

text \<open>The string \<^verbatim>\<open>msg\<close> lives until the callback returns; \<^verbatim>\<open>Send\<close> gets a reference to it.\<close>

definition echo_message ::
  "kernel \<Rightarrow> 'a echo_state_scheme callbacks \<Rightarrow> nat \<Rightarrow> Timestamp \<Rightarrow> 'a echo_state_scheme \<Rightarrow>
   'a echo_state_scheme result" where
  "echo_message k cbs x time s =
     ptrR Use_after_free (conns s x) (\<lambda>conn.
       let s = s\<lparr>out := out s @ ''onMessage(): received '' @ dec (readableBytes (tc_rev conn)) @
                   '' bytes from '' @ TcpConnection_name conn @ newline\<rparr>;
           msg = take (readableBytes (tc_rev conn)) (Buffer_peek (tc_rev conn));
           s = set_conn x (conn\<lparr>tc_rev := Buffer_retrieveAll (tc_rev conn)\<rparr>) s;
           a = next_capture s;
           s = s\<lparr>captures := (captures s)(a \<mapsto> Captured_string msg), next_capture := Suc a\<rparr>
       in bindR (Send k cbs x a s) (\<lambda>s. Inr (s\<lparr>captures := (captures s)(a := None)\<rparr>)))"

text \<open>\<open>echo_conn_cbs\<close> are the callbacks without the message callback: all that sending can reach.\<close>

definition echo_conn_cbs :: "'a echo_state_scheme callbacks" where
  "echo_conn_cbs = no_callbacks\<lparr>cb_conn := \<lambda>_. echo_connection\<rparr>"

definition echo_cbs :: "kernel \<Rightarrow> 'a echo_state_scheme callbacks" where
  "echo_cbs k = echo_conn_cbs\<lparr>cb_msg := \<lambda>_ x time. echo_message k echo_conn_cbs x time\<rparr>"

text \<open>The program up to \<^verbatim>\<open>loop.loop()\<close>; the loop and its two channels get fresh addresses.\<close>

definition echo_setup :: "kernel \<Rightarrow> 'a echo_state_scheme \<Rightarrow> 'a echo_state_scheme result" where
  "echo_setup k s =
     (let l = next_addr s; s = s\<lparr>next_addr := l + 3\<rparr>
      in bindR (EventLoop_new k l (l + 1) (l + 2) s) (\<lambda>s.
         let addr = InetAddress_new ''127.0.0.1'' 5000
         in bindR (TcpServer_new k addr ''test'' s) (\<lambda>s.
            TcpServer_Start k (SetMessageCallback 0 (SetConnectionCallback 0 s)))))"

text \<open>The whole program; \<open>None\<close> if it runs for ever. At the end the server is destroyed, then the loop.\<close>

definition echo_main :: "kernel \<Rightarrow> 'a echo_state_scheme \<Rightarrow> 'a echo_state_scheme result option" where
  "echo_main k s =
     (case echo_setup k s of
        Inl e \<Rightarrow> Some (Inl e)
      | Inr s \<Rightarrow> map_option (\<lambda>r. bindR r (\<lambda>s. bindR (TcpServer_delete (echo_cbs k) s) EventLoop_delete))
                  (EventLoop_loop k (run_closure k (echo_cbs k) (\<lambda>_. Inr)) s))"

section \<open>The callbacks keep the contract of the library\<close>

lemma tcp_inv_echo [simp]:
  "tcp_inv (s\<lparr>out := x\<rparr>) \<longleftrightarrow> tcp_inv s" "tcp_inv (s\<lparr>captures := c\<rparr>) \<longleftrightarrow> tcp_inv s"
  "tcp_inv (s\<lparr>next_capture := n\<rparr>) \<longleftrightarrow> tcp_inv s"
  by (rule tcp_inv_cong; simp)+

lemma echo_connection_keeps: "tcp_inv s \<Longrightarrow> safeR (echo_connection x s) tcp_inv"
  by (simp add: echo_connection_def wp_simps)

interpretation echo_conn: connection_callbacks "echo_conn_cbs :: 'a echo_state_scheme callbacks"
  by unfold_locales (simp_all add: echo_conn_cbs_def no_callbacks_def echo_connection_keeps)

lemma Buffer_retrieveAll_facts [simp]:
  assumes "Buffer_inv b"
  shows "Buffer_inv (Buffer_retrieveAll b)" "Buffer_content (Buffer_retrieveAll b) = []"
  using assms by (auto simp: Buffer_retrieveAll_def Buffer_inv_def Buffer_content_def)

lemma echo_message_keeps:
  assumes "tcp_inv s"
  shows "safeR (echo_message k echo_conn_cbs x time s) tcp_inv"
proof -
  have "tcp_inv (set_conn x (c\<lparr>tc_rev := Buffer_retrieveAll (tc_rev c)\<rparr>) (s\<lparr>out := m\<rparr>))"
    if "conns s x = Some c" for c m
    using that assms tcp_inv_conn [OF assms that] by (intro tcp_inv_set_conn [of _ x c]) (auto simp: conn_ok_def)
  then show ?thesis
    by (auto simp: echo_message_def Let_def safeR_ptrR safeR_bindR intro!: safeR_mono [OF echo_conn.Send_keeps])
qed

interpretation echo_user: connection_callbacks "echo_cbs k :: 'a echo_state_scheme callbacks" for k
  by unfold_locales (simp_all add: echo_cbs_def echo_conn.conn_keeps echo_conn.close_keeps echo_message_keeps)

interpretation echo_server: connection_callbacks "server_cbs (echo_cbs k) :: 'a echo_state_scheme callbacks" for k
  by (rule server_cbs_keep) (rule echo_user.connection_callbacks_axioms)

lemma echo_quiet: "quiet_cbs (echo_cbs k :: 'a echo_state_scheme callbacks)"
  by (auto simp: quiet_cbs_def quiet_def echo_cbs_def echo_conn_cbs_def no_callbacks_def echo_connection_def
      same_lib_def server_state.defs)

section \<open>Starting up\<close>

text \<open>The program when it starts to loop, with the descriptors \<open>fd i\<close> of the timerfd, the eventfd and the listening
  socket.\<close>

definition echo_started :: "kernel \<Rightarrow> 'a echo_state_scheme \<Rightarrow> 'a echo_state_scheme" where
  "echo_started k s =
     (let l = next_addr s; fd = (\<lambda>i. k_call k (tick s + i)); addr = InetAddress_new ''127.0.0.1'' 5000;
          loop = (constructed_loop l (l + 1) (l + 2) (fd 0) (fd 1) (s\<lparr>next_addr := l + 3\<rparr>))\<lparr>next_addr := l + 4\<rparr>
      in (constructed_acceptor (l + 3) (fd 2) addr loop)\<lparr>srv_name := ''test'', srv_wc_cb := None, next_conn_id := 0,
          listen_addr := addr, connections := [], srv_conn_cb := Some 0, srv_msg_cb := Some 0,
          new_conn_callback := True, tick := tick s + 5, listening := insert (fd 2) (listening s)\<rparr>)"

lemmas echo_started_defs = echo_started_def constructed_acceptor_def constructed_loop_def Let_def

text \<open>The first three descriptors are new ones, and \<^verbatim>\<open>bind\<close> and \<^verbatim>\<open>listen\<close> succeed.\<close>

definition boots :: "kernel \<Rightarrow> nat \<Rightarrow> bool" where
  "boots k t \<longleftrightarrow> 0 \<le> k_call k t \<and> 0 \<le> k_call k (t + 1) \<and> 0 \<le> k_call k (t + 2) \<and>
     distinct [k_call k t, k_call k (t + 1), k_call k (t + 2)] \<and> k_call k (t + 3) \<noteq> - 1 \<and> k_call k (t + 4) \<noteq> - 1"

lemma echo_setup_eq:
  fixes s :: "'a echo_state_scheme" and k :: kernel
  assumes s: "t_loopInThisThread s = None" and boots: "boots k (tick s)"
  shows "echo_setup k s = Inr (echo_started k s)"
proof -
  let ?f = "\<lambda>i. k_call k (tick s + i)" and ?l = "next_addr s" and ?addr = "InetAddress_new ''127.0.0.1'' 5000"
  have fds: "0 \<le> ?f 1" "0 \<le> ?f 2" "distinct [?f 0, ?f 1, ?f 2]" "?f 3 \<noteq> - 1" "?f 4 \<noteq> - 1"
    using boots by (simp_all add: boots_def)
  define c where "c = constructed_loop ?l (?l + 1) (?l + 2) (?f 0) (?f 1) (s\<lparr>next_addr := ?l + 3\<rparr>)"
  let ?c = "c\<lparr>next_addr := ?l + 4\<rparr>"
  have c: "EventLoop_new k ?l (?l + 1) (?l + 2) (s\<lparr>next_addr := ?l + 3\<rparr>) = Inr c"
    using s fds(1,3) EventLoop_new_eq [of "?f 0" k "s\<lparr>next_addr := ?l + 3\<rparr>" "?f 1" ?l "?l + 1" "?l + 2"] by (simp add: c_def)
  have ct: "tick c = tick s + 2" "next_addr c = ?l + 3" "isInLoopThread ?c" "channels ?c (?f 2) = None"
      "listening c = listening s"
    using fds(3) by (simp_all add: c_def constructed_loop_def isInLoopThread_def)
  define a where "a = constructed_acceptor (?l + 3) (?f 2) ?addr ?c"
  have a: "Acceptor_new k (?l + 3) ?addr ?c = Inr a"
    using Acceptor_new_eq [OF ct(3) _ ct(4), of k "?l + 3" ?addr] ct(1) fds(2,4)
    by (simp add: a_def numeral_3_eq_3 numeral_2_eq_2)
  have at: "tick a = tick s + 4" "isInLoopThread a" "listening a = listening s" "listen_socket a = ?f 2"
    using ct by (simp_all add: a_def constructed_acceptor_def isInLoopThread_def)
  have n: "TcpServer_new k ?addr ''test'' c = Inr (a\<lparr>srv_name := ''test'', srv_conn_cb := None, srv_msg_cb := None, srv_wc_cb := None,
      next_conn_id := 0, listen_addr := ?addr, connections := []\<rparr>)"
    using ct(2) a by (simp add: TcpServer_new_def add.commute)
  have "echo_setup k s = Inr (a\<lparr>srv_name := ''test'', srv_wc_cb := None, next_conn_id := 0, listen_addr := ?addr,
      connections := [], srv_conn_cb := Some 0, srv_msg_cb := Some 0, new_conn_callback := True, tick := tick s + 5,
      listening := insert (?f 2) (listening s)\<rparr>)"
    using c n at fds(5)
    by (simp add: echo_setup_def Let_def TcpServer_Start_def SetMessageCallback_def SetConnectionCallback_def
        Acceptor_listen_def SetNewConnectionCallback_def assertInLoopThread_def isInLoopThread_def add.commute)
  then show ?thesis by (simp only: a_def c_def echo_started_def Let_def)
qed

lemma echo_started_inv:
  fixes s :: "'a echo_state_scheme"
  assumes s: "conns s = Map.empty" "\<And>a. next_addr s \<le> a \<Longrightarrow> chans s a = None" and boots: "boots k (tick s)"
  shows "srv_inv (echo_started k s)" "Poller_inv (echo_started k s)"
proof -
  let ?f = "\<lambda>i. k_call k (tick s + i)" and ?l = "next_addr s" and ?addr = "InetAddress_new ''127.0.0.1'' 5000"
  define c where "c = constructed_loop ?l (?l + 1) (?l + 2) (?f 0) (?f 1) (s\<lparr>next_addr := ?l + 3\<rparr>)\<lparr>next_addr := ?l + 4\<rparr>"
  have fds: "0 \<le> ?f 0" "0 \<le> ?f 1" "0 \<le> ?f 2" "distinct [?f 0, ?f 1, ?f 2]" using boots by (simp_all add: boots_def)
  have "Poller_inv c"
    using constructed_loop_poller [of "?f 0" "?f 1" "?l + 1" "?l + 2" ?l "s\<lparr>next_addr := ?l + 3\<rparr>"] fds
    by (simp add: c_def Poller_inv_def registered_def)
  moreover define a where "a = constructed_acceptor (?l + 3) (?f 2) ?addr c"
  ultimately have "Poller_inv a"
    unfolding a_def using s(2) fds by (intro constructed_acceptor_poller) (auto simp: c_def constructed_loop_def)
  moreover have "echo_started k s = a\<lparr>srv_name := ''test'', srv_wc_cb := None, next_conn_id := 0, listen_addr := ?addr,
      connections := [], srv_conn_cb := Some 0, srv_msg_cb := Some 0, new_conn_callback := True, tick := tick s + 5,
      listening := insert (?f 2) (listening s)\<rparr>"
    by (simp only: echo_started_def Let_def a_def c_def)
  ultimately show "Poller_inv (echo_started k s)" by (simp add: Poller_inv_def registered_def)
  show "srv_inv (echo_started k s)" using s by (simp add: srv_inv_def tcp_inv_def echo_started_defs)
qed

text \<open>C33: started in a thread without a loop, with a kernel that gives three new descriptors and lets the calls
  succeed, the echo program listens on port 5000 with its callbacks in place: the poller watches the
  timerfd, the eventfd and the listening socket, and the server's invariant holds, so that every
  theorem about accepting applies.\<close>

theorem echo_setup_correct:
  fixes s :: "'a echo_state_scheme" and k :: kernel
  assumes "t_loopInThisThread s = None" and "conns s = Map.empty" and "\<And>a. next_addr s \<le> a \<Longrightarrow> chans s a = None"
    and "boots k (tick s)"
  shows "\<exists>s'. echo_setup k s = Inr s' \<and> srv_inv s' \<and> Poller_inv s' \<and> isInLoopThread s' \<and> \<not> looping s' \<and>
    map pfd_fd (pollfds s') = [k_call k (tick s), k_call k (tick s + 1), k_call k (tick s + 2)] \<and>
    listen_socket s' = k_call k (tick s + 2) \<and> listen_socket s' \<in> listening s' \<and>
    map_option InetAddress_Port (bound_to s' (listen_socket s')) = Some 5000 \<and> new_conn_callback s' \<and>
    srv_conn_cb s' = Some 0 \<and> srv_msg_cb s' = Some 0 \<and> connections s' = []"
proof -
  have "InetAddress_Port (InetAddress_new ''127.0.0.1'' 5000) = 5000"
    by (simp add: InetAddress_Port_def InetAddress_new_def ntohs_htons)
  then show ?thesis
    using echo_setup_eq [OF assms(1,4)] echo_started_inv [OF assms(2-4)]
    by (intro exI [of _ "echo_started k s"] conjI) (simp_all add: echo_started_defs isInLoopThread_def)
qed

definition fresh_process :: echo_state where
  "fresh_process =
     \<lparr>tick = 0, cur_tid = 7, chans = Map.empty, pollfds = [], channels = Map.empty, loop_addr = 0, threadId = 0,
      looping = False, quit_flag = False, active_channels = [], wakeup_fd = 0, wakeup_count = 0, functors = [],
      captures = Map.empty, next_capture = 0, timers = [], timerfd = 0, timerfd_channel = 0, timer_armed = None,
      CreatedNum = 0, wakeup_channel = 0, t_loopInThisThread = None, conns = Map.empty, sent = (\<lambda>_. []),
      accepted = (\<lambda>_. []), shut_wr = {}, bound_to = Map.empty, listening = {}, listen_socket = 0,
      listen_channel = 0, new_conn_callback = False, srv_name = [], srv_conn_cb = None, srv_msg_cb = None,
      srv_wc_cb = None, next_conn_id = 0, listen_addr = \<lparr>sin_port = 0, sin_addr = 0\<rparr>, connections = [],
      next_addr = 1, out = []\<rparr>"

theorem echo_setup_correct_witness:
  "\<exists>s'. echo_setup (null_kernel\<lparr>k_call := \<lambda>t. int t + 3\<rparr>) fresh_process = Inr s' \<and> srv_inv s' \<and> 5 \<in> listening s'"
proof -
  let ?k = "null_kernel\<lparr>k_call := \<lambda>t. int t + 3\<rparr>"
  have "\<exists>s'. echo_setup ?k fresh_process = Inr s' \<and> srv_inv s' \<and> listen_socket s' = k_call ?k (tick fresh_process + 2) \<and>
      listen_socket s' \<in> listening s'"
    using echo_setup_correct [of fresh_process ?k] by (auto simp: fresh_process_def boots_def)
  then show ?thesis by (auto simp: fresh_process_def)
qed

section \<open>Echoing\<close>

text \<open>The state in which the message callback calls \<^verbatim>\<open>Send\<close>.\<close>

definition echo_prepared :: "nat \<Rightarrow> TcpConnection \<Rightarrow> 'a echo_state_scheme \<Rightarrow> 'a echo_state_scheme" where
  "echo_prepared x conn s =
     (set_conn x (conn\<lparr>tc_rev := Buffer_retrieveAll (tc_rev conn)\<rparr>)
       (s\<lparr>out := out s @ ''onMessage(): received '' @ dec (readableBytes (tc_rev conn)) @
            '' bytes from '' @ TcpConnection_name conn @ newline\<rparr>))
     \<lparr>captures := (captures s)(next_capture s \<mapsto> Captured_string (Buffer_content (tc_rev conn))),
      next_capture := Suc (next_capture s)\<rparr>"

lemma echo_message_eq:
  assumes "conns s x = Some conn" "Buffer_inv (tc_rev conn)" "isInLoopThread s"
  shows "echo_message k cbs x time s =
    bindR (sendInLoop k cbs x (Buffer_content (tc_rev conn)) (echo_prepared x conn s)) (\<lambda>t.
    Inr (t\<lparr>captures := (captures t)(next_capture s := None)\<rparr>))"
proof -
  have "isInLoopThread (echo_prepared x conn s)"
    "captures (echo_prepared x conn s) (next_capture s) = Some (Captured_string (Buffer_content (tc_rev conn)))"
    using assms(3) by (simp_all add: echo_prepared_def isInLoopThread_def set_conn_def)
  moreover have "echo_message k cbs x time s =
      bindR (Send k cbs x (next_capture s) (echo_prepared x conn s)) (\<lambda>t. Inr (t\<lparr>captures := (captures t)(next_capture s := None)\<rparr>))"
    using assms(1) take_peek [OF assms(2)] by (simp add: echo_message_def echo_prepared_def set_conn_def Let_def)
  ultimately show ?thesis by (simp add: Send_def sendInLoop_call_def)
qed

text \<open>C5: when a message arrives on a connection in use and the kernel does not refuse it with a hard error,
  the echo program reads it completely, and the bytes given to the kernel followed by those that
  wait to be sent are what they were before with the message appended: what is sent back is what was
  received, in order. The connection stays in use.\<close>

theorem echo_replies:
  fixes s :: "'a echo_state_scheme"
  assumes live: "conn_live s x c i ch" and c: "tc_msg_cb c = Some 0" "1 \<le> tc_uses c"
    and rev: "Buffer_inv (tc_rev c)" "Buffer_content (tc_rev c) = []" "length (buffer (tc_rev c)) + extrabuf_size \<le> max_size"
    and rd: "k_readv k (tick s) (tc_fd c) (readFd_iov (tc_rev c)) = Inr bs" "bs \<noteq> []" "readv_ok (k_readv k (tick s) (tc_fd c))"
    and wr: "Buffer_fits bs (tc_snd c)" "k_write k (tick s + 2) (tc_fd c) bs = (n, errno)" "- 1 \<le> n" "n \<le> int (length bs)"
      "0 \<le> n \<or> errno = EWOULDBLOCK"
  shows "\<exists>s' c' ch'. HandleRead k (server_cbs (echo_cbs k)) x s = Inr s' \<and> conn_live s' x c' i ch' \<and>
    tc_uses c' = tc_uses c \<and> tc_fd c' = tc_fd c \<and> Buffer_content (tc_rev c') = [] \<and>
    sent s' (tc_fd c) @ Buffer_content (tc_snd c') = sent s (tc_fd c) @ Buffer_content (tc_snd c) @ bs"
proof -
  obtain b where b: "Buffer_readFd (k_readv k (tick s) (tc_fd c)) None (tc_rev c) = Inr (int (length bs), None, b)"
      "Buffer_inv b" "Buffer_content b = bs"
    using Buffer_readFd_ok [OF rev(1,3) rd(3), of None] rd(1) rev(2) by (auto simp: okR_def)
  have cs: "conns s x = Some c" "chans s (tc_channel c) = Some ch" "ch_fd ch = tc_fd c" "isInLoopThread s"
    using live conn_live_chan [OF live] by (simp_all add: conn_live_def)
  let ?d = "c\<lparr>tc_rev := Buffer_retrieveAll b, tc_uses := Suc (tc_uses c)\<rparr>"
  define u where "u = set_conn x (c\<lparr>tc_rev := b, tc_uses := Suc (tc_uses c)\<rparr>) (s\<lparr>tick := tick s + 2\<rparr>)"
  define v where "v = echo_prepared x (c\<lparr>tc_rev := b, tc_uses := Suc (tc_uses c)\<rparr>) u"
  have v: "conn_live v x ?d i ch" "tick v = tick s + 2" "sent v = sent s"
    using live by (simp_all add: v_def u_def echo_prepared_def conn_live_def registered_def isInLoopThread_def set_conn_def)
  obtain t b' ch' where t: "sendInLoop k echo_conn_cbs x bs v = Inr t" "conn_live t x (?d\<lparr>tc_snd := b'\<rparr>) i ch'"
    and eff: "if Buffer_content (tc_snd c) \<noteq> []
     then sent t = sent s \<and> Buffer_content b' = Buffer_content (tc_snd c) @ bs
     else if 0 \<le> n
     then sent t = (sent s)(tc_fd c := sent s (tc_fd c) @ take (nat n) bs) \<and> Buffer_content b' = drop (nat n) bs
     else sent t = sent s \<and> Buffer_content b' = (if errno = EWOULDBLOCK then bs else [])"
    using sendInLoop_live [OF v(1), of bs k n errno echo_conn_cbs] wr(1-4) v(2,3) by auto
  have out: "sent t (tc_fd c) @ Buffer_content b' = sent s (tc_fd c) @ Buffer_content (tc_snd c) @ bs"
    using eff wr(5) by (auto split: if_splits)
  have ct: "conns t x = Some (?d\<lparr>tc_snd := b'\<rparr>)" using t(2) by (simp add: conn_live_def)
  let ?t = "t\<lparr>captures := (captures t)(next_capture u := None)\<rparr>"
  have em: "echo_message k echo_conn_cbs x now u = Inr ?t" for now
    using echo_message_eq [of u x "c\<lparr>tc_rev := b, tc_uses := Suc (tc_uses c)\<rparr>"] t(1) b(2,3) cs(4)
    by (simp add: v_def) (simp add: u_def isInLoopThread_def set_conn_def)
  let ?c' = "c\<lparr>tc_rev := Buffer_retrieveAll b, tc_snd := b'\<rparr>"
  have rl: "release x ?t = Inr (set_conn x ?c' ?t)"
    using ct c(2) by (simp add: release_def)
  have "HandleRead k (server_cbs (echo_cbs k)) x s = Inr (set_conn x ?c' ?t)"
    using cs b(1) rd(2) c em rl by (simp add: HandleRead_def Let_def call_with_this_def shared_from_this_def echo_cbs_def u_def set_conn_def)
  moreover have "conn_live (set_conn x ?c' ?t) x ?c' i ch'"
    using t(2) by (simp add: conn_live_def registered_def isInLoopThread_def set_conn_def)
  ultimately show ?thesis
    using out b(2) by (intro exI [of _ "set_conn x ?c' ?t"] exI [of _ ?c'] exI [of _ ch']) (simp add: set_conn_def)
qed

theorem echo_replies_witness:
  "\<exists>s' c' ch'. HandleRead (null_kernel\<lparr>k_readv := \<lambda>_ _ lens. Inr (take (sum_list lens) ''hi''), k_write := \<lambda>_ _ _. (1, 0)\<rparr>)
      (server_cbs (echo_cbs (null_kernel\<lparr>k_readv := \<lambda>_ _ lens. Inr (take (sum_list lens) ''hi''), k_write := \<lambda>_ _ _. (1, 0)\<rparr>)))
      4 (server_state.extend (demo_server False) (echo_state.fields [])) = Inr s' \<and>
    conn_live s' 4 c' 1 ch' \<and> sent s' 20 @ Buffer_content (tc_snd c') = ''hi''"
proof -
  let ?k = "null_kernel\<lparr>k_readv := \<lambda>_ _ lens. Inr (take (sum_list lens) ''hi''), k_write := \<lambda>_ _ _. (1, 0)\<rparr>"
  let ?s = "server_state.extend (demo_server False) (echo_state.fields []) :: echo_state"
  have "registered ?s 1 5 (demo_client_channel 0)" using demo_registered(2) [of False]
    by (simp add: registered_def server_state.defs)
  then have live: "conn_live ?s 4 (demo_client 0) 1 (demo_client_channel 0)"
    by (simp add: conn_live_def server_state.defs demo_client_def isInLoopThread_def)
      (simp add: demo_server_def demo_client_def demo_client_channel_def Channel_new_def)
  have c: "tc_msg_cb (demo_client 0) = Some 0" "1 \<le> tc_uses (demo_client 0)" "Buffer_inv (tc_rev (demo_client 0))"
      "Buffer_content (tc_rev (demo_client 0)) = []" "length (buffer (tc_rev (demo_client 0))) + extrabuf_size \<le> max_size"
      "tc_fd (demo_client 0) = 20" "Buffer_content (tc_snd (demo_client 0)) = []" "Buffer_fits ''hi'' (tc_snd (demo_client 0))"
    by (simp_all add: demo_client_def Buffer_fits_def) (simp_all add: demo_buffer_def extrabuf_size_def max_size_def)
  have r: "sum_list (readFd_iov (tc_rev (demo_client 0))) = 65544"
    by (simp add: demo_client_def demo_buffer_def readFd_iov_def writableBytes_def sz_sub_def extrabuf_size_def size_t_mod_def)
  have rd: "k_readv ?k (tick ?s) (tc_fd (demo_client 0)) (readFd_iov (tc_rev (demo_client 0))) = Inr ''hi''"
    "readv_ok (k_readv ?k (tick ?s) (tc_fd (demo_client 0)))"
    by (simp_all add: r readv_ok_def)
  have "sent ?s 20 = []" by (simp add: server_state.defs demo_server_def)
  then show ?thesis
    using echo_replies [OF live c(1-5) rd(1) _ rd(2) c(8), of 1 0] c(6,7) by auto
qed

text \<open>Whatever closures the loop of the echo program runs, in any order (reads, writes, closings, timers,
  wake-ups and queued functors): unless the program has failed, what each connection has accepted for
  sending is what the kernel got followed by what waits, in order.\<close>

lemma echo_stream_integrity:
  fixes s :: "'a echo_state_scheme"
  assumes "tcp_inv s" and "Acceptor_handleRead_fn \<notin> set fs"
  shows "safeR (foldR (run_closure k (echo_cbs k) (\<lambda>_. Inr)) fs s) (\<lambda>s'.
    \<forall>x c. conns s' x = Some c \<longrightarrow> accepted s' x = sent s' (tc_fd c) @ Buffer_content (tc_snd c))"
proof -
  have "safeR (foldR (run_closure k (echo_cbs k) (\<lambda>_. Inr)) fs s) tcp_inv"
    using assms by (intro foldR_safe run_closure_keeps echo_user.connection_callbacks_axioms) auto
  then show ?thesis by (rule safeR_mono) (auto simp: tcp_inv_def conn_ok_def)
qed

end
