(* ===== verification/Loop_Quit.thy ===== *)
theory Loop_Quit
  imports Echo_Server
begin

unbundle bit_operations_syntax

text \<open>
  \<^verbatim>\<open>EventLoop::quit\<close> and \<^verbatim>\<open>EventLoop::loop\<close> with the closures of the library. Nothing that the loop runs takes a \<^verbatim>\<open>quit()\<close>
  back: each operation of the library keeps \<^verbatim>\<open>quit_\<close> set when it is (\<open>run_closure_quit\<close>), provided the functions of the user
  do, which is the interface \<open>quit_callbacks\<close>; the callbacks of the echo program satisfy it. So the loop ends with the iteration in
  which a callback, a timer or a functor calls \<^verbatim>\<open>quit()\<close>.
\<close>

section \<open>Operations that call nothing of the user's\<close>

lemma quit_wakeup [simp]:
  "quit_flag (EventLoop_wakeup s) = quit_flag s" "quit_flag (push_functor f s) = quit_flag s" "quit_flag (EventLoop_handleRead s) = quit_flag s"
  by (simp_all add: EventLoop_wakeup_def push_functor_def EventLoop_handleRead_def)

lemma quit_quit [simp]: "quit_flag (EventLoop_quit s)"
  by (simp add: EventLoop_quit_def)

lemma quit_ownership:
  assumes "quit_flag s"
  shows "safeR (shared_from_this x s) quit_flag" "safeR (release x s) quit_flag" "safeR (SetState st x s) quit_flag"
  using assms
  by (auto simp: shared_from_this_def release_def TcpConnection_delete_def SetState_def set_conn_def wp_simps)

lemma quit_set_events:
  assumes "quit_flag s"
  shows "safeR (Channel_set_events f b s) quit_flag"
proof -
  have "quit_flag s'" if "Channel_set_events f b s = Inr s'" for s'
    using that
  proof (rule set_events_frame)
    fix ch i
    assume s': "s' = s\<lparr>chans := (chans s)(b \<mapsto> ch\<lparr>ch_events := f (ch_events ch), ch_index := i\<rparr>),
            pollfds := pollfds s', channels := channels s'\<rparr>"
    show ?thesis using assms by (subst s') simp
  qed
  then show ?thesis by (simp add: safeR_def)
qed

lemma quit_channel:
  assumes "quit_flag s"
  shows "safeR (Channel_EnableReading b s) quit_flag" "safeR (Channel_EnableWriting b s) quit_flag"
    "safeR (Channel_DisableWriting b s) quit_flag" "safeR (Channel_DisbaleAll b s) quit_flag"
  using quit_set_events [OF assms]
  by (simp_all add: Channel_EnableReading_def Channel_EnableWriting_def Channel_DisableWriting_def Channel_DisbaleAll_def)

text \<open>The operators of the calculus.\<close>

lemma quit_bind:
  "safeR m quit_flag \<Longrightarrow> (\<And>s. quit_flag s \<Longrightarrow> safeR (k s) Q) \<Longrightarrow> safeR (bindR m k) Q"
  by (auto simp: safeR_def result_simps)

lemma quit_value: "(\<And>y. safeR (k y) Q) \<Longrightarrow> safeR (bindR m k) Q"
  by (auto simp: safeR_def result_simps)

lemma quit_guards:
  "(\<And>y. p = Some y \<Longrightarrow> safeR (k y) Q) \<Longrightarrow> safeR (ptrR e p k) Q"
  "(P \<Longrightarrow> safeR m Q) \<Longrightarrow> safeR (assertR P m) Q"
  "(isInLoopThread t \<Longrightarrow> safeR m Q) \<Longrightarrow> safeR (assertInLoopThread t m) Q"
  by (auto simp: safeR_def result_simps assertInLoopThread_def split: if_splits)

lemma quit_RunInLoop:
  "quit_flag s \<Longrightarrow> (\<And>s. quit_flag s \<Longrightarrow> safeR (cb s) quit_flag) \<Longrightarrow> safeR (EventLoop_RunInLoop f cb s) quit_flag"
  by (simp add: EventLoop_RunInLoop_def)

lemma quit_set_conn [simp]: "quit_flag (set_conn x c s) = quit_flag s"
  by (simp add: set_conn_def)

lemmas quit_intros = quit_ownership quit_channel quit_guards quit_RunInLoop quit_bind

lemma quit_send_rest: "quit_flag s \<Longrightarrow> safeR (send_rest x msg n s) quit_flag"
  by (auto simp: send_rest_def Let_def intro!: quit_guards quit_value quit_channel)

lemma quit_shutdownInLoop: "quit_flag s \<Longrightarrow> safeR (shutdownInLoop k x s) quit_flag"
  by (auto simp: shutdownInLoop_def Socket_ShutdownWrite_def Let_def intro!: quit_guards)

lemma quit_TcpConnection_new: "quit_flag s \<Longrightarrow> safeR (TcpConnection_new x c name fd la ra s) quit_flag"
  unfolding TcpConnection_new_def Let_def by (intro quit_value quit_bind quit_channel quit_guards) simp_all

lemma quit_timers:
  fixes s :: "'a timer_state_scheme"
  assumes "quit_flag s"
  shows "safeR (resetTimerfd k e s) quit_flag" "safeR (reset_timer now kt s) quit_flag"
    "safeR (TimerQueue_addTimer k cb when interval s) quit_flag"
proof -
  have reset: "safeR (resetTimerfd k e s) quit_flag" if "quit_flag s" for s :: "'a timer_state_scheme" and e
    unfolding resetTimerfd_def Let_def using that by (intro quit_value) (simp split: prod.split)
  then show "safeR (resetTimerfd k e s) quit_flag" using assms .
  show "safeR (reset_timer now kt s) quit_flag" using assms by (auto simp: reset_timer_def split: prod.split intro!: quit_value)
  show "safeR (TimerQueue_addTimer k cb when interval s) quit_flag"
    using assms by (auto simp: TimerQueue_addTimer_def Timer_new_def Let_def intro!: quit_guards reset)
qed

section \<open>What the functions of the user must keep\<close>

locale quit_callbacks =
  fixes cbs :: "'a server_state_scheme callbacks"
  assumes conn_quit: "quit_flag s \<Longrightarrow> safeR (cb_conn cbs f x s) quit_flag"
    and close_quit: "quit_flag s \<Longrightarrow> safeR (cb_close cbs g x s) quit_flag"
    and msg_quit: "quit_flag s \<Longrightarrow> safeR (cb_msg cbs f x now s) quit_flag"
begin

lemma call_quit:
  "quit_flag s \<Longrightarrow> (\<And>s. quit_flag s \<Longrightarrow> safeR (f x s) quit_flag) \<Longrightarrow> safeR (call_with_this f x s) quit_flag"
  unfolding call_with_this_def by (intro quit_bind quit_ownership)

lemma writeComplete_quit: "quit_flag s \<Longrightarrow> safeR (run_writeComplete cbs x s) quit_flag"
  by (auto simp: run_writeComplete_def split: option.split intro!: quit_intros conn_quit)

lemma ConnectEstablished_quit: "quit_flag s \<Longrightarrow> safeR (ConnectEstablished cbs x s) quit_flag"
  by (auto simp: ConnectEstablished_def split: option.split intro!: quit_intros call_quit conn_quit)

lemma ConnectDestroyed_quit: "quit_flag s \<Longrightarrow> safeR (ConnectDestroyed cbs x s) quit_flag"
  by (auto simp: ConnectDestroyed_def split: option.split intro!: quit_intros call_quit conn_quit)

lemma HandleClose_quit: "quit_flag s \<Longrightarrow> safeR (HandleClose cbs x s) quit_flag"
  by (auto simp: HandleClose_def split: option.split intro!: quit_intros call_quit close_quit)

lemma HandleRead_quit: "quit_flag s \<Longrightarrow> safeR (HandleRead k cbs x s) quit_flag"
  by (auto simp: HandleRead_def HandleError_def Let_def split: option.split
      intro!: quit_guards quit_value call_quit msg_quit HandleClose_quit)

lemma sendInLoop_quit: "quit_flag s \<Longrightarrow> safeR (sendInLoop k cbs x msg s) quit_flag"
  by (auto simp: sendInLoop_def sys_write_def Let_def split: prod.split
      intro!: quit_guards quit_bind writeComplete_quit quit_send_rest)

lemma sendInLoop_call_quit: "quit_flag s \<Longrightarrow> safeR (sendInLoop_call k cbs x a s) quit_flag"
  by (auto simp: sendInLoop_call_def intro: sendInLoop_quit split: option.split capture.split)

lemma Send_quit: "quit_flag s \<Longrightarrow> safeR (Send k cbs x a s) quit_flag"
  by (auto simp: Send_def intro!: sendInLoop_call_quit quit_RunInLoop)

lemma write_drained_quit: "quit_flag s \<Longrightarrow> safeR (write_drained k cbs x s) quit_flag"
  by (auto simp: write_drained_def intro!: quit_intros writeComplete_quit quit_shutdownInLoop)

lemma HandleWrite_quit: "quit_flag s \<Longrightarrow> safeR (HandleWrite k cbs x s) quit_flag"
  by (auto simp: HandleWrite_def sys_write_def Let_def split: prod.split
      intro!: quit_guards quit_value write_drained_quit)

lemma newConnection_quit: "quit_flag s \<Longrightarrow> safeR (newConnection cbs fd peer s) quit_flag"
  by (auto simp: newConnection_def connections_put_def Let_def split: option.split
      intro!: quit_intros quit_TcpConnection_new ConnectEstablished_quit)

lemma destroyed_quit: "quit_flag s \<Longrightarrow> safeR (bindR (ConnectDestroyed cbs x s) (release x)) quit_flag"
  by (intro quit_bind quit_ownership ConnectDestroyed_quit)

lemma removeConnection_quit: "quit_flag s \<Longrightarrow> safeR (removeConnection cbs x s) quit_flag"
  by (auto simp: removeConnection_def split: option.split intro!: quit_guards quit_bind quit_ownership quit_RunInLoop destroyed_quit)

lemma server_quit: "quit_callbacks (server_cbs cbs)"
  by unfold_locales (auto simp: server_cbs_def conn_quit close_quit msg_quit removeConnection_quit split: close_callback.split)

end

lemma no_quit_callbacks: "quit_callbacks no_callbacks"
  by unfold_locales (simp_all add: no_callbacks_def)

interpretation echo_conn_quit: quit_callbacks "echo_conn_cbs :: 'a echo_state_scheme callbacks"
  by unfold_locales (auto simp: echo_conn_cbs_def no_callbacks_def echo_connection_def intro!: quit_guards)

interpretation echo_quit: quit_callbacks "echo_cbs k :: 'a echo_state_scheme callbacks" for k
proof unfold_locales
  show "safeR (cb_msg (echo_cbs k) f x now s) quit_flag" if "quit_flag s" for f x now and s :: "'a echo_state_scheme"
    using that by (auto simp: echo_cbs_def echo_message_def Let_def intro!: quit_guards quit_bind echo_conn_quit.Send_quit)
qed (simp_all add: echo_cbs_def echo_conn_quit.conn_quit echo_conn_quit.close_quit)

section \<open>The loop\<close>

text \<open>Timers call the functions of the user; so do functors and the callbacks of other channels.\<close>

lemma TimerQueue_HandleRead_quit:
  assumes user: "\<And>g s. quit_flag s \<Longrightarrow> safeR (user g s) quit_flag" and "quit_flag s"
  shows "safeR (TimerQueue_HandleRead k user s) quit_flag"
proof -
  have fire: "safeR (foldR (\<lambda>(key, t). Timer_Fire user t) ts s) quit_flag" if "quit_flag s" for ts s
    using that user by (intro foldR_safe) (auto simp: Timer_Fire_def)
  have "safeR (TimerQueue_reset k ts now s) quit_flag" if "quit_flag s" for ts now s
    unfolding TimerQueue_reset_def Let_def using that by (intro quit_bind foldR_safe) (auto intro: quit_timers)
  then show ?thesis
    unfolding TimerQueue_HandleRead_def Let_def GetExpired_def readTimerfd_def using assms(2)
    by (auto intro!: quit_bind fire)
qed

lemma run_closure_quit:
  assumes "quit_callbacks cbs" and user: "\<And>g s. quit_flag s \<Longrightarrow> safeR (user g s) quit_flag" and s: "quit_flag s"
  shows "safeR (run_closure k cbs user f s) quit_flag"
proof -
  note lib = quit_callbacks.newConnection_quit [OF assms(1)] quit_callbacks.destroyed_quit [OF assms(1)]
    quit_callbacks.conn_quit [OF assms(1)]
    and srv = quit_callbacks.HandleRead_quit quit_callbacks.HandleWrite_quit quit_callbacks.HandleClose_quit
      quit_callbacks.sendInLoop_call_quit
  note server = quit_callbacks.server_quit [OF assms(1)]
  show ?thesis
  proof (cases f)
    case Acceptor_handleRead_fn
    then show ?thesis
      using s by (auto simp: run_closure_def Acceptor_handleRead_def Let_def split: prod.split intro!: quit_guards lib)
  next
    case (Conn_writeComplete_fn x)
    then show ?thesis using s by (auto simp: run_closure_def split: option.split intro!: quit_guards quit_ownership quit_bind lib)
  next
    case (TimerQueue_addTimer_fn a)
    then show ?thesis
      using s by (auto simp: run_closure_def TimerQueue_addTimer_call_def split: option.split capture.split intro!: quit_timers)
  qed (use s in \<open>auto simp: run_closure_def intro!: user lib srv [OF server] quit_shutdownInLoop TimerQueue_HandleRead_quit\<close>)
qed

lemma HandleEvent_quit:
  assumes run: "\<And>f s. quit_flag s \<Longrightarrow> safeR (run f s) quit_flag" and s: "quit_flag s"
  shows "safeR (Channel_HandleEvent run c s) quit_flag"
proof -
  have call: "safeR (call_cb run cb s) quit_flag" if "quit_flag s" for cb s
    using that run by (auto simp: call_cb_def split: option.split)
  have stage: "safeR (HandleEvent_stage run bits cb c s) quit_flag" if "quit_flag s" for bits cb s
    using that call by (auto simp: HandleEvent_stage_def intro!: quit_guards)
  show ?thesis using s by (auto simp: Channel_HandleEvent_def intro!: quit_guards quit_bind call stage)
qed

text \<open>A sequence in which one element sets the flag and the others keep it.\<close>

lemma foldR_quit:
  assumes keep: "\<And>f s. quit_flag s \<Longrightarrow> safeR (run f s) quit_flag" and f: "\<And>s. safeR (run f s) quit_flag" and "f \<in> set fs"
  shows "safeR (foldR run fs s) quit_flag"
  using assms(3)
proof (induction fs arbitrary: s)
  case (Cons g gs)
  show ?case
  proof (cases "g = f")
    case True
    have "safeR (bindR (run f s) (foldR run gs)) quit_flag" by (intro quit_bind f foldR_safe keep)
    then show ?thesis using True by simp
  next
    case False
    then have "safeR (bindR (run g s) (foldR run gs)) quit_flag" using Cons by (intro quit_value) simp
    then show ?thesis by simp
  qed
qed simp

text \<open>The closures that call \<^verbatim>\<open>quit()\<close> in state \<open>s\<close> when \<open>User_fn q\<close> does: that one, and the timer queue's when such a timer is due.\<close>

definition calls_quit :: "kernel \<Rightarrow> nat \<Rightarrow> closure \<Rightarrow> 'a timer_state_scheme \<Rightarrow> bool" where
  "calls_quit k q f s \<longleftrightarrow> f = User_fn q \<or>
     (f = TimerQueue_HandleRead_fn \<and> (\<exists>(key, t) \<in> set (fst (GetExpired (Timestamp_now k (tick s)) s)). tmr_callback t = User_fn q))"

lemma calls_quit_sets:
  assumes lib: "quit_callbacks cbs" and user: "\<And>g s. quit_flag s \<Longrightarrow> safeR (user g s) quit_flag"
    and q: "\<And>s. user (User_fn q) s = Inr (EventLoop_quit s)" and f: "calls_quit k q f s"
  shows "safeR (run_closure k cbs user f s) quit_flag"
proof (cases "f = User_fn q")
  case True
  then show ?thesis by (simp add: run_closure_def q)
next
  case False
  let ?e = "fst (GetExpired (Timestamp_now k (tick s)) s)"
  obtain key t where t: "f = TimerQueue_HandleRead_fn" "(key, t) \<in> set ?e" "tmr_callback t = User_fn q"
    using f False by (auto simp: calls_quit_def)
  have "safeR (foldR (\<lambda>(key, t). Timer_Fire user t) ?e u) quit_flag" for u
    using t(2,3) user q by (intro foldR_quit [where f = "(key, t)"]) (auto simp: Timer_Fire_def)
  moreover have "safeR (TimerQueue_reset k ts now u) quit_flag" if "quit_flag u" for ts now u
    unfolding TimerQueue_reset_def Let_def using that by (intro quit_bind foldR_safe) (auto intro: quit_timers)
  ultimately show ?thesis
    using t(1) by (auto simp: run_closure_def TimerQueue_HandleRead_def GetExpired_def readTimerfd_def Let_def intro!: quit_bind)
qed

lemma HandleEvent_sets:
  assumes keep: "\<And>f s. quit_flag s \<Longrightarrow> safeR (run f s) quit_flag"
    and c: "chans s c = Some ch" "dispatched ch = [f]" "safeR (run f s) quit_flag"
  shows "safeR (Channel_HandleEvent run c s) quit_flag"
proof -
  have call: "safeR (call_cb run cb s) quit_flag" if "quit_flag s" for cb s
    using that keep by (auto simp: call_cb_def split: option.split)
  have stage: "safeR (HandleEvent_stage run bits cb c s) quit_flag" if "quit_flag s" for bits cb s
    using that call by (auto simp: HandleEvent_stage_def intro!: quit_guards)
  have s: "unchanged c ch s" using c(1) by (simp add: unchanged_def same_channel_def)
  have one: "foldR run [f] s = run f s" by (cases "run f s") simp_all
  note st = HandleEvent_stage_eq [OF s, where run = run]
  show ?thesis
  proof (cases "closing ch")
    case True
    then show ?thesis
      using c by (auto simp: Channel_HandleEvent_def dispatched_def early_def final_def opt_list_def closing_def call_cb_def)
  next
    case False
    let ?E = "opt_list (ch_revents ch AND (POLLERR OR POLLNVAL) \<noteq> 0) (ch_error_cb ch)"
      and ?R = "opt_list (ch_revents ch AND (POLLIN OR POLLPRI OR POLLRDHUP) \<noteq> 0) (ch_read_cb ch)"
      and ?W = "opt_list (ch_revents ch AND POLLOUT \<noteq> 0) (ch_write_cb ch)"
    have "?E @ ?R @ ?W = [f]" using c(2) False by (simp add: dispatched_def early_def final_def)
    then consider "?E = [f]" | "?E = []" "?R = [f]" | "?E = []" "?R = []" "?W = [f]" by (auto simp: append_eq_Cons_conv)
    then have "safeR (bindR (HandleEvent_stage run (POLLERR OR POLLNVAL) ch_error_cb c s) (\<lambda>s.
        bindR (HandleEvent_stage run (POLLIN OR POLLPRI OR POLLRDHUP) ch_read_cb c s) (\<lambda>s.
        HandleEvent_stage run POLLOUT ch_write_cb c s))) quit_flag"
      by cases (use c(3) st stage one in \<open>auto intro!: quit_bind simp del: foldR.simps(2)\<close>)
    then show ?thesis using c(1) False by (auto simp: Channel_HandleEvent_def closing_def)
  qed
qed

text \<open>C37: \<^verbatim>\<open>loop()\<close>, with the closures of the library and functions of the user that do not take a \<^verbatim>\<open>quit()\<close> back, returns at the end of
  the first iteration in which \<^verbatim>\<open>quit()\<close> is called, be it by a queued functor, by the callback of an active channel or by a timer
  that is due: the other active channels are still served, all functors that were queued then are still
  run, and \<^verbatim>\<open>looping_\<close> is false afterwards, so that the loop can be run again. Here \<open>t\<close> is the state after \<open>n\<close> iterations
  without \<^verbatim>\<open>quit()\<close>, and \<open>u\<close>, \<open>v\<close>, \<open>z\<close> those after the poll, the events and the functors of the next one.\<close>

theorem EventLoop_loop_quits:
  fixes s :: "'a server_state_scheme"
  assumes "\<not> looping s" and "isInLoopThread s"
    and lib: "quit_callbacks cbs" and user: "\<And>g s. quit_flag s \<Longrightarrow> safeR (user g s) quit_flag"
    and q: "\<And>s. user (User_fn q) s = Inr (EventLoop_quit s)"
    and before: "iterate k (run_closure k cbs user) n (EventLoop_enter s) = Inr t"
      "\<And>m r. m \<le> n \<Longrightarrow> iterate k (run_closure k cbs user) m (EventLoop_enter s) = Inr r \<Longrightarrow> \<not> quit_flag r"
    and poll: "Poller_Poll k (t\<lparr>active_channels := []\<rparr>) = Inr (now, u)"
    and events: "foldR (Channel_HandleEvent (run_closure k cbs user)) (active_channels u) u = Inr v"
    and pending: "foldR (run_closure k cbs user) (functors v) (v\<lparr>functors := []\<rparr>) = Inr z"
    and quit: "User_fn q \<in> set (functors v) \<or>
      (\<exists>bs b cs p ch f. active_channels u = bs @ b # cs \<and> foldR (Channel_HandleEvent (run_closure k cbs user)) bs u = Inr p \<and>
         chans p b = Some ch \<and> dispatched ch = [f] \<and> calls_quit k q f p)"
  shows "EventLoop_loop k (run_closure k cbs user) s = Some (Inr (z\<lparr>looping := False\<rparr>))"
proof -
  let ?run = "run_closure k cbs user"
  have keep: "safeR (?run f r) quit_flag" if "quit_flag r" for f r by (rule run_closure_quit [OF lib user that])
  have "quit_flag z"
    using quit
  proof
    assume "User_fn q \<in> set (functors v)"
    then have "safeR (foldR ?run (functors v) (v\<lparr>functors := []\<rparr>)) quit_flag"
      by (rule foldR_quit [rotated -1, where f = "User_fn q"]) (auto simp: run_closure_def q intro: keep [unfolded run_closure_def])
    then show ?thesis using pending by (rule safeR_D)
  next
    assume "\<exists>bs b cs p ch f. active_channels u = bs @ b # cs \<and> foldR (Channel_HandleEvent ?run) bs u = Inr p \<and>
        chans p b = Some ch \<and> dispatched ch = [f] \<and> calls_quit k q f p"
    then obtain bs b cs p ch f where b: "active_channels u = bs @ b # cs" "foldR (Channel_HandleEvent ?run) bs u = Inr p"
      "chans p b = Some ch" "dispatched ch = [f]" "calls_quit k q f p" by blast
    have "safeR (Channel_HandleEvent ?run b p) quit_flag"
      by (rule HandleEvent_sets [where run = ?run, OF _ b(3,4)], rule keep, assumption, rule calls_quit_sets [where user = user and q = q]) (use lib user q b(5) in simp_all)
    then have "safeR (bindR (Channel_HandleEvent ?run b p) (foldR (Channel_HandleEvent ?run) cs)) quit_flag"
      by (rule quit_bind) (intro foldR_safe HandleEvent_quit keep)
    then have "safeR (foldR (Channel_HandleEvent ?run) (active_channels u) u) quit_flag"
      using b(1,2) by (simp add: foldR_append)
    then have "quit_flag v" using events by (rule safeR_D)
    then have "safeR (foldR ?run (functors v) (v\<lparr>functors := []\<rparr>)) quit_flag" by (intro foldR_safe keep) simp_all
    then show ?thesis using pending by (rule safeR_D)
  qed
  moreover have "EventLoop_iteration k ?run t = Inr z"
    using poll events pending by (simp add: EventLoop_iteration_def doPendingFunctors_def swap_functors_def)
  then have "iterate k ?run (Suc n) (EventLoop_enter s) = Inr z" using iterate_Suc [OF before(1)] by simp
  ultimately show ?thesis
    using before(2) by (intro EventLoop_loop_returns [OF assms(1,2), where n = "Suc n"]) (auto simp: less_Suc_eq_le simp del: iterate.simps)
qed

text \<open>The echo program's closures, with a functor that calls \<^verbatim>\<open>quit()\<close> between two others.\<close>

theorem EventLoop_loop_quits_witness:
  "\<exists>z. EventLoop_loop null_kernel
       (run_closure null_kernel (echo_cbs null_kernel) (\<lambda>f s. Inr (if f = User_fn 1 then EventLoop_quit s else s\<lparr>out := out s @ ''x''\<rparr>)))
       (fresh_process\<lparr>threadId := 7, functors := [User_fn 0, User_fn 1, User_fn 0]\<rparr>) = Some (Inr z) \<and>
     quit_flag z \<and> \<not> looping z \<and> functors z = [] \<and> out z = ''xx''"
proof -
  let ?user = "\<lambda>f (s :: echo_state). (Inr (if f = User_fn 1 then EventLoop_quit s else s\<lparr>out := out s @ ''x''\<rparr>)) :: echo_state result"
  let ?run = "run_closure null_kernel (echo_cbs null_kernel) ?user"
  let ?s = "fresh_process\<lparr>threadId := 7, functors := [User_fn 0, User_fn 1, User_fn 0]\<rparr>"
  define t where "t = EventLoop_enter ?s"
  define u where "u = t\<lparr>active_channels := [], tick := 2\<rparr>"
  define z where "z = u\<lparr>functors := [], quit_flag := True, wakeup_count := 1, out := ''xx''\<rparr>"
  have t: "iterate null_kernel ?run 0 (EventLoop_enter ?s) = Inr t" "\<not> quit_flag t" "functors u = [User_fn 0, User_fn 1, User_fn 0]"
    by (simp_all add: t_def u_def EventLoop_enter_def)
  have poll: "Poller_Poll null_kernel (t\<lparr>active_channels := []\<rparr>) = Inr (5, u)"
    by (simp add: Poller_Poll_def u_def t_def EventLoop_enter_def fresh_process_def null_kernel_def set_revents_def Timestamp_now_def)
  have z: "foldR ?run (functors u) (u\<lparr>functors := []\<rparr>) = Inr z"
    by (simp add: t(3) run_closure_def EventLoop_quit_def EventLoop_wakeup_def)
      (simp add: z_def u_def t_def EventLoop_enter_def fresh_process_def eventfd_max_def)
  have "EventLoop_loop null_kernel ?run ?s = Some (Inr (z\<lparr>looping := False\<rparr>))"
  proof (rule EventLoop_loop_quits [where q = 1 and n = 0 and t = t and u = u and v = u and now = 5])
    show "quit_callbacks (echo_cbs null_kernel :: echo_state callbacks)" by (rule echo_quit.quit_callbacks_axioms)
    show "foldR (Channel_HandleEvent ?run) (active_channels u) u = Inr u" by (simp add: u_def)
  qed (use t poll z in \<open>auto simp: fresh_process_def isInLoopThread_def t_def\<close>)
  then show ?thesis by (simp add: z_def)
qed

end
