(* ===== verification/Echo_Run.thy ===== *)
theory Echo_Run
  imports Echo_Server
begin

unbundle bit_operations_syntax

text \<open>
  The echo program as a whole: the components of the library composed the way examples/echo/main.cc composes
  them, from an empty process through every iteration of the loop. \<open>echo_inv\<close> is the invariant of the
  running program; each callback a channel can have keeps it (\<open>echo_HandleWrite\<close>, \<open>echo_HandleRead\<close>,
  \<open>echo_accept\<close>, \<open>echo_timer\<close>), so dispatching, polling and iterating do. \<open>echo_spec\<close> is the abstract
  program: a map from connections to the bytes echoed on them, which grows by accepting and by echoing;
  every step of the loop refines it.
\<close>

section \<open>The invariant of the running program\<close>

text \<open>\<open>serves\<close>: an established connection with nothing left to read, registered with its own
  callbacks. \<open>watched\<close>: a channel of the poller is one of the three of the program or that of a
  connection. \<open>accepts_fresh\<close>: from now on \<^verbatim>\<open>accept4\<close> gives descriptors the poller does not know.\<close>

definition serves :: "'a echo_state_scheme \<Rightarrow> nat \<Rightarrow> TcpConnection \<Rightarrow> bool" where
  "serves s x c \<longleftrightarrow> tc_state c = kConnected \<and> tc_msg_cb c = Some 0 \<and> Buffer_content (tc_rev c) = [] \<and>
     (\<exists>i ch. conn_live s x c i ch \<and> ch_read_cb ch = Some (Conn_HandleRead_fn x) \<and>
        ch_write_cb ch = Some (Conn_HandleWrite_fn x) \<and> ch_error_cb ch = None)"

definition watched :: "'a echo_state_scheme \<Rightarrow> nat \<Rightarrow> Channel \<Rightarrow> bool" where
  "watched s b ch \<longleftrightarrow>
     (ch_read_cb ch \<in> {Some Acceptor_handleRead_fn, Some EventLoop_handleRead_fn, Some TimerQueue_HandleRead_fn} \<and>
      ch_write_cb ch = None \<and> ch_error_cb ch = None) \<or>
     (\<exists>x c. conns s x = Some c \<and> tc_channel c = b)"

definition accepts_fresh :: "kernel \<Rightarrow> 'a echo_state_scheme \<Rightarrow> bool" where
  "accepts_fresh k s \<longleftrightarrow> inj_on (\<lambda>t. fst (k_accept k t)) {tick s..} \<and>
     (\<forall>t \<ge> tick s. 0 \<le> fst (k_accept k t) \<and> channels s (fst (k_accept k t)) = None)"

definition settings :: "'a echo_state_scheme \<Rightarrow> bool" where
  "settings s \<longleftrightarrow> isInLoopThread s \<and> functors s = [] \<and> timers s = [] \<and> \<not> quit_flag s \<and> new_conn_callback s \<and>
     srv_msg_cb s = Some 0 \<and> srv_wc_cb s = None"

text \<open>What the program uses is bounded by the number of system calls it has made: each connection took one to
  accept, each growth of a send buffer one to read. A receive buffer is emptied after each read and
  never gets larger than 131080 bytes.\<close>

definition sized :: "'a echo_state_scheme \<Rightarrow> bool" where
  "sized s \<longleftrightarrow> next_conn_id s \<le> int (tick s) \<and> length (pollfds s) \<le> tick s + 3 \<and>
     (\<forall>x c. conns s x = Some c \<longrightarrow> writerIndex (tc_rev c) = kCheapPrepend \<and> length (buffer (tc_rev c)) \<le> 131080 \<and>
        length (buffer (tc_snd c)) \<le> 131080 * (tick s + 1))"

definition echo_inv :: "kernel \<Rightarrow> 'a echo_state_scheme \<Rightarrow> bool" where
  "echo_inv k s \<longleftrightarrow> srv_inv s \<and> Poller_inv s \<and> settings s \<and> accepts_fresh k s \<and> sized s \<and>
     (\<forall>x c. conns s x = Some c \<longrightarrow> serves s x c) \<and> (\<forall>i b ch. registered s i b ch \<longrightarrow> watched s b ch) \<and>
     (\<forall>b ch. chans s b = Some ch \<longrightarrow> ch_revents ch AND POLLHUP = 0)"

text \<open>What the two states share when an event was handled that neither accepts nor closes.\<close>

definition same_setup :: "'a echo_state_scheme \<Rightarrow> 'a echo_state_scheme \<Rightarrow> bool" where
  "same_setup s s' \<longleftrightarrow> tick s \<le> tick s' \<and> channels s' = channels s \<and> connections s' = connections s \<and>
     next_addr s' = next_addr s \<and> next_conn_id s' = next_conn_id s \<and> srv_name s' = srv_name s \<and> loop_addr s' = loop_addr s \<and>
     threadId s' = threadId s \<and> cur_tid s' = cur_tid s \<and> functors s' = functors s \<and> timers s' = timers s \<and>
     quit_flag s' = quit_flag s \<and> new_conn_callback s' = new_conn_callback s \<and> srv_msg_cb s' = srv_msg_cb s \<and>
     srv_wc_cb s' = srv_wc_cb s"

lemma same_setup_keeps: "same_setup s s' \<Longrightarrow> settings s \<Longrightarrow> accepts_fresh k s \<Longrightarrow> settings s' \<and> accepts_fresh k s'"
  by (auto simp: same_setup_def settings_def accepts_fresh_def isInLoopThread_def intro: inj_on_subset)

lemma sized_snd:
  assumes "sized s" "conns s x = Some c" "tick s \<le> t"
  shows "length (buffer (tc_snd c)) \<le> 131080 * (t + 1)"
proof -
  have "length (buffer (tc_snd c)) \<le> 131080 * (tick s + 1)" using assms(1,2) by (simp add: sized_def)
  also have "\<dots> \<le> 131080 * (t + 1)" using assms(3) by simp
  finally show ?thesis .
qed

lemma sized_conn:
  assumes "sized s" and "same_setup s s'" and "length (pollfds s') = length (pollfds s)" and "conns s' = (conns s)(x \<mapsto> c)"
    and "writerIndex (tc_rev c) = kCheapPrepend" "length (buffer (tc_rev c)) \<le> 131080"
      "length (buffer (tc_snd c)) \<le> 131080 * (tick s' + 1)"
  shows "sized s'"
proof -
  have t: "tick s \<le> tick s'" "next_conn_id s' = next_conn_id s" using assms(2) by (simp_all add: same_setup_def)
  from sized_snd [OF assms(1) _ t(1)] show ?thesis using assms t by (auto simp: sized_def)
qed

text \<open>An event of one connection that changes its buffers and what its channel waits for.\<close>

lemma echo_inv_conn:
  assumes inv: "echo_inv k s" and live: "conn_live s x c i ch" and su: "same_setup s s'" and tcp: "tcp_inv s'" and sz: "sized s'"
    and c': "conns s' = (conns s)(x \<mapsto> c\<lparr>tc_rev := r, tc_snd := b\<rparr>)" "Buffer_content r = []"
      "conn_live s' x (c\<lparr>tc_rev := r, tc_snd := b\<rparr>) i (ch\<lparr>ch_events := e\<rparr>)"
    and s': "chans s' = (chans s)(tc_channel c \<mapsto> ch\<lparr>ch_events := e\<rparr>)" "pollfds s' = (pollfds s)[i := p]" "pfd_fd p = tc_fd c"
  shows "echo_inv k s'"
proof -
  note L = conn_liveD [OF live] and L' = conn_liveD [OF c'(3), simplified]
  have old: "srv_inv s" "Poller_inv s" "settings s" "accepts_fresh k s" "\<And>y d. conns s y = Some d \<Longrightarrow> serves s y d"
      "\<And>j a dh. registered s j a dh \<Longrightarrow> watched s a dh" "\<And>a dh. chans s a = Some dh \<Longrightarrow> ch_revents dh AND POLLHUP = 0"
    using inv by (simp_all add: echo_inv_def)
  have same: "channels s' = channels s" "loop_addr s' = loop_addr s" "cur_tid s' = cur_tid s" "threadId s' = threadId s"
    using su by (simp_all add: same_setup_def)
  have upd: "ch_index (ch\<lparr>ch_events := e\<rparr>) = ch_index ch" by simp
  have "srv_inv s'"
    using old(1) L(1,2) su by (intro srv_inv_conn [OF old(1) _ _ _ _ tcp c'(1) s'(1)]) (simp_all add: same_setup_def)
  moreover have "Poller_inv s'"
    using L(4) s'(3) by (intro Poller_inv_update [OF old(2) L(3) L'(3) s'(1) upd s'(2) same(1,2)]) simp
  moreover have "serves s' y d" if y: "conns s' y = Some d" for y d
  proof (cases "y = x")
    case True
    have "serves s x c" using old(5) L(1) .
    then obtain j dh where sv: "tc_state c = kConnected" "tc_msg_cb c = Some 0" "conn_live s x c j dh" "ch_read_cb dh = Some (Conn_HandleRead_fn x)"
        "ch_write_cb dh = Some (Conn_HandleWrite_fn x)" "ch_error_cb dh = None" by (auto simp: serves_def)
    have "dh = ch" using conn_liveD(2) [OF sv(3)] L(2) by simp
    moreover have "d = c\<lparr>tc_rev := r, tc_snd := b\<rparr>" using True y c'(1) by simp
    ultimately show ?thesis
      using True sv c'(2,3) unfolding serves_def by (intro conjI exI [of _ i] exI [of _ "ch\<lparr>ch_events := e\<rparr>"]) simp_all
  next
    case False
    then have d: "conns s y = Some d" "conns s' y = conns s y" using y c'(1) by simp_all
    have "tcp_inv s" using old(1) by (simp add: srv_inv_def)
    then have "conn_live s' y d j dh" if "conn_live s y d j dh" for j dh
      using conn_live_update [OF live that d(2) False _ s'(1) upd s'(2) same] by blast
    then show ?thesis using old(5) [OF d(1)] unfolding serves_def by blast
  qed
  moreover have "watched s' a dh" if "registered s' j a dh" for j a dh
  proof (cases "j = i")
    case True
    then have "a = tc_channel c" "dh = ch\<lparr>ch_events := e\<rparr>" using that L'(3) by (auto simp: registered_def)
    then show ?thesis using c'(1) by (auto simp: watched_def)
  next
    case False
    have "watched s a dh" using that registered_update [OF L(3) s'(1) upd s'(2) same(1,2) False] old(6) by simp
    moreover have "\<exists>x' c'. conns s' x' = Some c' \<and> tc_channel c' = a" if "conns s y = Some d" "tc_channel d = a" for y d
      using that L(1) c'(1) by (cases "y = x") auto
    ultimately show ?thesis unfolding watched_def by blast
  qed
  moreover have "ch_revents dh AND POLLHUP = 0" if "chans s' a = Some dh" for a dh
    using that old(7) L(2) by (auto simp: s'(1) split: if_splits)
  ultimately show ?thesis using same_setup_keeps [OF su old(3,4)] sz by (simp add: echo_inv_def)
qed

section \<open>What the program does, abstractly\<close>

text \<open>The abstract state: the number of system calls so far, and for every connection its descriptor and all
  bytes that were echoed on it (given to the kernel or waiting). A step lets time pass, accepts a
  connection, or appends to one connection what was read from it.\<close>

type_synonym echo_view = "nat \<times> (nat \<Rightarrow> (int \<times> string) option)"

definition echo_abs :: "'a echo_state_scheme \<Rightarrow> echo_view" where
  "echo_abs s = (tick s, \<lambda>x. map_option (\<lambda>c. (tc_fd c, sent s (tc_fd c) @ Buffer_content (tc_snd c))) (conns s x))"

inductive echo_spec :: "kernel \<Rightarrow> echo_view \<Rightarrow> echo_view \<Rightarrow> bool" for k where
  pass: "t \<le> t' \<Longrightarrow> echo_spec k (t, m) (t', m)"
| accept: "t \<le> n \<Longrightarrow> n < t' \<Longrightarrow> k_accept k n = (fd, peer) \<Longrightarrow> m x = None \<Longrightarrow> echo_spec k (t, m) (t', m(x \<mapsto> (fd, [])))"
| echo: "t \<le> n \<Longrightarrow> n < t' \<Longrightarrow> k_readv k n fd lens = Inr bs \<Longrightarrow> m x = Some (fd, ys) \<Longrightarrow>
    echo_spec k (t, m) (t', m(x \<mapsto> (fd, ys @ bs)))"

text \<open>Peers that stay: no \<^verbatim>\<open>POLLHUP\<close>, no end of file, and \<^verbatim>\<open>write\<close> takes what it can or asks to wait. Read
  errors are allowed.\<close>

definition write_accepts :: "kernel \<Rightarrow> bool" where
  "write_accepts k \<longleftrightarrow> (\<forall>t fd bs. let (n, errno) = k_write k t fd bs in
     - 1 \<le> n \<and> n \<le> int (length bs) \<and> (n < 0 \<longrightarrow> errno = EWOULDBLOCK))"

lemma write_acceptsD:
  "write_accepts k \<Longrightarrow> k_write k t fd bs = (n, errno) \<Longrightarrow> - 1 \<le> n \<and> n \<le> int (length bs) \<and> (n < 0 \<longrightarrow> errno = EWOULDBLOCK)"
  by (auto simp: write_accepts_def split: prod.splits)

definition steady :: "kernel \<Rightarrow> bool" where
  "steady k \<longleftrightarrow> poll_ok k \<and> kernel_readv_ok k \<and> write_accepts k \<and> clock_ok k \<and>
     (\<forall>t fd lens. k_readv k t fd lens \<noteq> Inr []) \<and> (\<forall>t ps. \<forall>r \<in> set (snd (k_poll k t ps)). r AND POLLHUP = 0)"

lemma echo_abs_conn:
  assumes "tcp_inv s" "conns s x = Some c" "conns s' = (conns s)(x \<mapsto> c\<lparr>tc_rev := r, tc_snd := b\<rparr>)"
    "sent s' = (sent s)(tc_fd c := w)"
  shows "echo_abs s' = (tick s', (snd (echo_abs s))(x \<mapsto> (tc_fd c, w @ Buffer_content b)))"
proof -
  have "tc_fd d \<noteq> tc_fd c" if "conns s y = Some d" "y \<noteq> x" for y d
    using assms(1,2) that unfolding tcp_inv_def by blast
  then have "map_option (\<lambda>c. (tc_fd c, sent s' (tc_fd c) @ Buffer_content (tc_snd c))) (conns s' y) =
      ((snd (echo_abs s))(x \<mapsto> (tc_fd c, w @ Buffer_content b))) y" for y
    using assms(3,4) by (cases "conns s y") (auto simp: echo_abs_def)
  then show ?thesis by (simp add: echo_abs_def fun_eq_iff)
qed

lemma conn_changed_echo:
  fixes s :: "'a echo_state_scheme"
  assumes "conn_changed x c i ch w q s s'"
  obtains b e p where "conns s' = (conns s)(x \<mapsto> c\<lparr>tc_snd := b\<rparr>)" "chans s' = (chans s)(tc_channel c \<mapsto> ch\<lparr>ch_events := e\<rparr>)"
    "pollfds s' = (pollfds s)[i := p]" "pfd_fd p = tc_fd c" "conn_live s' x (c\<lparr>tc_snd := b\<rparr>) i (ch\<lparr>ch_events := e\<rparr>)"
    "sent s' = (sent s)(tc_fd c := w)" "Buffer_content b = q" "same_setup s s'" "tick s' \<le> tick s + 1"
    "length (buffer b) \<le> length (buffer (tc_snd c)) + (length q - length (Buffer_content (tc_snd c)))"
proof -
  obtain b e p a where eq: "s' = s\<lparr>tick := tick s', conns := (conns s)(x \<mapsto> c\<lparr>tc_snd := b\<rparr>),
            chans := (chans s)(tc_channel c \<mapsto> ch\<lparr>ch_events := e\<rparr>), pollfds := (pollfds s)[i := p],
            sent := (sent s)(tc_fd c := w), accepted := (accepted s)(x := a)\<rparr>"
    and r: "pfd_fd p = tc_fd c" "conn_live s' x (c\<lparr>tc_snd := b\<rparr>) i (ch\<lparr>ch_events := e\<rparr>)" "Buffer_content b = q"
      "tick s \<le> tick s'" "tick s' \<le> tick s + 1"
      "length (buffer b) \<le> length (buffer (tc_snd c)) + (length q - length (Buffer_content (tc_snd c)))"
    using assms unfolding conn_changed_def by blast
  have "same_setup s s'" unfolding same_setup_def using r(4) by (intro conjI) (subst eq; simp)+
  moreover have "conns s' = (conns s)(x \<mapsto> c\<lparr>tc_snd := b\<rparr>)" "chans s' = (chans s)(tc_channel c \<mapsto> ch\<lparr>ch_events := e\<rparr>)"
    "pollfds s' = (pollfds s)[i := p]" "sent s' = (sent s)(tc_fd c := w)" by (subst eq; simp)+
  ultimately show thesis using that r by blast
qed

text \<open>What every piece of the loop guarantees: the invariant, that no registration is lost, and refinement.\<close>

definition echo_ok :: "kernel \<Rightarrow> 'a echo_state_scheme \<Rightarrow> 'a echo_state_scheme \<Rightarrow> bool" where
  "echo_ok k s s' \<longleftrightarrow> echo_inv k s' \<and> channels s \<subseteq>\<^sub>m channels s' \<and> (echo_spec k)\<^sup>*\<^sup>* (echo_abs s) (echo_abs s')"

lemma echo_ok_refl: "echo_inv k s \<Longrightarrow> echo_ok k s s"
  by (simp add: echo_ok_def)

lemma echo_ok_trans: "echo_ok k s t \<Longrightarrow> echo_ok k t u \<Longrightarrow> echo_ok k s u"
  by (auto simp: echo_ok_def intro: map_le_trans)

text \<open>A callback of the program leaves the callbacks and the events of every channel alone, so that the dispatcher goes on as it began.\<close>

definition chans_kept :: "'a echo_state_scheme \<Rightarrow> 'a echo_state_scheme \<Rightarrow> bool" where
  "chans_kept s s' \<longleftrightarrow> (\<forall>b ch. chans s b = Some ch \<longrightarrow> unchanged b ch s')"

lemma chans_kept_same: "chans s' = chans s \<Longrightarrow> chans_kept s s'"
  by (simp add: chans_kept_def unchanged_def same_channel_def)

lemma chans_kept_events: "chans s b = Some ch \<Longrightarrow> chans s' = (chans s)(b \<mapsto> ch\<lparr>ch_events := e\<rparr>) \<Longrightarrow> chans_kept s s'"
  by (simp add: chans_kept_def unchanged_def same_channel_def)

lemma chans_kept_trans: "chans_kept s t \<Longrightarrow> chans_kept t u \<Longrightarrow> chans_kept s u"
  by (fastforce simp: chans_kept_def unchanged_def same_channel_def split: option.splits)

text \<open>The same with a bound on the number of system calls.\<close>

definition echo_within :: "kernel \<Rightarrow> nat \<Rightarrow> 'a echo_state_scheme \<Rightarrow> 'a echo_state_scheme \<Rightarrow> bool" where
  "echo_within k d s s' \<longleftrightarrow> echo_ok k s s' \<and> chans_kept s s' \<and> tick s' \<le> tick s + d"

lemma echo_within_refl: "echo_inv k s \<Longrightarrow> echo_within k 0 s s"
  by (simp add: echo_within_def echo_ok_refl chans_kept_same)

lemma echo_within_trans: "echo_within k d s t \<Longrightarrow> echo_within k e t u \<Longrightarrow> d + e \<le> n \<Longrightarrow> echo_within k n s u"
  by (auto simp: echo_within_def intro: echo_ok_trans chans_kept_trans)

lemma echo_within_mono: "echo_within k d s t \<Longrightarrow> d \<le> e \<Longrightarrow> echo_within k e s t"
  by (simp add: echo_within_def)

lemma echo_within_inv: "echo_within k d s t \<Longrightarrow> echo_inv k t"
  by (simp add: echo_within_def echo_ok_def)

lemma echo_within_channels: "echo_within k d s t \<Longrightarrow> channels s fd = Some b \<Longrightarrow> channels t fd = Some b"
  by (auto simp: echo_within_def echo_ok_def map_le_def) (metis domI)

lemma echo_okI:
  "echo_inv k s' \<Longrightarrow> same_setup s s' \<Longrightarrow> echo_spec k (echo_abs s) (echo_abs s') \<Longrightarrow> echo_ok k s s'"
  by (auto simp: echo_ok_def same_setup_def)

lemma echo_abs_fst [simp]: "fst (echo_abs s) = tick s"
  by (simp add: echo_abs_def)

text \<open>An event that touches no connection and no channel.\<close>

lemma echo_ok_same:
  fixes s s' :: "'a echo_state_scheme"
  assumes inv: "echo_inv k s" and su: "same_setup s s'"
    and s': "conns s' = conns s" "chans s' = chans s" "pollfds s' = pollfds s" "sent s' = sent s" "accepted s' = accepted s"
  shows "echo_ok k s s'"
proof -
  have ch: "channels s' = channels s" "loop_addr s' = loop_addr s" "isInLoopThread s' = isInLoopThread s"
    using su by (simp_all add: same_setup_def isInLoopThread_def)
  have reg: "registered s' i b ch \<longleftrightarrow> registered s i b ch" for i b ch by (simp add: registered_def s' ch)
  have "srv_inv s' \<longleftrightarrow> srv_inv s"
    using su tcp_inv_cong [of s' s] s' by (simp add: srv_inv_def same_setup_def)
  moreover have "Poller_inv s' \<longleftrightarrow> Poller_inv s" by (simp add: Poller_inv_def reg s' ch)
  moreover have "serves s' x c \<longleftrightarrow> serves s x c" for x c by (simp add: serves_def conn_live_def reg s' ch)
  moreover have "watched s' b ch \<longleftrightarrow> watched s b ch" for b ch by (simp add: watched_def s')
  moreover have "sized s'" if "sized s"
    using that su sized_snd [OF that, where t = "tick s'"] by (auto simp: sized_def s' same_setup_def)
  ultimately have "echo_inv k s'"
    using inv same_setup_keeps [OF su, of k] by (simp add: echo_inv_def reg s')
  moreover have "echo_spec k (echo_abs s) (echo_abs s')"
    using su by (simp add: echo_abs_def s' echo_spec.pass same_setup_def)
  ultimately show ?thesis using su by (intro echo_okI)
qed

section \<open>The callbacks\<close>

lemma echo_HandleWrite:
  fixes s :: "'a echo_state_scheme"
  assumes inv: "echo_inv k s" and k: "steady k" and c: "conns s x = Some c"
  shows "okR (HandleWrite k (server_cbs (echo_cbs k)) x s) (echo_within k 1 s)"
proof -
  have sv: "serves s x c" and tcp: "tcp_inv s" and sz: "sized s" using inv c by (simp_all add: echo_inv_def srv_inv_def)
  then obtain i ch where live: "conn_live s x c i ch" and st: "tc_state c = kConnected" "Buffer_content (tc_rev c) = []"
    by (auto simp: serves_def)
  let ?p = "Buffer_content (tc_snd c)" and ?out = "sent s (tc_fd c) @ Buffer_content (tc_snd c)"
  obtain n errno where kw: "k_write k (tick s) (tc_fd c) ?p = (n, errno)" by fastforce
  then have "n \<le> int (length ?p)" using k write_acceptsD by (auto simp: steady_def)
  then obtain s' where ch': "conn_changed x c i ch (sent s (tc_fd c) @ take (nat n) ?p) (drop (nat n) ?p) s s'"
    and hw: "HandleWrite k (server_cbs (echo_cbs k)) x s = Inr s'"
    using HandleWrite_changed [OF live kw] st(1) by auto
  have t: "tcp_inv s'" using echo_server.HandleWrite_keeps [OF tcp, of k k x] hw by simp
  have "echo_within k 1 s s'" using ch'
  proof (rule conn_changed_echo)
    fix b e p
    assume s': "conns s' = (conns s)(x \<mapsto> c\<lparr>tc_snd := b\<rparr>)" "chans s' = (chans s)(tc_channel c \<mapsto> ch\<lparr>ch_events := e\<rparr>)"
      "pollfds s' = (pollfds s)[i := p]" "pfd_fd p = tc_fd c" "conn_live s' x (c\<lparr>tc_snd := b\<rparr>) i (ch\<lparr>ch_events := e\<rparr>)"
      "sent s' = (sent s)(tc_fd c := sent s (tc_fd c) @ take (nat n) ?p)" "Buffer_content b = drop (nat n) ?p" "same_setup s s'"
      "tick s' \<le> tick s + 1" "length (buffer b) \<le> length (buffer (tc_snd c)) + (length (drop (nat n) ?p) - length ?p)"
    have "tick s \<le> tick s'" using s'(8) by (simp add: same_setup_def)
    then have "sized s'"
      using sz c s'(10) sized_snd [OF sz c, of "tick s'"] by (intro sized_conn [OF sz s'(8) _ s'(1)]) (simp_all add: s'(3) sized_def)
    then have "echo_inv k s'"
      using s'(1-5) st(2) by (intro echo_inv_conn [OF inv live s'(8) t _, where r = "tc_rev c" and b = b and e = e and p = p]) simp_all
    moreover have "echo_abs s' = (tick s', (snd (echo_abs s))(x \<mapsto> (tc_fd c, ?out)))"
      using echo_abs_conn [OF tcp c, where s' = s' and r = "tc_rev c" and b = b] s'(1,6,7) by simp
    then have "echo_abs s' = (tick s', snd (echo_abs s))" using c by (simp add: echo_abs_def fun_upd_idem)
    then have "echo_spec k (echo_abs s) (echo_abs s')"
      using s'(8) by (simp add: echo_spec.pass same_setup_def echo_abs_def)
    ultimately show ?thesis
      using s'(8,9) chans_kept_events [OF conn_liveD(2) [OF live] s'(2)] by (simp add: echo_within_def echo_okI)
  qed
  with hw show ?thesis by simp
qed

text \<open>After the message callback has sent the message: the reference that \<^verbatim>\<open>HandleRead\<close> took for the callback is
  given back.\<close>

lemma echo_after_send:
  fixes s t v :: "'a echo_state_scheme"
  assumes inv: "echo_inv k s" and live: "conn_live s x c i ch" and uses: "tc_uses c = 1" and b: "Buffer_inv b"
    and rd: "k_readv k (tick s) (tc_fd c) lens = Inr bs"
    and v: "v = echo_prepared x (c\<lparr>tc_rev := b, tc_uses := 2\<rparr>) (set_conn x (c\<lparr>tc_rev := b, tc_uses := 2\<rparr>) (s\<lparr>tick := tick s + 2\<rparr>))"
    and ch': "conn_changed x (c\<lparr>tc_rev := Buffer_retrieveAll b, tc_uses := 2\<rparr>) i ch w q v t"
    and wq: "w @ q = sent s (tc_fd c) @ Buffer_content (tc_snd c) @ bs" "length q \<le> length (Buffer_content (tc_snd c)) + length bs"
    and le: "length (buffer b) \<le> 131080" "length bs \<le> 131080"
  shows "okR (release x (t\<lparr>captures := m\<rparr>)) (\<lambda>s'. tcp_inv s' \<longrightarrow> echo_within k 3 s s')"
proof -
  let ?d = "c\<lparr>tc_rev := Buffer_retrieveAll b, tc_uses := 2\<rparr>"
  have tcp: "tcp_inv s" and sz: "sized s" using inv by (simp_all add: echo_inv_def srv_inv_def)
  note c = conn_liveD(1) [OF live]
  obtain b' e p where t: "conns t = (conns v)(x \<mapsto> ?d\<lparr>tc_snd := b'\<rparr>)" "chans t = (chans v)(tc_channel ?d \<mapsto> ch\<lparr>ch_events := e\<rparr>)"
    "pollfds t = (pollfds v)[i := p]" "pfd_fd p = tc_fd ?d" "conn_live t x (?d\<lparr>tc_snd := b'\<rparr>) i (ch\<lparr>ch_events := e\<rparr>)"
    "sent t = (sent v)(tc_fd ?d := w)" "Buffer_content b' = q" "same_setup v t" "tick t \<le> tick v + 1"
    "length (buffer b') \<le> length (buffer (tc_snd ?d)) + (length q - length (Buffer_content (tc_snd ?d)))"
    using ch' by (rule conn_changed_echo)
  let ?c' = "c\<lparr>tc_rev := Buffer_retrieveAll b, tc_snd := b'\<rparr>"
  define s' where "s' = set_conn x ?c' (t\<lparr>captures := m\<rparr>)"
  have "?d\<lparr>tc_snd := b', tc_uses := Suc 0\<rparr> = ?c'" using uses by (cases c) simp
  then have rel: "release x (t\<lparr>captures := m\<rparr>) = Inr s'" using t(1) by (simp add: release_def s'_def)
  have "same_setup s v" by (simp add: same_setup_def v echo_prepared_def set_conn_def)
  then have su: "same_setup s s'" using t(8) by (auto simp: same_setup_def s'_def set_conn_def)
  have cs: "conns s' = (conns s)(x \<mapsto> ?c')" "chans s' = (chans s)(tc_channel c \<mapsto> ch\<lparr>ch_events := e\<rparr>)"
    "pollfds s' = (pollfds s)[i := p]" "pfd_fd p = tc_fd c" "sent s' = (sent s)(tc_fd c := w)"
    using t(1-4,6) by (simp_all add: s'_def set_conn_def v echo_prepared_def)
  have "conn_live s' x ?c' i (ch\<lparr>ch_events := e\<rparr>)"
    using t(5) by (simp add: conn_live_def registered_def isInLoopThread_def s'_def set_conn_def)
  moreover have tick: "tick s + 2 \<le> tick s'" "tick s' \<le> tick s + 3"
    using t(8,9) by (simp_all add: same_setup_def s'_def set_conn_def v echo_prepared_def)
  then have "sized s'"
    using sized_snd [OF sz c order_refl] t(10) wq(2) le
    by (intro sized_conn [OF sz su _ cs(1)]) (simp_all add: cs(3) Buffer_retrieveAll_def)
  ultimately have inv': "echo_inv k s'" if "tcp_inv s'"
    using that b by (intro echo_inv_conn [OF inv live su _ _ cs(1) _ _ cs(2-4)]) simp_all
  have ab: "echo_abs s' = (tick s', (snd (echo_abs s))(x \<mapsto> (tc_fd c, (sent s (tc_fd c) @ Buffer_content (tc_snd c)) @ bs)))"
    using echo_abs_conn [OF tcp c cs(1,5)] wq(1) t(7) by simp
  have "echo_spec k (tick s, snd (echo_abs s)) (echo_abs s')"
    unfolding ab using c tick(1) by (intro echo_spec.echo [OF order_refl _ rd]) (simp_all add: echo_abs_def)
  then have "echo_spec k (echo_abs s) (echo_abs s')" by (metis echo_abs_fst prod.collapse)
  with inv' su rel tick(2) chans_kept_events [OF conn_liveD(2) [OF live] cs(2)] show ?thesis by (simp add: echo_within_def echo_okI)
qed

text \<open>What can go wrong after \<open>t\<close> system calls: nothing before there were \<open>2 ^ 30\<close> of them.\<close>

definition strained :: "nat \<Rightarrow> error set" where
  "strained t = (if t < 2 ^ 30 then {} else {Length_error, Signed_overflow})"

lemma strained_mono: "t \<le> t' \<Longrightarrow> strained t \<subseteq> strained t'"
  by (simp add: strained_def)

lemma strained_le: "strained t \<subseteq> {Length_error, Signed_overflow}"
  by (simp add: strained_def)

text \<open>When bytes arrive, \<^verbatim>\<open>HandleRead\<close> runs the message callback, which sends them back.\<close>

lemma echo_HandleRead_eq:
  fixes s :: "'a echo_state_scheme"
  assumes live: "conn_live s x c i ch" and c: "tc_msg_cb c = Some 0" "tc_uses c = 1"
    and rd: "Buffer_readFd (k_readv k (tick s) (tc_fd c)) None (tc_rev c) = Inr (int (length bs), errno, b)" "bs \<noteq> []"
    and b: "Buffer_inv b" "Buffer_content b = bs"
  defines "u \<equiv> set_conn x (c\<lparr>tc_rev := b, tc_uses := 2\<rparr>) (s\<lparr>tick := tick s + 2\<rparr>)"
  defines "v \<equiv> echo_prepared x (c\<lparr>tc_rev := b, tc_uses := 2\<rparr>) u"
  shows "HandleRead k (server_cbs (echo_cbs k)) x s = bindR (sendInLoop k echo_conn_cbs x bs v) (\<lambda>t.
      release x (t\<lparr>captures := (captures t)(next_capture u := None)\<rparr>))"
    and "conn_live v x (c\<lparr>tc_rev := Buffer_retrieveAll b, tc_uses := 2\<rparr>) i ch" "tick v = tick s + 2" "sent v = sent s"
proof -
  note L = conn_liveD [OF live]
  show "conn_live v x (c\<lparr>tc_rev := Buffer_retrieveAll b, tc_uses := 2\<rparr>) i ch" "tick v = tick s + 2" "sent v = sent s"
    using live by (simp_all add: v_def u_def echo_prepared_def conn_live_def registered_def isInLoopThread_def set_conn_def)
  have "echo_message k echo_conn_cbs x now u = bindR (sendInLoop k echo_conn_cbs x bs v) (\<lambda>t.
      Inr (t\<lparr>captures := (captures t)(next_capture u := None)\<rparr>))" for now
    using echo_message_eq [of u x "c\<lparr>tc_rev := b, tc_uses := 2\<rparr>"] b L(5)
    by (simp add: v_def) (simp add: u_def isInLoopThread_def set_conn_def)
  then show "HandleRead k (server_cbs (echo_cbs k)) x s = bindR (sendInLoop k echo_conn_cbs x bs v) (\<lambda>t.
      release x (t\<lparr>captures := (captures t)(next_capture u := None)\<rparr>))"
    using L rd c
    by (simp add: HandleRead_def Let_def call_with_this_def shared_from_this_def echo_cbs_def u_def set_conn_def bindR_assoc numeral_2_eq_2)
qed

lemma echo_HandleRead_bytes:
  fixes s :: "'a echo_state_scheme"
  assumes inv: "echo_inv k s" and k: "steady k" and live: "conn_live s x c i ch" and c: "tc_msg_cb c = Some 0" "tc_uses c = 1"
    and rd: "Buffer_readFd (k_readv k (tick s) (tc_fd c)) None (tc_rev c) = Inr (int (length bs), errno, b)" "bs \<noteq> []"
      "k_readv k (tick s) (tc_fd c) lens = Inr bs"
    and b: "Buffer_inv b" "Buffer_content b = bs" and le: "length (buffer b) \<le> 131080" "length bs \<le> 131080"
  shows "failR (strained (tick s)) (HandleRead k (server_cbs (echo_cbs k)) x s) (\<lambda>s'. tcp_inv s' \<longrightarrow> echo_within k 3 s s')"
proof -
  note L = conn_liveD [OF live]
  let ?d = "c\<lparr>tc_rev := Buffer_retrieveAll b, tc_uses := 2\<rparr>" and ?p = "Buffer_content (tc_snd c)"
  define u where "u = set_conn x (c\<lparr>tc_rev := b, tc_uses := 2\<rparr>) (s\<lparr>tick := tick s + 2\<rparr>)"
  define v where "v = echo_prepared x (c\<lparr>tc_rev := b, tc_uses := 2\<rparr>) u"
  note v = echo_HandleRead_eq [OF live c rd(1,2) b, folded u_def, folded v_def]
  obtain m e where kw: "k_write k (tick v) (tc_fd ?d) bs = (m, e)" by fastforce
  have m: "- 1 \<le> m" "m \<le> int (length bs)" "m < 0 \<longrightarrow> e = EWOULDBLOCK"
    using k write_acceptsD [OF _ kw] by (simp_all add: steady_def)
  have len: "length bs \<le> max_size" using Buffer_content_le [OF b(1)] b(2) by simp
  have sz: "sized s" using inv by (simp add: echo_inv_def)
  have "writerIndex (tc_snd c) \<le> length (buffer (tc_snd c))" using L(7) by (simp add: Buffer_inv_def)
  then have fits: "Buffer_fits bs (tc_snd ?d) \<or> Length_error \<in> strained (tick s)"
    using sized_snd [OF sz L(1) order_refl] le(2) by (simp add: Buffer_fits_def max_size_def strained_def)
  let ?sent = "\<lambda>t. \<exists>w q. conn_changed x ?d i ch w q v t \<and> w @ q = sent s (tc_fd c) @ ?p @ bs \<and> length q \<le> length ?p + length bs"
  have send: "failR (strained (tick s)) (sendInLoop k echo_conn_cbs x bs v) ?sent"
    by (rule failR_mono [OF sendInLoop_changed [OF v(2) len kw m(1,2), of echo_conn_cbs]])
      (use m(3) v(4) fits in \<open>fastforce split: if_splits\<close>)+
  have after: "okR (release x (t\<lparr>captures := (captures t)(next_capture u := None)\<rparr>)) (\<lambda>s'. tcp_inv s' \<longrightarrow> echo_within k 3 s s')"
    if "?sent t" for t
    using that echo_after_send [OF inv live c(2) b(1) rd(3) v_def [unfolded u_def] _ _ _ le] by auto
  show ?thesis unfolding v(1) failR_bindR by (rule failR_mono [OF send order_refl failR_okR [OF after]])
qed

lemma echo_HandleRead:
  fixes s :: "'a echo_state_scheme"
  assumes inv: "echo_inv k s" and k: "steady k" and c: "conns s x = Some c"
  shows "failR (strained (tick s)) (HandleRead k (server_cbs (echo_cbs k)) x s) (echo_within k 3 s)"
proof -
  have sv: "serves s x c" and tcp: "tcp_inv s" and uses: "tc_uses c = 1"
    and rsz: "writerIndex (tc_rev c) = kCheapPrepend" "length (buffer (tc_rev c)) \<le> 131080"
    using inv c by (simp_all add: echo_inv_def srv_inv_def sized_def)
  then obtain i ch where live: "conn_live s x c i ch" and st: "tc_msg_cb c = Some 0" "Buffer_content (tc_rev c) = []"
    by (auto simp: serves_def)
  have rinv: "Buffer_inv (tc_rev c)" using tcp_inv_conn [OF tcp c] by (simp add: conn_ok_def)
  have rok: "readv_ok (k_readv k (tick s) (tc_fd c))" using k by (auto simp: steady_def kernel_readv_ok_def readv_ok_def)
  have "length (buffer (tc_rev c)) + extrabuf_size \<le> max_size" using rsz(2) by (simp add: extrabuf_size_def max_size_def)
  note rd = Buffer_readFd_ok [OF rinv this rok, of None]
  then obtain n errno b where b: "Buffer_readFd (k_readv k (tick s) (tc_fd c)) None (tc_rev c) = Inr (n, errno, b)"
    by (auto simp: okR_def)
  have bsz: "length (buffer b) \<le> 131080" "n \<le> 131080"
    using Buffer_readFd_size [OF rinv rsz(1) rok, of None] rsz(2) b by (simp_all add: max_def split: if_splits)
  show ?thesis
  proof (cases "k_readv k (tick s) (tc_fd c) (readFd_iov (tc_rev c))")
    case (Inl err)
    then have nb: "n = -1" "b = tc_rev c" using rd b by simp_all
    let ?s = "s\<lparr>tick := tick s + 1\<rparr>"
    have "HandleRead k (server_cbs (echo_cbs k)) x s = Inr ?s"
      using conn_liveD [OF live] b nb by (simp add: HandleRead_def HandleError_def set_conn_def Let_def fun_upd_idem)
    moreover have "echo_ok k s ?s" by (rule echo_ok_same [OF inv]) (simp_all add: same_setup_def)
    ultimately show ?thesis by (simp add: echo_within_def chans_kept_same)
  next
    case (Inr bs)
    then have nb: "n = int (length bs)" "Buffer_inv b" "Buffer_content b = bs" using rd b st(2) by simp_all
    have "bs \<noteq> []" "length bs \<le> 131080" using k Inr bsz(2) nb(1) by (auto simp: steady_def)
    from echo_HandleRead_bytes [OF inv k live st(1) uses b [unfolded nb(1)] this(1) Inr nb(2,3) bsz(1) this(2)]
    have "failR (strained (tick s)) (HandleRead k (server_cbs (echo_cbs k)) x s) (\<lambda>s'. tcp_inv s' \<longrightarrow> echo_within k 3 s s')" .
    from failR_safeR [OF this echo_server.HandleRead_keeps [OF tcp]] show ?thesis by (rule failR_mono) auto
  qed
qed

lemma echo_inv_same_lib:
  assumes "same_lib s s'"
  shows "echo_inv k s' \<longleftrightarrow> echo_inv k s" "echo_abs s' = echo_abs s"
proof -
  note D = same_libD [OF assms]
  have more: "timers s' = timers s" "quit_flag s' = quit_flag s" "new_conn_callback s' = new_conn_callback s"
      "srv_msg_cb s' = srv_msg_cb s" "srv_wc_cb s' = srv_wc_cb s"
    using assms by (simp_all add: same_lib_def server_state.defs)
  have reg: "registered s' i b ch \<longleftrightarrow> registered s i b ch" for i b ch by (simp add: registered_def D)
  show "echo_inv k s' \<longleftrightarrow> echo_inv k s"
    by (simp add: echo_inv_def srv_inv_same_lib [OF assms] Poller_inv_def reg settings_def isInLoopThread_same_lib [OF assms]
        accepts_fresh_def sized_def serves_def conn_live_same_lib [OF assms] watched_def D more)
  show "echo_abs s' = echo_abs s" by (simp add: echo_abs_def D)
qed

text \<open>A new connection: the parts of the invariant, then the whole.\<close>

lemma sized_with_conn:
  assumes "sized s" "fresh_buffer r" "fresh_buffer w"
  shows "sized (with_conn fd peer r w (s\<lparr>tick := tick s + 1\<rparr>))"
  using assms sized_snd [OF assms(1), where t = "tick s + 1"]
  by (auto simp: sized_def fresh_conn_def fresh_buffer_def kCheapPrepend_def kInitialSize_def) (simp_all add: with_conn_def)

lemma accepts_fresh_with_conn:
  assumes "accepts_fresh k s" "k_accept k (tick s) = (fd, peer)"
  shows "accepts_fresh k (with_conn fd peer r w (s\<lparr>tick := tick s + 1\<rparr>))"
proof -
  have "fst (k_accept k t) \<noteq> fd" if "Suc (tick s) \<le> t" for t
    using assms that inj_onD [of "\<lambda>t. fst (k_accept k t)" "{tick s..}" t "tick s"] by (auto simp: accepts_fresh_def)
  then show ?thesis using assms(1) by (auto simp: accepts_fresh_def inj_on_def)
qed

lemma echo_spec_with_conn:
  assumes "k_accept k (tick s) = (fd, peer)" "conns s (next_addr s) = None" "Buffer_content w = []"
    and "\<And>y d. conns s y = Some d \<Longrightarrow> tc_fd d \<noteq> fd"
  shows "echo_spec k (echo_abs s) (echo_abs (with_conn fd peer r w (s\<lparr>tick := tick s + 1\<rparr>)))"
proof -
  have "echo_abs (with_conn fd peer r w (s\<lparr>tick := tick s + 1\<rparr>)) = (Suc (tick s), (snd (echo_abs s))(next_addr s \<mapsto> (fd, [])))"
    using assms(3,4) by (auto simp: echo_abs_def fun_eq_iff fresh_conn_def map_option_case split: option.split)
  moreover have "echo_spec k (tick s, snd (echo_abs s)) (Suc (tick s), (snd (echo_abs s))(next_addr s \<mapsto> (fd, [])))"
    using assms(2) by (intro echo_spec.accept [OF order_refl _ assms(1)]) (simp_all add: echo_abs_def)
  ultimately show ?thesis by (metis echo_abs_fst prod.collapse)
qed

lemma echo_inv_with_conn:
  fixes s :: "'a echo_state_scheme"
  assumes inv: "echo_inv k s" and acc: "k_accept k (tick s) = (fd, peer)"
    and fresh: "fresh_buffer r" "fresh_buffer w"
  defines "v \<equiv> with_conn fd peer r w (s\<lparr>tick := tick s + 1\<rparr>)"
  shows "echo_ok k s v"
proof -
  let ?s = "s\<lparr>tick := tick s + 1\<rparr>" and ?x = "next_addr s"
  have old: "srv_inv s" "Poller_inv s" "settings s" "accepts_fresh k s" "\<And>y d. conns s y = Some d \<Longrightarrow> serves s y d"
      "\<And>j a dh. registered s j a dh \<Longrightarrow> watched s a dh" "\<And>a dh. chans s a = Some dh \<Longrightarrow> ch_revents dh AND POLLHUP = 0"
    using inv by (simp_all add: echo_inv_def)
  have rw: "Buffer_inv r" "Buffer_inv w" "Buffer_content r = []" "Buffer_content w = []"
    using fresh by (simp_all add: fresh_buffer_def)
  have fd: "0 \<le> fd" "channels s fd = None" using old(4) acc by (auto simp: accepts_fresh_def)
  have free: "conns s ?x = None" "chans s (Suc ?x) = None" using old(1) by (simp_all add: srv_inv_def)
  have fds: "tc_fd d \<noteq> fd" if "conns s y = Some d" for y d
    using old(5) [OF that] fd(2) by (auto simp: serves_def conn_live_def registered_def)
  let ?c = "fresh_conn fd peer r w ?s" and ?ch = "fresh_channel fd ?s"
  have v: "conns v = (conns s)(?x \<mapsto> ?c)" "chans v = (chans s)(Suc ?x \<mapsto> ?ch)" "sent v = (sent s)(fd := [])"
      "tick v = tick s + 1" "channels v = (channels s)(fd \<mapsto> Suc ?x)"
    by (simp_all add: v_def)
  have "srv_inv ?s" using old(1) tcp_inv_cong [of ?s s] by (simp add: srv_inv_def)
  then have "srv_inv v" unfolding v_def using fds rw by (intro srv_inv_with_conn) auto
  moreover have reg: "registered v j d dh \<longleftrightarrow> registered s j d dh \<or> (j = length (pollfds s) \<and> d = Suc ?x \<and> dh = ?ch)" for j d dh
    unfolding v_def using fd(2) free(2) by (subst registered_with_conn) (simp_all add: registered_def)
  moreover have "Poller_inv ?s" using old(2) by (simp add: Poller_inv_def registered_def)
  then have "Poller_inv v" unfolding v_def using fd free by (intro Poller_inv_with_conn) auto
  moreover have set: "settings v" using old(3) by (simp add: settings_def v_def with_conn_def isInLoopThread_def)
  moreover have "sized v" unfolding v_def using inv fresh by (intro sized_with_conn) (simp_all add: echo_inv_def)
  moreover have "accepts_fresh k v" unfolding v_def by (rule accepts_fresh_with_conn [OF old(4) acc])
  moreover have "serves v y d" if y: "conns v y = Some d" for y d
  proof (cases "y = ?x")
    case True
    then have "d = ?c" using y v(1) by simp
    moreover have "conn_live v ?x ?c (length (pollfds s)) ?ch"
      using conn_live_with_conn [of ?s fd w peer r] old(3) fd(2) free(2) rw(2,4)
      by (simp add: v_def settings_def isInLoopThread_def)
    ultimately show ?thesis
      using True rw(3) old(3) unfolding serves_def
      by (intro conjI exI [of _ "length (pollfds s)"] exI [of _ ?ch])
        (simp_all add: fresh_conn_def settings_def, simp_all add: fresh_channel_def Channel_new_def)
  next
    case False
    then have "conns s y = Some d" using y v(1) by simp
    then show ?thesis
      using old(5) False set reg unfolding serves_def conn_live_def v by (fastforce simp: settings_def)
  qed
  moreover have "watched v a dh" if "registered v j a dh" for j a dh
  proof -
    have "conns v ?x = Some ?c" "tc_channel ?c = Suc ?x" by (simp_all add: v fresh_conn_def)
    moreover have "conns v y = Some d" if "conns s y = Some d" for y d using that free(1) v(1) by auto
    ultimately show ?thesis using that reg old(6) [of j a dh] unfolding watched_def by blast
  qed
  moreover have "ch_revents dh AND POLLHUP = 0" if "chans v a = Some dh" for a dh
    using that old(7) by (auto simp: v fresh_channel_def Channel_new_def split: if_splits)
  ultimately have "echo_inv k v" by (simp add: echo_inv_def)
  moreover have "channels s \<subseteq>\<^sub>m channels v" using fd(2) by (auto simp: map_le_def v)
  moreover have "echo_spec k (echo_abs s) (echo_abs v)"
    unfolding v_def by (rule echo_spec_with_conn [OF acc free(1) rw(4) fds])
  ultimately show ?thesis by (auto simp: echo_ok_def)
qed

lemma echo_accept:
  fixes s :: "'a echo_state_scheme"
  assumes inv: "echo_inv k s"
  shows "failR (strained (tick s)) (Acceptor_handleRead k (newConnection (echo_cbs k)) s) (echo_within k 1 s)"
proof -
  obtain fd peer where acc: "k_accept k (tick s) = (fd, peer)" by fastforce
  let ?s = "s\<lparr>tick := tick s + 1\<rparr>"
  have fd: "0 \<le> fd" "channels s fd = None" and set: "isInLoopThread s" "new_conn_callback s" and srv: "srv_inv s"
    using inv acc by (auto simp: echo_inv_def accepts_fresh_def settings_def)
  have thr: "isInLoopThread ?s" using set(1) by (simp add: isInLoopThread_def)
  have eq: "Acceptor_handleRead k (newConnection (echo_cbs k)) s = newConnection (echo_cbs k) fd peer ?s"
    using set acc fd(1) by (simp add: Acceptor_handleRead_def assertInLoopThread_def InetAddress_of_def)
  show ?thesis
  proof (cases "next_conn_id s = 2147483647")
    case True
    moreover have "next_conn_id s \<le> int (tick s)" using inv by (simp add: echo_inv_def sized_def)
    ultimately show ?thesis using thr by (simp add: eq newConnection_def assertInLoopThread_def strained_def)
  next
    case False
    then obtain r w s' where r: "fresh_buffer r" "fresh_buffer w"
      and s': "newConnection (echo_cbs k) fd peer ?s = Inr s'" "same_lib (with_conn fd peer r w ?s) s'"
      using newConnection_eq [of ?s fd "echo_cbs k" peer] srv_inv_fresh_name [OF srv] thr fd(2) echo_quiet by auto
    have "echo_ok k s (with_conn fd peer r w ?s)" by (rule echo_inv_with_conn [OF inv acc r])
    then have "echo_ok k s s'"
      using echo_inv_same_lib [OF s'(2)] same_libD(7) [OF s'(2)] by (simp add: echo_ok_def)
    moreover have "tick s' = tick s + 1" using same_libD [OF s'(2)] by simp
    moreover have "chans s (Suc (next_addr s)) = None" using srv by (simp add: srv_inv_def)
    then have "chans_kept s s'" using same_libD [OF s'(2)] by (auto simp: chans_kept_def unchanged_def same_channel_def)
    ultimately show ?thesis unfolding eq s'(1) by (simp add: echo_within_def)
  qed
qed

lemma echo_timer:
  fixes s :: "'a echo_state_scheme"
  assumes inv: "echo_inv k s" and k: "steady k"
  shows "okR (TimerQueue_HandleRead k user s) (echo_within k 4 s)"
proof -
  have t: "timers s = []" using inv by (simp add: echo_inv_def settings_def)
  define u where "u = s\<lparr>tick := tick s + 2, timers := []\<rparr>"
  have "int64_ok (0 - Timestamp_now k (tick u))" using k by (intro clock_diff_ok) (simp_all add: steady_def)
  then obtain sec nsec where "howMuchTimeFromNow (Timestamp_now k (tick u)) 0 = Inr (sec, nsec)"
    by (rule howMuchTimeFromNow_ok)
  then have "\<exists>r. resetTimerfd k 0 u = Inr r \<and> (r = u\<lparr>tick := tick u + 2\<rparr> \<or> (\<exists>a. r = u\<lparr>timer_armed := a, tick := tick u + 2\<rparr>))"
    by (auto simp: resetTimerfd_def Let_def)
  then obtain r where r: "resetTimerfd k 0 u = Inr r" "r = u\<lparr>tick := tick u + 2\<rparr> \<or> (\<exists>a. r = u\<lparr>timer_armed := a, tick := tick u + 2\<rparr>)" by blast
  have "TimerQueue_HandleRead k user s = resetTimerfd k 0 u"
    using t by (simp add: TimerQueue_HandleRead_def GetExpired_def readTimerfd_def TimerQueue_reset_def Timestamp_valid_def u_def)
  moreover have "echo_ok k s r" by (rule echo_ok_same [OF inv]) (use r(2) t in \<open>auto simp: same_setup_def u_def\<close>)
  moreover have "tick r = tick s + 4" using r(2) by (auto simp: u_def)
  moreover have "chans r = chans s" using r(2) by (auto simp: u_def)
  ultimately show ?thesis using r(1) by (simp add: echo_within_def chans_kept_same)
qed

text \<open>Every callback of a channel the poller knows.\<close>

abbreviation echo_run :: "kernel \<Rightarrow> closure \<Rightarrow> 'a echo_state_scheme \<Rightarrow> 'a echo_state_scheme result" where
  "echo_run k \<equiv> run_closure k (echo_cbs k) (\<lambda>_. Inr)"

abbreviation exhausted :: "error set" where
  "exhausted \<equiv> {Length_error, Signed_overflow}"

lemma echo_channel_cases:
  assumes inv: "echo_inv k s" and reg: "registered s i b ch"
  obtains (own) "ch_read_cb ch \<in> {Some Acceptor_handleRead_fn, Some EventLoop_handleRead_fn, Some TimerQueue_HandleRead_fn}"
      "ch_write_cb ch = None" "ch_error_cb ch = None"
    | (conn) x c where "conns s x = Some c" "ch_read_cb ch = Some (Conn_HandleRead_fn x)" "ch_write_cb ch = Some (Conn_HandleWrite_fn x)"
      "ch_error_cb ch = None"
proof (cases "\<exists>x c. conns s x = Some c \<and> tc_channel c = b")
  case True
  then obtain x c where c: "conns s x = Some c" "tc_channel c = b" by blast
  then have "serves s x c" using inv by (simp add: echo_inv_def)
  then obtain j dh where "conn_live s x c j dh" "ch_read_cb dh = Some (Conn_HandleRead_fn x)"
      "ch_write_cb dh = Some (Conn_HandleWrite_fn x)" "ch_error_cb dh = None"
    by (auto simp: serves_def)
  moreover from this have "dh = ch" using c reg by (auto simp: registered_def dest!: conn_liveD(2))
  ultimately show thesis using c(1) that(2) by blast
next
  case False
  have "watched s b ch" using inv reg by (simp add: echo_inv_def)
  with False that(1) show thesis by (auto simp: watched_def)
qed

lemma echo_callback:
  fixes s :: "'a echo_state_scheme"
  assumes inv: "echo_inv k s" and k: "steady k" and reg: "registered s i b ch"
    and f: "Some f \<in> {ch_read_cb ch, ch_write_cb ch, ch_error_cb ch}"
  shows "failR (strained (tick s)) (echo_run k f s) (echo_within k 4 s)"
  using inv reg
proof (cases rule: echo_channel_cases)
  case own
  have "echo_ok k s (EventLoop_handleRead s)"
    by (rule echo_ok_same [OF inv]) (simp_all add: EventLoop_handleRead_def same_setup_def)
  moreover have "tick (EventLoop_handleRead s) \<le> tick s + 4" "chans_kept s (EventLoop_handleRead s)"
    by (simp_all add: EventLoop_handleRead_def chans_kept_same)
  moreover have "failR (strained (tick s)) (Acceptor_handleRead k (newConnection (echo_cbs k)) s) (echo_within k 4 s)"
    by (rule failR_mono [OF echo_accept [OF inv] order_refl]) (erule echo_within_mono, simp)
  ultimately show ?thesis
    using own f echo_timer [OF inv k, of "\<lambda>_. Inr"] by (auto simp: run_closure_def echo_within_def intro: failR_okR)
next
  case (conn x c)
  have "failR (strained (tick s)) (HandleRead k (server_cbs (echo_cbs k)) x s) (echo_within k 4 s)"
    by (rule failR_mono [OF echo_HandleRead [OF inv k conn(1)] order_refl]) (erule echo_within_mono, simp)
  moreover have "okR (HandleWrite k (server_cbs (echo_cbs k)) x s) (echo_within k 4 s)"
    by (rule okR_mono [OF echo_HandleWrite [OF inv k conn(1)]]) (erule echo_within_mono, simp)
  ultimately show ?thesis using f conn by (auto simp: run_closure_def intro: failR_okR)
qed

text \<open>Dispatching calls at most three callbacks.\<close>

lemma echo_stage:
  fixes s t :: "'a echo_state_scheme"
  assumes t: "echo_within k d s t" and k: "steady k" and b: "channels s fd = Some b"
    and cb: "cb \<in> {ch_read_cb, ch_write_cb, ch_error_cb}" and n: "d + 4 \<le> n"
  shows "failR (strained (tick s + n)) (HandleEvent_stage (echo_run k) bits cb b t) (echo_within k (d + 4) s)"
proof -
  note it = echo_within_inv [OF t] echo_within_channels [OF t b]
  then obtain i ch where reg: "registered t i b ch" by (auto simp: echo_inv_def elim: Poller_inv_lookup)
  have t4: "echo_within k (d + 4) s t" by (rule echo_within_mono [OF t]) simp
  have E: "strained (tick t) \<subseteq> strained (tick s + n)" using t n by (intro strained_mono) (simp add: echo_within_def)
  have "failR (strained (tick s + n)) (call_cb (echo_run k) (cb ch) t) (echo_within k (d + 4) s)"
  proof (cases "cb ch")
    case (Some f)
    then have "failR (strained (tick t)) (echo_run k f t) (echo_within k 4 t)"
      using cb by (intro echo_callback [OF it(1) k reg]) auto
    then have "failR (strained (tick s + n)) (echo_run k f t) (echo_within k (d + 4) s)"
      by (rule failR_mono [OF _ E]) (rule echo_within_trans [OF t], auto)
    with Some show ?thesis by (simp add: call_cb_def)
  qed (use t4 in \<open>simp add: call_cb_def\<close>)
  then show ?thesis using reg t4 by (simp add: HandleEvent_stage_def registered_def)
qed

lemma echo_HandleEvent:
  fixes s :: "'a echo_state_scheme"
  assumes inv: "echo_inv k s" and k: "steady k" and b: "channels s fd = Some b"
  shows "failR (strained (tick s + 12)) (Channel_HandleEvent (echo_run k) b s) (echo_within k 12 s)"
proof -
  obtain i ch where reg: "registered s i b ch" using inv b by (auto simp: echo_inv_def elim: Poller_inv_lookup)
  then have ch: "chans s b = Some ch" "ch_revents ch AND POLLHUP = 0" using inv by (auto simp: registered_def echo_inv_def)
  note st = echo_stage [OF _ k b, where n = 12]
  have "failR (strained (tick s + 12)) (HandleEvent_stage (echo_run k) e ch_write_cb b u) (echo_within k 12 s)"
    if "echo_within k 8 s u" for e u using st [OF that, of ch_write_cb e] by simp
  then have "failR (strained (tick s + 12)) (bindR (HandleEvent_stage (echo_run k) e2 ch_read_cb b t) (\<lambda>s.
      HandleEvent_stage (echo_run k) e3 ch_write_cb b s)) (echo_within k 12 s)" if "echo_within k 4 s t" for e2 e3 t
    unfolding failR_bindR by (intro failR_mono [OF st [OF that, of ch_read_cb e2]]) simp_all
  then have "failR (strained (tick s + 12)) (bindR (HandleEvent_stage (echo_run k) e1 ch_error_cb b s) (\<lambda>s.
      bindR (HandleEvent_stage (echo_run k) e2 ch_read_cb b s) (\<lambda>s. HandleEvent_stage (echo_run k) e3 ch_write_cb b s)))
      (echo_within k 12 s)" for e1 e2 e3
    unfolding failR_bindR [of _ "HandleEvent_stage (echo_run k) e1 ch_error_cb b s"]
    by (intro failR_mono [OF st [OF echo_within_refl [OF inv], of ch_error_cb e1]]) simp_all
  then show ?thesis using ch by (simp add: Channel_HandleEvent_def)
qed

text \<open>No callback of the program changes or frees a channel under the dispatcher that called it.\<close>

lemma echo_intact:
  fixes s :: "'a echo_state_scheme"
  assumes inv: "echo_inv k s" and k: "steady k" and b: "channels s fd = Some b" and ch: "chans s b = Some ch"
  shows "intact (echo_run k) b ch (early ch) s"
proof -
  obtain i where reg: "registered s i b ch"
    using inv b ch by (auto simp: echo_inv_def registered_def elim!: Poller_inv_lookup)
  have "ch_error_cb ch = None" using inv reg by (cases rule: echo_channel_cases) simp_all
  then have "early ch = [] \<or> (\<exists>f. early ch = [f] \<and> ch_read_cb ch = Some f)"
    by (auto simp: early_def opt_list_def split: option.splits)
  moreover have "safeR (echo_run k f s) (unchanged b ch)" if "ch_read_cb ch = Some f" for f
  proof -
    have "failR (strained (tick s)) (echo_run k f s) (echo_within k 4 s)" using that by (intro echo_callback [OF inv k reg]) simp
    then show ?thesis using ch by (cases "echo_run k f s") (simp_all add: echo_within_def chans_kept_def)
  qed
  ultimately show ?thesis by auto
qed

section \<open>The loop\<close>

lemma POLLHUP_scast:
  fixes r :: "16 word"
  assumes "r AND POLLHUP = 0"
  shows "(scast r :: 32 word) AND POLLHUP = 0"
proof -
  have "bit (r AND POLLHUP) 4 \<longleftrightarrow> bit r 4" by (simp add: bit_and_iff POLLHUP_def)
  then have "\<not> bit r 4" using assms by simp
  moreover have "bit (POLLHUP :: 32 word) n \<longleftrightarrow> n = 4" for n
  proof -
    have hup: "(POLLHUP :: 32 word) = push_bit 4 1" by (simp add: POLLHUP_def)
    show ?thesis unfolding hup bit_push_bit_iff bit_1_iff by auto
  qed
  ultimately show ?thesis by (intro bit_eqI) (auto simp: bit_and_iff bit_signed_iff)
qed

lemma marked_chans:
  assumes "marked R s s'" and "\<forall>r \<in> R. r AND POLLHUP = 0" and "\<forall>b ch. chans s b = Some ch \<longrightarrow> ch_revents ch AND POLLHUP = 0"
  shows "\<forall>b. rel_option (\<lambda>ch ch'. \<exists>r. ch' = ch\<lparr>ch_revents := r\<rparr> \<and> r AND POLLHUP = 0) (chans s b) (chans s' b)"
proof
  fix b
  have "rel_option (\<lambda>ch ch'. \<exists>r. ch' = ch\<lparr>ch_revents := r\<rparr> \<and> (r = ch_revents ch \<or> r \<in> scast ` R)) (chans s b) (chans s' b)"
    using assms(1) by (auto simp: marked_def)
  then show "rel_option (\<lambda>ch ch'. \<exists>r. ch' = ch\<lparr>ch_revents := r\<rparr> \<and> r AND POLLHUP = 0) (chans s b) (chans s' b)"
    using assms(2,3) by (cases "chans s b"; cases "chans s' b") (auto dest: POLLHUP_scast)
qed

lemma echo_inv_revents:
  fixes s :: "'a echo_state_scheme"
  assumes inv: "echo_inv k s" and su: "same_setup s s'" and poller: "Poller_inv s'"
    and same: "conns s' = conns s" "sent s' = sent s" "accepted s' = accepted s"
    and chans: "\<forall>b. rel_option (\<lambda>ch ch'. \<exists>r. ch' = ch\<lparr>ch_revents := r\<rparr> \<and> r AND POLLHUP = 0) (chans s b) (chans s' b)"
    and reg: "\<And>i b ch. registered s i b ch \<Longrightarrow> \<exists>r. registered s' i b (ch\<lparr>ch_revents := r\<rparr>)" "length (pollfds s') = length (pollfds s)"
  shows "echo_ok k s s'"
proof -
  have old: "srv_inv s" "Poller_inv s" "settings s" "accepts_fresh k s" "\<And>y d. conns s y = Some d \<Longrightarrow> serves s y d"
      "\<And>j a dh. registered s j a dh \<Longrightarrow> watched s a dh"
    using inv by (simp_all add: echo_inv_def)
  have chans': "chans s' b = None \<longleftrightarrow> chans s b = None" "chans s b = Some ch \<Longrightarrow> \<exists>r. chans s' b = Some (ch\<lparr>ch_revents := r\<rparr>)" for b ch
    using chans [rule_format, of b] by (cases "chans s b"; cases "chans s' b"; auto)+
  have "tcp_inv s" using old(1) by (simp add: srv_inv_def)
  moreover have "conn_ok s' x c" if "conn_ok s x c" for x c
    using that chans'(2) unfolding conn_ok_def same by (fastforce simp: isWritingEnabled_def)
  ultimately have "tcp_inv s'" by (auto simp: tcp_inv_def same)
  then have "srv_inv s'" using old(1) su chans'(1) by (simp add: srv_inv_def same_setup_def same)
  moreover have "serves s' x c" if "conns s' x = Some c" for x c
  proof -
    have "serves s x c" using that old(5) same(1) by simp
    then obtain i ch where *: "tc_state c = kConnected" "tc_msg_cb c = Some 0" "Buffer_content (tc_rev c) = []" "conn_live s x c i ch"
        "ch_read_cb ch = Some (Conn_HandleRead_fn x)" "ch_write_cb ch = Some (Conn_HandleWrite_fn x)" "ch_error_cb ch = None"
      by (auto simp: serves_def)
    then obtain r where "registered s' i (tc_channel c) (ch\<lparr>ch_revents := r\<rparr>)" using reg(1) conn_liveD(3) by blast
    then have "conn_live s' x c i (ch\<lparr>ch_revents := r\<rparr>)"
      using *(4) su by (simp add: conn_live_def same same_setup_def isInLoopThread_def)
    with * show ?thesis unfolding serves_def by (intro conjI exI [of _ i] exI [of _ "ch\<lparr>ch_revents := r\<rparr>"]) simp_all
  qed
  moreover have "watched s' b ch'" if r': "registered s' i b ch'" for i b ch'
  proof -
    have "i < length (pollfds s)" using r' reg(2) by (simp add: registered_def)
    then obtain a ch where r: "registered s i a ch" using old(2) by (auto simp: Poller_inv_def)
    with reg(1) obtain r where "registered s' i a (ch\<lparr>ch_revents := r\<rparr>)" by blast
    then have "a = b" "ch' = ch\<lparr>ch_revents := r\<rparr>" using r' by (auto simp: registered_def)
    then show ?thesis using old(6) [OF r] by (simp add: watched_def same)
  qed
  moreover have "ch_revents ch AND POLLHUP = 0" if "chans s' b = Some ch" for b ch
    using chans [rule_format, of b] that by (auto simp: option_rel_Some2)
  moreover have "sized s"
    using inv by (simp add: echo_inv_def)
  then have "sized s'"
    using sized_snd [where s = s and t = "tick s'"] su reg(2) by (auto simp: sized_def same same_setup_def)
  ultimately have "echo_inv k s'" using same_setup_keeps [OF su old(3,4)] poller by (simp add: echo_inv_def)
  moreover have "echo_spec k (echo_abs s) (echo_abs s')"
    using su by (simp add: echo_abs_def same echo_spec.pass same_setup_def)
  ultimately show ?thesis using su by (intro echo_okI)
qed

lemma echo_Poll:
  fixes s :: "'a echo_state_scheme"
  assumes inv: "echo_inv k s" and k: "steady k" and act: "active_channels s = []"
  shows "okR (Poller_Poll k s) (\<lambda>(now, s'). echo_ok k s s' \<and> tick s' = tick s + 2 \<and> set (active_channels s') \<subseteq> ran (channels s') \<and>
    length (active_channels s') \<le> length (pollfds s))"
proof -
  obtain n revs where p: "k_poll k (tick s) (pollfds s) = (n, revs)" by fastforce
  have poller: "Poller_inv s" and hup: "\<forall>b ch. chans s b = Some ch \<longrightarrow> ch_revents ch AND POLLHUP = 0"
    using inv by (simp_all add: echo_inv_def)
  have pk: "poll_ok k" "\<forall>r \<in> set revs. r AND POLLHUP = 0" using k p unfolding steady_def by (simp, metis snd_conv)
  have len: "length revs = length (pollfds s)"
    using pk(1) p unfolding poll_ok_def by (fastforce dest!: spec [of _ "tick s"] spec [of _ "pollfds s"])
  obtain now s' where s': "Poller_Poll k s = Inr (now, s')" "Poller_inv s'"
    "active_channels s' = (if 0 < n then map (\<lambda>i. the (channels s (pfd_fd (pollfds s ! i))))
        (filter (\<lambda>i. revs ! i \<noteq> 0) [0..<length (pollfds s)]) else [])"
    "\<And>i c ch. registered s i c ch \<Longrightarrow> registered s' i c
       (if 0 < n \<and> revs ! i \<noteq> 0 then ch\<lparr>ch_revents := scast (revs ! i)\<rparr> else ch)"
    using Poller_Poll_ok [OF poller pk(1) p] act by (auto simp: okR_def)
  let ?u = "s\<lparr>pollfds := set_revents (pollfds s) revs, tick := tick s + 2\<rparr>"
  note m = Poller_Poll_marked [OF s'(1) p]
  have f: "channels s' = channels s" "pollfds s' = pollfds ?u" "conns s' = conns s" "sent s' = sent s" "accepted s' = accepted s"
      "same_setup s s'" "tick s' = tick s + 2"
    using m by (auto simp: marked_def same_setup_def)
  have "pfd_revents ` set (set_revents (pollfds s) revs) \<subseteq> set revs"
    using len by (auto simp: in_set_conv_nth) blast
  then have "\<forall>b. rel_option (\<lambda>ch ch'. \<exists>r. ch' = ch\<lparr>ch_revents := r\<rparr> \<and> r AND POLLHUP = 0) (chans s b) (chans s' b)"
    using marked_chans [OF m] pk(2) hup by auto
  moreover have "\<exists>r. registered s' i b (ch\<lparr>ch_revents := r\<rparr>)" if "registered s i b ch" for i b ch
    using s'(4) [OF that] by (intro exI [of _ "if 0 < n \<and> revs ! i \<noteq> 0 then scast (revs ! i) else ch_revents ch"]) (auto split: if_splits)
  ultimately have "echo_ok k s s'" using f s'(2) len by (intro echo_inv_revents [OF inv]) simp_all
  moreover have "the (channels s (pfd_fd (pollfds s ! i))) \<in> ran (channels s)" if "i < length (pollfds s)" for i
    using poller that by (fastforce simp: Poller_inv_def registered_def ran_def)
  then have "set (active_channels s') \<subseteq> ran (channels s')" by (auto simp: s'(3) f(1))
  moreover have "length (active_channels s') \<le> length (pollfds s)"
    using length_filter_le [of "\<lambda>i. revs ! i \<noteq> 0" "[0..<length (pollfds s)]"] by (simp add: s'(3))
  ultimately show ?thesis using s'(1) f(7) by simp
qed

lemma echo_dispatch:
  fixes t :: "'a echo_state_scheme"
  assumes inv: "echo_inv k t" and k: "steady k" and bs: "set bs \<subseteq> ran (channels t)"
  shows "failR (strained (tick t + 12 * length bs)) (foldR (Channel_HandleEvent (echo_run k)) bs t) (echo_within k (12 * length bs) t)"
proof (rule foldR_fail [where I = "\<lambda>i. echo_within k (12 * i) t"])
  show "echo_within k (12 * 0) t t" using echo_within_refl [OF inv] by simp
  fix b u i assume b: "b \<in> set bs" and i: "i < length bs" and u: "echo_within k (12 * i) t u"
  obtain fd where "channels t fd = Some b" using b bs by (auto simp: ran_def)
  then have "failR (strained (tick u + 12)) (Channel_HandleEvent (echo_run k) b u) (echo_within k 12 u)"
    using k by (intro echo_HandleEvent echo_within_inv [OF u] echo_within_channels [OF u])
  moreover have "strained (tick u + 12) \<subseteq> strained (tick t + 12 * length bs)"
    using u i by (intro strained_mono) (simp add: echo_within_def)
  ultimately show "failR (strained (tick t + 12 * length bs)) (Channel_HandleEvent (echo_run k) b u) (echo_within k (12 * Suc i) t)"
    by (rule failR_mono) (auto intro: echo_within_trans [OF u])
qed

text \<open>An iteration handles at most as many events as there are descriptors.\<close>

lemma echo_iteration:
  fixes s :: "'a echo_state_scheme"
  assumes inv: "echo_inv k s" and k: "steady k"
  shows "failR (strained (13 * tick s + 38)) (EventLoop_iteration k (echo_run k) s) (echo_ok k s)"
proof -
  let ?s = "s\<lparr>active_channels := []\<rparr>"
  have ok0: "echo_ok k s ?s" by (rule echo_ok_same [OF inv]) (simp_all add: same_setup_def)
  then have inv0: "echo_inv k ?s" by (simp add: echo_ok_def)
  obtain now t where t: "Poller_Poll k ?s = Inr (now, t)" "echo_ok k ?s t" "tick t = tick s + 2" "set (active_channels t) \<subseteq> ran (channels t)"
      "length (active_channels t) \<le> length (pollfds s)"
    using echo_Poll [OF inv0 k] by (auto simp: okR_def)
  have "length (pollfds s) \<le> tick s + 3" using inv by (simp add: echo_inv_def sized_def)
  then have "strained (tick t + 12 * length (active_channels t)) \<subseteq> strained (13 * tick s + 38)"
    using t(3,5) by (intro strained_mono) simp
  moreover have "echo_inv k t" using t(2) by (simp add: echo_ok_def)
  ultimately
  have "failR (strained (13 * tick s + 38)) (foldR (Channel_HandleEvent (echo_run k)) (active_channels t) t) (echo_ok k t)"
    by (intro failR_mono [OF echo_dispatch [OF _ k t(4)]]) (simp_all add: echo_within_def)
  moreover have "doPendingFunctors (echo_run k) u = Inr (u\<lparr>functors := []\<rparr>) \<and> echo_ok k s (u\<lparr>functors := []\<rparr>)" if u: "echo_ok k t u" for u
  proof -
    have "echo_inv k u" "functors u = []" using u by (simp_all add: echo_ok_def echo_inv_def settings_def)
    then have "echo_ok k u (u\<lparr>functors := []\<rparr>)" by (intro echo_ok_same) (simp_all add: same_setup_def)
    then have "echo_ok k s (u\<lparr>functors := []\<rparr>)" using ok0 t(2) u by (auto intro: echo_ok_trans)
    then show ?thesis using \<open>functors u = []\<close> by (simp add: doPendingFunctors_def swap_functors_def)
  qed
  ultimately show ?thesis
    unfolding EventLoop_iteration_def t(1) by (auto simp: failR_bindR elim!: failR_mono)
qed

lemma echo_iteration_ok:
  assumes "echo_inv k s" "steady k" "tick s < 82000000"
  shows "okR (EventLoop_iteration k (echo_run k) s) (echo_inv k)"
  unfolding okR_failR
  by (rule failR_mono [OF echo_iteration [OF assms(1,2)]]) (use assms(3) in \<open>simp_all add: strained_def echo_ok_def\<close>)

lemma echo_iterate:
  fixes s :: "'a echo_state_scheme"
  assumes "steady k"
  shows "echo_inv k s \<Longrightarrow> failR exhausted (iterate k (echo_run k) n s) (echo_ok k s)"
proof (induction n arbitrary: s)
  case (Suc n)
  have "failR exhausted (iterate k (echo_run k) n t) (echo_ok k s)" if t: "echo_ok k s t" for t
  proof -
    have "failR exhausted (iterate k (echo_run k) n t) (echo_ok k t)" using t by (intro Suc.IH) (simp add: echo_ok_def)
    then show ?thesis by (rule failR_mono) (auto intro: echo_ok_trans [OF t])
  qed
  then show ?case
    using failR_mono [OF echo_iteration [OF Suc.prems assms] strained_le] by (simp add: failR_bindR)
qed (simp add: echo_ok_refl)

lemma echo_loop_while:
  fixes s :: "'a echo_state_scheme"
  assumes k: "steady k" and r: "loop_while k (echo_run k) s = Some r" and inv: "echo_inv k s"
  shows "\<exists>e \<in> exhausted. r = Inl e"
proof -
  obtain n where n: "iterate k (echo_run k) n s = r" "safeR r quit_flag" using loop_while_returns [OF r] by blast
  then show ?thesis
    using echo_iterate [OF k inv, of n] by (cases r) (auto simp: echo_ok_def echo_inv_def settings_def)
qed

section \<open>From the start\<close>

text \<open>\<^verbatim>\<open>accept4\<close> gives new descriptors.\<close>

definition accepts_new :: "kernel \<Rightarrow> int set \<Rightarrow> bool" where
  "accepts_new k used \<longleftrightarrow> inj (\<lambda>n. fst (k_accept k n)) \<and> (\<forall>n. 0 \<le> fst (k_accept k n) \<and> fst (k_accept k n) \<notin> used)"

lemma echo_started_echo_inv:
  fixes s :: "'a echo_state_scheme"
  assumes s: "conns s = Map.empty" "chans s = Map.empty" and k: "boots k (tick s)"
    and new: "accepts_new k {k_call k (tick s), k_call k (tick s + 1), k_call k (tick s + 2)}"
  shows "echo_inv k (EventLoop_enter (echo_started k s))"
proof -
  let ?t = "EventLoop_enter (echo_started k s)"
  have "srv_inv ?t" "Poller_inv ?t"
    using echo_started_inv [OF s(1) _ k] s(2) tcp_inv_cong [of ?t "echo_started k s"]
    by (simp_all add: srv_inv_def Poller_inv_def registered_def EventLoop_enter_def)
  moreover have "settings ?t" by (simp add: settings_def echo_started_defs EventLoop_enter_def isInLoopThread_def)
  moreover have "accepts_fresh k ?t"
    using new by (auto simp: accepts_fresh_def accepts_new_def echo_started_defs EventLoop_enter_def intro: inj_on_subset)
  moreover have "watched ?t b ch \<and> ch_revents ch = 0" if "chans ?t b = Some ch" for b ch
    using that s(2) by (auto simp: watched_def echo_started_defs EventLoop_enter_def acceptor_channel_def Channel_new_def split: if_splits)
  moreover have "conns ?t = Map.empty" using s(1) by (simp add: echo_started_defs EventLoop_enter_def)
  moreover from this have "sized ?t" by (simp add: sized_def) (simp add: echo_started_defs EventLoop_enter_def)
  ultimately show ?thesis unfolding echo_inv_def by (auto simp: registered_def)
qed

lemma echo_main_returns:
  assumes "echo_setup k s = Inr s0" and "echo_inv k (EventLoop_enter s0)" "\<not> looping s0" "isInLoopThread s0" and "steady k"
  shows "echo_main k s \<in> {None, Some (Inl Length_error), Some (Inl Signed_overflow)}"
  using assms echo_loop_while [OF assms(5) _ assms(2)]
  by (cases "loop_while k (echo_run k) (EventLoop_enter s0)")
    (auto simp: echo_main_def EventLoop_loop_def assertInLoopThread_def)

text \<open>C1: the whole echo program. Started in an empty process, with a kernel that gives new descriptors and
  peers that stay connected, it starts up listening on port 5000 without connections. However many
  iterations of the loop it then makes, no assertion, memory access or look-up fails: it can only stop by
  exhausting a buffer's \<^verbatim>\<open>max_size()\<close> (\<open>Length_error\<close>) or the \<^verbatim>\<open>int\<close> that counts connections
  (\<open>Signed_overflow\<close>), and an iteration that starts within the first 82 million system calls does
  not fail at all. The invariant holds after each iteration, and what the program did is a sequence of
  steps of the abstract echo program: bytes appear on a connection only by being read from it, in
  order, and none of them is lost later. \<^verbatim>\<open>main\<close> does not return normally.\<close>

theorem echo_program_correct:
  fixes s :: "'a echo_state_scheme"
  assumes "t_loopInThisThread s = None" "conns s = Map.empty" "chans s = Map.empty" and "boots k (tick s)" and "steady k"
    and "accepts_new k {k_call k (tick s), k_call k (tick s + 1), k_call k (tick s + 2)}"
  shows "\<exists>s0. echo_setup k s = Inr s0 \<and> listen_socket s0 \<in> listening s0 \<and>
    map_option InetAddress_Port (bound_to s0 (listen_socket s0)) = Some 5000 \<and> snd (echo_abs s0) = Map.empty \<and>
    (\<forall>n. failR {Length_error, Signed_overflow} (iterate k (run_closure k (echo_cbs k) (\<lambda>_. Inr)) n (EventLoop_enter s0))
       (\<lambda>s'. echo_inv k s' \<and> (echo_spec k)\<^sup>*\<^sup>* (echo_abs s0) (echo_abs s') \<and>
         (tick s' < 82000000 \<longrightarrow> okR (EventLoop_iteration k (run_closure k (echo_cbs k) (\<lambda>_. Inr)) s') (echo_inv k)))) \<and>
    echo_main k s \<in> {None, Some (Inl Length_error), Some (Inl Signed_overflow)}"
proof -
  have port: "InetAddress_Port (InetAddress_new ''127.0.0.1'' 5000) = 5000"
    by (simp add: InetAddress_Port_def InetAddress_new_def ntohs_htons)
  let ?s = "echo_started k s"
  have s0: "echo_setup k s = Inr ?s" "echo_inv k (EventLoop_enter ?s)" "\<not> looping ?s" "isInLoopThread ?s"
      "snd (echo_abs ?s) = Map.empty" "listen_socket ?s \<in> listening ?s"
      "map_option InetAddress_Port (bound_to ?s (listen_socket ?s)) = Some 5000"
    using echo_setup_eq [OF assms(1,4)] echo_started_echo_inv [OF assms(2-4,6)] assms(2) port
    by (simp_all add: echo_started_defs isInLoopThread_def echo_abs_def)
  have abs: "echo_abs (EventLoop_enter ?s) = echo_abs ?s" by (simp add: echo_abs_def EventLoop_enter_def)
  have "failR exhausted (iterate k (echo_run k) n (EventLoop_enter ?s))
       (\<lambda>s'. echo_inv k s' \<and> (echo_spec k)\<^sup>*\<^sup>* (echo_abs ?s) (echo_abs s') \<and>
         (tick s' < 82000000 \<longrightarrow> okR (EventLoop_iteration k (echo_run k) s') (echo_inv k)))" for n
    using echo_iterate [OF assms(5) s0(2), of n]
    by (rule failR_mono) (use echo_iteration_ok [OF _ assms(5)] in \<open>auto simp: echo_ok_def abs\<close>)
  moreover have "echo_main k s \<in> {None, Some (Inl Length_error), Some (Inl Signed_overflow)}"
    by (rule echo_main_returns [OF s0(1-4) assms(5)])
  ultimately show ?thesis using s0(1,5-7) by blast
qed

text \<open>A kernel in which every descriptor is always readable and writable, every read delivers the same two bytes
  (as far as there is room for them), and every write takes one byte.\<close>

definition busy_kernel :: kernel where
  "busy_kernel = null_kernel\<lparr>k_call := \<lambda>t. int t + 3,
     k_poll := \<lambda>_ ps. (int (length (filter (\<lambda>p. 0 \<le> pfd_fd p) ps)), map (\<lambda>p. if 0 \<le> pfd_fd p then 5 else 0) ps),
     k_accept := \<lambda>n. (int n + 100, \<lparr>sin_port = 0, sin_addr = 0\<rparr>),
     k_readv := \<lambda>_ _ lens. if sum_list lens = 0 then Inl 11 else Inr (take (sum_list lens) ''hi''),
     k_write := \<lambda>_ _ bs. (min 1 (int (length bs)), 0)\<rparr>"

lemma busy_kernel_steady: "steady busy_kernel"
proof -
  have "filter ((\<lambda>r. r \<noteq> 0) \<circ> (\<lambda>p. if 0 \<le> pfd_fd p then 5 else (0 :: 16 word))) ps = filter (\<lambda>p. 0 \<le> pfd_fd p) ps" for ps :: "pollfd list"
    by (rule filter_cong) auto
  then have "poll_ok busy_kernel" by (auto simp: poll_ok_def busy_kernel_def)
  moreover have "kernel_readv_ok busy_kernel" by (auto simp: kernel_readv_ok_def busy_kernel_def split: if_splits)
  moreover have "write_accepts busy_kernel" by (auto simp: write_accepts_def busy_kernel_def min_def)
  moreover have "clock_ok busy_kernel"
    by (simp add: clock_ok_def busy_kernel_def Timestamp_now_def null_kernel_def)
  moreover have "k_readv busy_kernel t fd lens \<noteq> Inr []" for t fd lens by (simp add: busy_kernel_def)
  moreover have "r AND POLLHUP = 0" if "r \<in> set (snd (k_poll busy_kernel t ps))" for t ps r
    using that by (auto simp: busy_kernel_def POLLHUP_def split: if_splits)
  ultimately show ?thesis by (simp add: steady_def)
qed

theorem echo_program_correct_witness:
  "\<exists>s0. echo_setup busy_kernel fresh_process = Inr s0 \<and> listen_socket s0 = 5 \<and>
    okR (EventLoop_iteration busy_kernel (run_closure busy_kernel (echo_cbs busy_kernel) (\<lambda>_. Inr)) (EventLoop_enter s0))
      (echo_inv busy_kernel) \<and>
    (\<forall>n. failR {Length_error, Signed_overflow}
       (iterate busy_kernel (run_closure busy_kernel (echo_cbs busy_kernel) (\<lambda>_. Inr)) n (EventLoop_enter s0)) (echo_inv busy_kernel))"
proof -
  have s: "t_loopInThisThread fresh_process = None" "conns fresh_process = Map.empty" "chans fresh_process = Map.empty"
    by (simp_all add: fresh_process_def)
  have b: "boots busy_kernel (tick fresh_process)" by (simp add: boots_def fresh_process_def busy_kernel_def)
  have a: "accepts_new busy_kernel {k_call busy_kernel (tick fresh_process), k_call busy_kernel (tick fresh_process + 1),
      k_call busy_kernel (tick fresh_process + 2)}"
    by (auto simp: accepts_new_def fresh_process_def busy_kernel_def inj_def)
  let ?s = "echo_started busy_kernel fresh_process"
  have eq: "echo_setup busy_kernel fresh_process = Inr ?s" by (rule echo_setup_eq [OF s(1) b])
  have run: "failR {Length_error, Signed_overflow}
       (iterate busy_kernel (run_closure busy_kernel (echo_cbs busy_kernel) (\<lambda>_. Inr)) n (EventLoop_enter ?s))
       (\<lambda>s'. echo_inv busy_kernel s' \<and> (echo_spec busy_kernel)\<^sup>*\<^sup>* (echo_abs ?s) (echo_abs s') \<and> (tick s' < 82000000 \<longrightarrow>
         okR (EventLoop_iteration busy_kernel (run_closure busy_kernel (echo_cbs busy_kernel) (\<lambda>_. Inr)) s') (echo_inv busy_kernel)))" for n
    using echo_program_correct [OF s b busy_kernel_steady a] unfolding eq by auto
  have "tick (EventLoop_enter ?s) = 5" "listen_socket ?s = 5"
    by (simp_all add: EventLoop_enter_def echo_started_defs fresh_process_def busy_kernel_def)
  with run [of 0] have "okR (EventLoop_iteration busy_kernel (run_closure busy_kernel (echo_cbs busy_kernel) (\<lambda>_. Inr)) (EventLoop_enter ?s))
      (echo_inv busy_kernel)" by simp
  moreover have "failR {Length_error, Signed_overflow}
       (iterate busy_kernel (run_closure busy_kernel (echo_cbs busy_kernel) (\<lambda>_. Inr)) n (EventLoop_enter ?s)) (echo_inv busy_kernel)" for n
    by (rule failR_mono [OF run]) auto
  ultimately show ?thesis using eq \<open>listen_socket ?s = 5\<close> by blast
qed

section \<open>The dispatcher\<close>

text \<open>C27: \<^verbatim>\<open>Channel::HandleEvent\<close> calls exactly the callbacks its \<^verbatim>\<open>revents_\<close> ask for (\<open>dispatched\<close>): on a hang-up the close callback
  alone, otherwise first the error callback, then the read callback, then the write callback, each if it is set and one of its
  events occurred. This is so whenever the error and the read callback, in the states in which they are
  called, leave the channel's \<^verbatim>\<open>revents_\<close> and callbacks alone (\<open>intact\<close>, checked along this run), as they do for every channel of
  the running echo program. When one of the two destroys the channel instead, the dispatcher goes on with freed memory.\<close>

theorem HandleEvent_dispatch:
  fixes s t :: "'a echo_state_scheme"
  assumes ch: "chans s b = Some ch"
  shows "(intact run b ch (early ch) s \<longrightarrow> Channel_HandleEvent run b s = foldR run (dispatched ch) s) \<and>
    (echo_inv k s \<and> steady k \<and> channels s fd = Some b \<longrightarrow>
       Channel_HandleEvent (run_closure k (echo_cbs k) (\<lambda>_. Inr)) b s = foldR (run_closure k (echo_cbs k) (\<lambda>_. Inr)) (dispatched ch) s) \<and>
    (early ch = xs @ f # ys \<and> intact run b ch xs s \<and> foldR run (xs @ [f]) s = Inr t \<and> chans t b = None \<longrightarrow>
       Channel_HandleEvent run b s = Inl Use_after_free)"
proof (intro conjI impI)
  assume "intact run b ch (early ch) s"
  then show "Channel_HandleEvent run b s = foldR run (dispatched ch) s" by (rule HandleEvent_intact [OF ch])
next
  assume "echo_inv k s \<and> steady k \<and> channels s fd = Some b"
  then have "intact (echo_run k) b ch (early ch) s" using ch by (blast intro: echo_intact)
  then show "Channel_HandleEvent (echo_run k) b s = foldR (echo_run k) (dispatched ch) s" by (rule HandleEvent_intact [OF ch])
next
  assume "early ch = xs @ f # ys \<and> intact run b ch xs s \<and> foldR run (xs @ [f]) s = Inr t \<and> chans t b = None"
  then show "Channel_HandleEvent run b s = Inl Use_after_free" by (auto intro: HandleEvent_freed [OF ch])
qed

text \<open>The started program, when the listening socket has become readable: the dispatcher accepts. With a read callback that
  destroys the channel, it does not get to the end.\<close>

lemma echo_inv_ready:
  fixes s :: "'a echo_state_scheme"
  assumes inv: "echo_inv k s" and ch: "chans s b = Some ch" and r: "r AND POLLHUP = 0"
  shows "echo_inv k (s\<lparr>chans := (chans s)(b \<mapsto> ch\<lparr>ch_revents := r\<rparr>)\<rparr>)"
proof -
  let ?s = "s\<lparr>chans := (chans s)(b \<mapsto> ch\<lparr>ch_revents := r\<rparr>)\<rparr>"
  have old: "Poller_inv s" "\<And>a dh. chans s a = Some dh \<Longrightarrow> ch_revents dh AND POLLHUP = 0" using inv by (simp_all add: echo_inv_def)
  have reg: "\<exists>r. registered ?s i a (dh\<lparr>ch_revents := r\<rparr>)" if "registered s i a dh" for i a dh
  proof (cases "a = b")
    case True
    then show ?thesis using that ch by (intro exI [of _ r]) (simp add: registered_def)
  next
    case False
    then have "registered ?s i a dh" using that by (simp add: registered_def)
    moreover have "dh = dh\<lparr>ch_revents := ch_revents dh\<rparr>" by simp
    ultimately show ?thesis by metis
  qed
  have "\<exists>c dh. registered ?s i c dh" if i: "i < length (pollfds s)" for i
  proof -
    obtain a dh where "registered s i a dh" using old(1) i unfolding Poller_inv_def by blast
    then show ?thesis using reg by blast
  qed
  then have "Poller_inv ?s" using old(1) unfolding Poller_inv_def loop_state.simps by simp
  moreover have "rel_option (\<lambda>ch ch'. \<exists>r. ch' = ch\<lparr>ch_revents := r\<rparr> \<and> r AND POLLHUP = 0) (chans s a) (chans ?s a)" for a
  proof (cases "chans s a")
    case (Some dh)
    then have "\<exists>r. dh = dh\<lparr>ch_revents := r\<rparr> \<and> r AND POLLHUP = 0" using old(2) by (intro exI [of _ "ch_revents dh"]) simp
    with Some show ?thesis using ch r by (cases "a = b") (simp_all, blast)
  qed (use ch in auto)
  ultimately have "echo_ok k s ?s" using reg by (intro echo_inv_revents [OF inv]) (simp_all add: same_setup_def)
  then show ?thesis by (simp add: echo_ok_def)
qed

theorem HandleEvent_dispatch_witness:
  "\<exists>s b ch. channels s 5 = Some b \<and> chans s b = Some ch \<and> dispatched ch = [Acceptor_handleRead_fn] \<and>
     Channel_HandleEvent (run_closure busy_kernel (echo_cbs busy_kernel) (\<lambda>_. Inr)) b (s :: echo_state) =
       foldR (run_closure busy_kernel (echo_cbs busy_kernel) (\<lambda>_. Inr)) [Acceptor_handleRead_fn] s \<and>
     Channel_HandleEvent (\<lambda>_ s. Inr (s\<lparr>out := out s @ ''x''\<rparr>)) b s = Inr (s\<lparr>out := out s @ ''x''\<rparr>) \<and>
     Channel_HandleEvent (\<lambda>_ s. Inr (s\<lparr>chans := Map.empty\<rparr>)) b s = Inl Use_after_free"
proof -
  let ?k = busy_kernel
  have p: "conns fresh_process = Map.empty" "chans fresh_process = Map.empty" by (simp_all add: fresh_process_def)
  have boot: "boots ?k (tick fresh_process)" by (simp add: boots_def fresh_process_def busy_kernel_def)
  have new: "accepts_new ?k {k_call ?k (tick fresh_process), k_call ?k (tick fresh_process + 1), k_call ?k (tick fresh_process + 2)}"
    by (auto simp: accepts_new_def fresh_process_def busy_kernel_def inj_def)
  define s0 where "s0 = EventLoop_enter (echo_started ?k fresh_process)"
  have inv: "echo_inv ?k s0" unfolding s0_def by (rule echo_started_echo_inv [OF p boot new])
  obtain b ch0 where b: "channels s0 5 = Some b" "chans s0 b = Some ch0" "ch_read_cb ch0 = Some Acceptor_handleRead_fn"
      "ch_write_cb ch0 = None" "ch_error_cb ch0 = None"
    by (simp add: s0_def echo_started_defs EventLoop_enter_def fresh_process_def busy_kernel_def acceptor_channel_def Channel_new_def)
  let ?ch = "ch0\<lparr>ch_revents := POLLIN\<rparr>"
  define s where "s = s0\<lparr>chans := (chans s0)(b \<mapsto> ?ch)\<rparr>"
  have inv': "echo_inv ?k s" unfolding s_def by (rule echo_inv_ready [OF inv b(2)]) (simp add: POLLIN_def POLLHUP_def)
  have s: "channels s 5 = Some b" "chans s b = Some ?ch" using b(1) by (simp_all add: s_def)
  have ev: "\<not> closing ?ch" "early ?ch = [Acceptor_handleRead_fn]" "dispatched ?ch = [Acceptor_handleRead_fn]"
    using b(3-5) by (simp_all add: closing_def early_def final_def dispatched_def opt_list_def POLLIN_def POLLHUP_def POLLERR_def
        POLLNVAL_def POLLPRI_def POLLRDHUP_def POLLOUT_def)
  note D = HandleEvent_dispatch [OF s(2)]
  have "Channel_HandleEvent (echo_run ?k) b s = foldR (echo_run ?k) [Acceptor_handleRead_fn] s"
    using D [THEN conjunct2, THEN conjunct1, rule_format, of ?k 5] inv' busy_kernel_steady s(1) ev(3) by simp
  moreover have "Channel_HandleEvent (\<lambda>_ s. Inr (s\<lparr>out := out s @ ''x''\<rparr>)) b s = Inr (s\<lparr>out := out s @ ''x''\<rparr>)"
    using D [THEN conjunct1, rule_format, of "\<lambda>_ s. Inr (s\<lparr>out := out s @ ''x''\<rparr>)"] ev(2,3) s(2)
    by (simp add: unchanged_def same_channel_def)
  moreover have "Channel_HandleEvent (\<lambda>_ s. Inr (s\<lparr>chans := Map.empty\<rparr>)) b s = Inl Use_after_free"
    by (rule D [THEN conjunct2, THEN conjunct2, rule_format, where xs = "[]" and f = Acceptor_handleRead_fn and ys = "[]"
            and t = "s\<lparr>chans := Map.empty\<rparr>"]) (simp add: ev(2))
  ultimately show ?thesis using s ev(3) by (intro exI [of _ s] exI [of _ b] exI [of _ ?ch] conjI)
qed

end
