(* ===== verification/Log_Stream.thy ===== *)
theory Log_Stream
  imports Buffers Timestamps "HOL-Library.Word"
begin

text \<open>
  \<^verbatim>\<open>Fmt\<close> and \<^verbatim>\<open>LogStream\<close> (log/log_stream.h, log/log_stream.cc). The machine integers are words of their
  width, a \<^verbatim>\<open>double\<close> is a rational number. Each \<^verbatim>\<open>operator<<\<close> is one definition; the ones that format go
  through \<^verbatim>\<open>Fmt\<close>, which fails its assertion when the text does not fit its 32 bytes. What is shown: the
  signed types print as decimal numbers that read back as the value; the formats used for the
  unsigned types print something else.
\<close>

section \<open>\<open>Fmt\<close>\<close>

record Fmt =
  fmt_buf :: "char list"
  fmt_length :: nat

text \<open>The constructor, given the whole text that \<^verbatim>\<open>snprintf\<close> formats.\<close>

definition Fmt_new :: "string \<Rightarrow> Fmt result" where
  "Fmt_new s =
     assertR (length s < 32) (Inr \<lparr>fmt_buf = snprintf 32 s @ [CHR 0x00], fmt_length = length s\<rparr>)"

definition Fmt_slice :: "Fmt \<Rightarrow> Slice" where
  "Fmt_slice f = Slice_ptr (fmt_buf f) (fmt_length f)"

text \<open>\<^verbatim>\<open>%f\<close>: six decimals, rounded to nearest, ties to even.\<close>

definition printf_f :: "rat \<Rightarrow> string" where
  "printf_f x =
     (let n = nat (round_half_even (\<bar>x\<bar> * 1000000))
      in (if x < 0 then ''-'' else []) @ dec (n div 1000000) @ ''.'' @ pad_left CHR ''0'' 6 (dec (n mod 1000000)))"

section \<open>\<open>LogStream\<close>\<close>

type_synonym LogStream = FixedBuffer

definition LogStream_new :: LogStream where
  "LogStream_new = FixedBuffer_new kSmallBufferSize"

definition LogStream_append :: "Slice \<Rightarrow> LogStream \<Rightarrow> LogStream result" where
  "LogStream_append s ls = FixedBuffer_append s ls"

definition LogStream_slice :: "LogStream \<Rightarrow> Slice" where
  "LogStream_slice ls = FixedBuffer_slice ls"

definition put_Fmt :: "Fmt \<Rightarrow> LogStream \<Rightarrow> LogStream result" where
  "put_Fmt f ls = LogStream_append (Fmt_slice f) ls"

text \<open>\<^verbatim>\<open>*this << Fmt(...)\<close>.\<close>

definition put_formatted :: "string \<Rightarrow> LogStream \<Rightarrow> LogStream result" where
  "put_formatted s ls = bindR (Fmt_new s) (\<lambda>f. put_Fmt f ls)"

definition put_bool :: "bool \<Rightarrow> LogStream \<Rightarrow> LogStream result" where
  "put_bool v ls = LogStream_append (Slice_string (if v then ''1'' else ''0'')) ls"

definition put_char :: "char \<Rightarrow> LogStream \<Rightarrow> LogStream result" where
  "put_char v = put_formatted [v]"

text \<open>The format is \<^verbatim>\<open>%uc\<close>: the number, then the letter c.\<close>

definition put_uchar :: "8 word \<Rightarrow> LogStream \<Rightarrow> LogStream result" where
  "put_uchar v = put_formatted (printf_u (unat v) @ ''c'')"

definition put_short :: "16 word \<Rightarrow> LogStream \<Rightarrow> LogStream result" where
  "put_short v = put_formatted (printf_d (sint v))"

definition put_ushort :: "16 word \<Rightarrow> LogStream \<Rightarrow> LogStream result" where
  "put_ushort v = put_formatted (printf_d (uint v))"

definition put_int :: "32 word \<Rightarrow> LogStream \<Rightarrow> LogStream result" where
  "put_int v = put_formatted (printf_d (sint v))"

text \<open>\<^verbatim>\<open>%d\<close> reads the bits as a signed number.\<close>

definition put_uint :: "32 word \<Rightarrow> LogStream \<Rightarrow> LogStream result" where
  "put_uint v = put_formatted (printf_d (sint v))"

definition put_long :: "64 word \<Rightarrow> LogStream \<Rightarrow> LogStream result" where
  "put_long v = put_formatted (printf_d (sint v))"

text \<open>\<^verbatim>\<open>%uld\<close> and \<^verbatim>\<open>%ulld\<close>: the low half of the number, then letters.\<close>

definition put_ulong :: "64 word \<Rightarrow> LogStream \<Rightarrow> LogStream result" where
  "put_ulong v = put_formatted (printf_u (unat v) @ ''ld'')"

definition put_longlong :: "64 word \<Rightarrow> LogStream \<Rightarrow> LogStream result" where
  "put_longlong v = put_formatted (printf_d (sint v))"

definition put_ulonglong :: "64 word \<Rightarrow> LogStream \<Rightarrow> LogStream result" where
  "put_ulonglong v = put_formatted (printf_u (unat v) @ ''lld'')"

definition put_float :: "rat \<Rightarrow> LogStream \<Rightarrow> LogStream result" where
  "put_float v = put_formatted (printf_f v)"

definition put_double :: "rat \<Rightarrow> LogStream \<Rightarrow> LogStream result" where
  "put_double v = put_formatted (printf_f v)"

definition put_cstr :: "char list \<Rightarrow> LogStream \<Rightarrow> LogStream result" where
  "put_cstr s ls = bindR (Slice_cstr s) (\<lambda>slice. LogStream_append slice ls)"

definition put_string :: "string \<Rightarrow> LogStream \<Rightarrow> LogStream result" where
  "put_string s ls = LogStream_append (Slice_string s) ls"

definition put_Slice :: "Slice \<Rightarrow> LogStream \<Rightarrow> LogStream result" where
  "put_Slice s ls = LogStream_append s ls"

section \<open>What is appended\<close>

text \<open>A stream of full size that has room for \<open>n\<close> more bytes.\<close>

definition LogStream_inv :: "LogStream \<Rightarrow> bool" where
  "LogStream_inv ls \<longleftrightarrow> FixedBuffer_inv ls \<and> length (fb_data ls) = kSmallBufferSize"

text \<open>The effect of appending the text \<open>s\<close>: it is there, or the assertion of \<^verbatim>\<open>FixedBuffer::append\<close> failed.\<close>

definition appends :: "string \<Rightarrow> LogStream \<Rightarrow> LogStream result \<Rightarrow> bool" where
  "appends s ls r \<longleftrightarrow>
     (if fb_cur ls + length s \<le> kSmallBufferSize
      then okR r (\<lambda>ls'. LogStream_inv ls' \<and> FixedBuffer_content ls' = FixedBuffer_content ls @ s \<and>
             fb_cur ls' = fb_cur ls + length s \<and> drop (fb_cur ls') (fb_data ls') = drop (fb_cur ls') (fb_data ls))
      else r = Inl Assertion_failed)"

lemma LogStream_append_spec:
  assumes ls: "LogStream_inv ls" and s: "slice_size s \<le> length (slice_data s)"
  shows "appends (Slice_str s) ls (LogStream_append s ls)"
proof -
  have len: "length (Slice_str s) = slice_size s" using s by (simp add: Slice_str_def)
  have inv: "fb_cur ls \<le> kSmallBufferSize" "length (fb_data ls) = kSmallBufferSize" "kSmallBufferSize \<le> max_size"
    using ls by (auto simp: LogStream_inv_def FixedBuffer_inv_def)
  have space: "FixedBuffer_space ls = kSmallBufferSize - fb_cur ls"
    using inv by (simp add: FixedBuffer_space_def)
  show ?thesis
  proof (cases "fb_cur ls + slice_size s \<le> kSmallBufferSize")
    case True
    let ?d = "std_copy (Slice_str s) (fb_data ls) (fb_cur ls)"
    have d: "?d = take (fb_cur ls) (fb_data ls) @ Slice_str s @ drop (fb_cur ls + slice_size s) (fb_data ls)"
      using True inv len by (simp add: std_copy_eq)
    have "LogStream_append s ls = Inr (ls\<lparr>fb_data := ?d, fb_cur := fb_cur ls + slice_size s\<rparr>)"
      using True s inv space by (simp add: LogStream_append_def FixedBuffer_append_def Slice_str_def assertR_def boundsR_def)
    then show ?thesis
      using True inv len by (simp add: appends_def LogStream_inv_def FixedBuffer_inv_def FixedBuffer_content_def d)
  next
    case False
    then have "\<not> slice_size s \<le> FixedBuffer_space ls" using inv space by linarith
    then show ?thesis using False len by (simp add: appends_def LogStream_append_def FixedBuffer_append_def assertR_def)
  qed
qed

lemma put_formatted_spec:
  assumes "LogStream_inv ls" "length s < 32"
  shows "appends s ls (put_formatted s ls)"
proof -
  have "snprintf 32 s = s" using assms(2) by (simp add: snprintf_fits)
  then show ?thesis
    using LogStream_append_spec [OF assms(1), of "Slice_ptr (s @ [CHR 0x00]) (length s)"] assms(2)
    by (simp add: put_formatted_def Fmt_new_def put_Fmt_def Fmt_slice_def Slice_ptr_def Slice_str_def assertR_def)
qed

lemma put_string_spec: "LogStream_inv ls \<Longrightarrow> appends s ls (put_string s ls)"
  using LogStream_append_spec [of ls "Slice_string s"] by (simp add: put_string_def Slice_string_def Slice_str_def)

lemma put_cstr_spec: "LogStream_inv ls \<Longrightarrow> CHR 0x00 \<notin> set s \<Longrightarrow> appends s ls (put_cstr (s @ CHR 0x00 # t) ls)"
  using LogStream_append_spec [of ls "\<lparr>slice_data = s @ CHR 0x00 # t, slice_size = length s\<rparr>"]
  by (simp add: put_cstr_def Slice_cstr_def strlen_ok Slice_str_def)

lemma LogStream_new_inv: "LogStream_inv LogStream_new" "FixedBuffer_content LogStream_new = []" "fb_cur LogStream_new = 0"
  by (simp_all add: LogStream_inv_def LogStream_new_def kSmallBufferSize_def max_size_def)
    (simp_all add: FixedBuffer_new_def)

section \<open>Properties\<close>

lemma sint_bound:
  "\<bar>sint (v :: 16 word)\<bar> < 10 ^ 5" "\<bar>sint (w :: 32 word)\<bar> < 10 ^ 10" "\<bar>sint (x :: 64 word)\<bar> < 10 ^ 19"
  using sint_range_size [of v] sint_range_size [of w] sint_range_size [of x] by (auto simp: word_size)

lemma uint_bound: "\<bar>uint (v :: 16 word)\<bar> < 10 ^ 5"
  using uint_bounded [of v] uint_ge_0 [of v] by simp

text \<open>C19: logging a value of type \<^verbatim>\<open>short\<close>, \<^verbatim>\<open>unsigned short\<close>, \<^verbatim>\<open>int\<close>, \<^verbatim>\<open>long\<close> or \<^verbatim>\<open>long long\<close> appends its decimal text, which
  reads back as the value: it never overflows the 32 bytes of \<^verbatim>\<open>Fmt\<close>, and fails only when the 4096 bytes of
  the stream are full.\<close>

theorem LogStream_numbers_correct:
  assumes "LogStream_inv ls"
  shows "appends (printf_d (sint s)) ls (put_short s ls) \<and> appends (printf_d (uint u)) ls (put_ushort u ls) \<and>
    appends (printf_d (sint i)) ls (put_int i ls) \<and> appends (printf_d (sint l)) ls (put_long l ls) \<and>
    appends (printf_d (sint l)) ls (put_longlong l ls) \<and>
    strtol (printf_d (sint s)) = sint s \<and> strtol (printf_d (uint u)) = uint u \<and> strtol (printf_d (sint i)) = sint i \<and>
    strtol (printf_d (sint l)) = sint l"
proof -
  have "length (printf_d (sint s)) < 32" "length (printf_d (uint u)) < 32" "length (printf_d (sint i)) < 32"
      "length (printf_d (sint l)) < 32"
    using length_printf_d [OF _ sint_bound(1), of s] length_printf_d [OF _ uint_bound, of u]
      length_printf_d [OF _ sint_bound(2), of i] length_printf_d [OF _ sint_bound(3), of l] by simp_all
  with put_formatted_spec [OF assms] show ?thesis
    by (simp add: put_short_def put_ushort_def put_int_def put_long_def put_longlong_def)
qed

theorem LogStream_numbers_correct_witness:
  "appends (printf_d (- 5)) LogStream_new (put_int (- 5) LogStream_new)"
  using LogStream_numbers_correct [OF LogStream_new_inv(1), of 0 0 "- 5" 0] by simp

lemma printf_u_length: "length (printf_u n) \<le> 10"
proof -
  have "n mod 2 ^ 32 < 10 ^ 10" using mod_less_divisor [of "2 ^ 32" n] by simp
  then show ?thesis using dec_length_le [of "n mod 2 ^ 32" 10] by (simp add: printf_u_def)
qed

text \<open>The formats of the unsigned types are wrong: an \<^verbatim>\<open>unsigned long\<close> is logged as its low 32 bits
  followed by the letters \<^verbatim>\<open>ld\<close>, an \<^verbatim>\<open>unsigned long long\<close> with \<^verbatim>\<open>lld\<close>, an \<^verbatim>\<open>unsigned char\<close> as its number followed by
  \<^verbatim>\<open>c\<close>, and an \<^verbatim>\<open>unsigned int\<close> of at least \<open>2 ^ 31\<close> as a negative number.\<close>

lemma LogStream_unsigned_wrong:
  assumes "LogStream_inv ls"
  shows "appends (dec (unat l mod 2 ^ 32) @ ''ld'') ls (put_ulong l ls) \<and>
    appends (dec (unat l mod 2 ^ 32) @ ''lld'') ls (put_ulonglong l ls) \<and>
    appends (dec (unat c) @ ''c'') ls (put_uchar c ls) \<and>
    (2 ^ 31 \<le> uint i \<longrightarrow> appends (CHR ''-'' # dec (nat (2 ^ 32 - uint i))) ls (put_uint i ls))"
proof -
  have "unat c mod 2 ^ 32 = unat c" using unsigned_less [of c, where 'a = nat] by simp
  then have c: "dec (unat c) = printf_u (unat c)" by (simp add: printf_u_def)
  have "sint i = uint i - 2 ^ 32" if "2 ^ 31 \<le> uint i"
  proof -
    have "(uint i + 2 ^ 31) mod 2 ^ 32 = uint i + 2 ^ 31 - 2 ^ 32"
      using that uint_bounded [of i] by (subst mod_pos_geq) (simp_all add: mod_pos_pos_trivial)
    then show ?thesis by (simp add: sint_uint signed_take_bit_eq_take_bit_shift take_bit_eq_mod)
  qed
  then have i: "printf_d (sint i) = CHR ''-'' # dec (nat (2 ^ 32 - uint i))" if "2 ^ 31 \<le> uint i"
    using that uint_bounded [of i] by (simp add: printf_d_def)
  have u: "appends (printf_d (sint i)) ls (put_uint i ls)"
    using put_formatted_spec [OF assms] length_printf_d [OF _ sint_bound(2), of i] by (simp add: put_uint_def)
  have "2 ^ 31 \<le> uint i \<longrightarrow> appends (CHR ''-'' # dec (nat (2 ^ 32 - uint i))) ls (put_uint i ls)"
    using u by (intro impI) (simp only: i)
  moreover have "appends (dec (unat l mod 2 ^ 32) @ ''ld'') ls (put_ulong l ls)"
      "appends (dec (unat l mod 2 ^ 32) @ ''lld'') ls (put_ulonglong l ls)" "appends (dec (unat c) @ ''c'') ls (put_uchar c ls)"
    using put_formatted_spec [OF assms] printf_u_length [of "unat l"] printf_u_length [of "unat c"]
    by (simp_all add: put_ulong_def put_ulonglong_def put_uchar_def c) (simp_all add: printf_u_def)
  ultimately show ?thesis by blast
qed

text \<open>Logging a \<^verbatim>\<open>double\<close> of \<open>10 ^ 24\<close> or more ends the program: its text does not fit the 32 bytes of \<^verbatim>\<open>Fmt\<close>.\<close>

lemma LogStream_double_overflow:
  assumes "10 ^ 24 \<le> v"
  shows "put_double v ls = Inl Assertion_failed"
proof -
  define n where "n = nat (round_half_even (\<bar>v\<bar> * 1000000))"
  have "of_int (10 ^ 30) \<le> \<bar>v\<bar> * 1000000" using assms by simp
  then have "10 ^ 30 \<le> round_half_even (\<bar>v\<bar> * 1000000)" by (rule round_half_even_ge)
  then have "10 ^ 24 \<le> n div 1000000" by (simp add: n_def le_nat_iff less_eq_div_iff_mult_less_eq)
  then have "24 < length (dec (n div 1000000))" using dec_length [of 24 "n div 1000000"] by simp
  then have "32 \<le> length (printf_f v)" by (simp add: printf_f_def n_def [symmetric] Let_def)
  then show ?thesis by (simp add: put_double_def put_formatted_def Fmt_new_def assertR_def)
qed

end
