(* ===== verification/Process_Info.thy ===== *)
theory Process_Info
  imports Formatting Slices "HOL-Library.Word"
begin

text \<open>
  util/process_info.cc: the thread id with its thread-local cache, the process id and the host name. The
  system calls are the parameter \<open>process_os\<close>: what \<^verbatim>\<open>gettid\<close> returns in this thread, what \<^verbatim>\<open>getpid\<close> returns,
  and what \<^verbatim>\<open>gethostname\<close> leaves in its 256 bytes, \<open>None\<close> when it fails.
\<close>

record process_os =
  sys_gettid :: "64 word"
  sys_getpid :: "32 word"
  sys_gethostname :: "char list option"

text \<open>\<^verbatim>\<open>this_thread::tid\<close>: the result and the new value of \<^verbatim>\<open>current_tid_\<close>.\<close>

definition this_thread_tid :: "process_os \<Rightarrow> 32 word \<Rightarrow> 32 word \<times> 32 word" where
  "this_thread_tid os current_tid =
     (let current_tid' = (if current_tid = 0 then ucast (sys_gettid os) else current_tid)
      in (current_tid', current_tid'))"

definition process_pid :: "process_os \<Rightarrow> 32 word" where
  "process_pid os = sys_getpid os"

text \<open>The string constructor reads the buffer up to its terminator.\<close>

definition string_of_cstr :: "char list \<Rightarrow> string result" where
  "string_of_cstr buf = bindR (strlen buf) (\<lambda>n. Inr (take n buf))"

definition process_pidString :: "process_os \<Rightarrow> string result" where
  "process_pidString os = string_of_cstr (snprintf 32 (printf_d (sint (process_pid os))) @ [CHR 0x00])"

definition process_hostname :: "process_os \<Rightarrow> string result" where
  "process_hostname os =
     (case sys_gethostname os of
        Some buffer \<Rightarrow> string_of_cstr (buffer[255 := CHR 0x00])
      | None \<Rightarrow> Inr ''unknown'')"

section \<open>What they return\<close>

text \<open>The cache: every call of a thread returns the id the kernel gave the thread.\<close>

lemma tid_cached:
  assumes "current_tid \<in> {0, ucast (sys_gettid os)}"
  shows "fst (this_thread_tid os current_tid) = ucast (sys_gettid os) \<and> snd (this_thread_tid os current_tid) \<in> {0, ucast (sys_gettid os)}"
  using assms by (auto simp: this_thread_tid_def Let_def)

lemma string_of_cstr_ok: "CHR 0x00 \<notin> set s \<Longrightarrow> string_of_cstr (s @ CHR 0x00 # t) = Inr s"
  by (simp add: string_of_cstr_def strlen_ok)

lemma printf_d_no_nul: "CHR 0x00 \<notin> set (printf_d i)"
proof -
  have "CHR 0x00 \<notin> set (dec n)" for n using dec_digits [of "CHR 0x00" n] by (auto simp: is_digit_def)
  then show ?thesis by (simp add: printf_d_def)
qed

lemma process_pidString_eq: "process_pidString os = Inr (printf_d (sint (process_pid os)))"
proof -
  have "\<bar>sint (process_pid os)\<bar> < 10 ^ 10" using sint_range_size [of "process_pid os"] by (auto simp: word_size)
  then have "length (printf_d (sint (process_pid os))) < 32" using length_printf_d [of 10 "sint (process_pid os)"] by simp
  then show ?thesis by (simp add: process_pidString_def snprintf_fits string_of_cstr_ok printf_d_no_nul)
qed

lemma strlen_bound: "CHR 0x00 \<in> set buf \<Longrightarrow> okR (strlen buf) (\<lambda>n. n < length buf \<and> CHR 0x00 \<notin> set (take n buf))"
proof (induction buf)
  case (Cons c buf)
  then show ?case by (cases "c = CHR 0x00") (auto simp: wp_simps intro: okR_mono)
qed simp

lemma process_hostname_ok:
  assumes "\<And>buffer. sys_gethostname os = Some buffer \<Longrightarrow> length buffer = 256"
  shows "okR (process_hostname os) (\<lambda>h. length h \<le> 255 \<and> CHR 0x00 \<notin> set h)"
proof (cases "sys_gethostname os")
  case (Some buffer)
  have len: "length buffer = 256" using assms Some by simp
  then have "CHR 0x00 \<in> set (buffer[255 := CHR 0x00])" by (simp add: set_update_memI)
  from strlen_bound [OF this] len show ?thesis
    by (auto simp: process_hostname_def Some string_of_cstr_def wp_simps intro: okR_mono)
qed (simp add: process_hostname_def)

end
