(* ===== verification/Loggers.thy ===== *)
theory Loggers
  imports Log_Stream Process_Info
begin

text \<open>
  \<^verbatim>\<open>Logger\<close> and the \<^verbatim>\<open>LOG_XXX\<close> macros (log/logger.h, log/logger.cc): the levels and their order, the two ways
  to make a \<^verbatim>\<open>SourceFile\<close>, the prefix the constructor writes, the suffix the destructor writes, and the
  destination it hands the message to. The clock and the thread id are arguments. What is shown:
  the text of a message, when it is produced, and when the default destination prints it.
\<close>

section \<open>Levels\<close>

datatype LogLevel = TRACE | DEBUG | INFO | WARN | ERROR | FATAL | NUM_LOG_LEVELS

primrec level_num :: "LogLevel \<Rightarrow> nat" where
  "level_num TRACE = 0"
| "level_num DEBUG = 1"
| "level_num INFO = 2"
| "level_num WARN = 3"
| "level_num ERROR = 4"
| "level_num FATAL = 5"
| "level_num NUM_LOG_LEVELS = 6"

lemma level_num_inject: "level_num a = level_num b \<Longrightarrow> a = b"
  by (cases a; cases b) simp_all

instantiation LogLevel :: linorder
begin

definition less_eq_LogLevel :: "LogLevel \<Rightarrow> LogLevel \<Rightarrow> bool" where
  "less_eq_LogLevel a b \<longleftrightarrow> level_num a \<le> level_num b"

definition less_LogLevel :: "LogLevel \<Rightarrow> LogLevel \<Rightarrow> bool" where
  "less_LogLevel a b \<longleftrightarrow> level_num a < level_num b"

instance
  by standard (auto simp: less_eq_LogLevel_def less_LogLevel_def intro: level_num_inject)

end

text \<open>The memory of a string literal.\<close>

definition literal :: "string \<Rightarrow> char list" where
  "literal s = s @ [CHR 0x00]"

definition LogLevelName :: "char list list" where
  "LogLevelName = map literal [''TRACE '', ''DEBUG '', ''INFO  '', ''WARN  '', ''ERROR '', ''FATAL '']"

section \<open>\<open>SourceFile\<close>\<close>

text \<open>\<^verbatim>\<open>strrchr\<close> of a character other than the terminator: the memory from its last occurrence on.\<close>

fun strrchr :: "char \<Rightarrow> char list \<Rightarrow> char list option" where
  "strrchr c [] = None"
| "strrchr c (x # xs) =
     (if x = CHR 0x00 then None
      else case strrchr c xs of Some r \<Rightarrow> Some r | None \<Rightarrow> if x = c then Some (x # xs) else None)"

record SourceFile =
  sf_data :: "char list"
  sf_size :: nat

text \<open>From a character array of known length, its terminator included.\<close>

definition SourceFile_array :: "char list \<Rightarrow> SourceFile" where
  "SourceFile_array arr =
     (let size = sz_sub (length arr) 1
      in case strrchr CHR ''/'' arr of
           Some slash \<Rightarrow> let data = tl slash in \<lparr>sf_data = data, sf_size = sz_sub size (length arr - length data)\<rparr>
         | None \<Rightarrow> \<lparr>sf_data = arr, sf_size = size\<rparr>)"

text \<open>From a C string. The length goes through an \<^verbatim>\<open>int\<close>.\<close>

definition size_t_of_int :: "int \<Rightarrow> nat" where
  "size_t_of_int i = nat (i mod int size_t_mod)"

definition SourceFile_cstr :: "char list \<Rightarrow> SourceFile result" where
  "SourceFile_cstr filename =
     (let data = (case strrchr CHR ''/'' filename of Some slash \<Rightarrow> tl slash | None \<Rightarrow> filename)
      in bindR (strlen data) (\<lambda>n. Inr \<lparr>sf_data = data, sf_size = size_t_of_int (sint (word_of_nat n :: 32 word))\<rparr>))"

section \<open>\<open>Logger\<close>\<close>

record Logger =
  lg_stream :: LogStream
  lg_file :: SourceFile
  lg_line :: "32 word"
  lg_time :: Timestamp
  lg_level :: LogLevel

definition Logger_new :: "Timestamp \<Rightarrow> 32 word \<Rightarrow> SourceFile \<Rightarrow> 32 word \<Rightarrow> LogLevel \<Rightarrow> Logger result" where
  "Logger_new now tid file line level =
     bindR (put_string (Timestamp_toFormatedString True now) LogStream_new) (\<lambda>stream.
     bindR (put_cstr (literal ''Z '') stream) (\<lambda>stream.
     bindR (put_int tid stream) (\<lambda>stream.
     bindR (put_cstr (literal '' '') stream) (\<lambda>stream.
     boundsR (level_num level < length LogLevelName)
       (bindR (put_cstr (LogLevelName ! level_num level) stream) (\<lambda>stream.
        Inr \<lparr>lg_stream = stream, lg_file = file, lg_line = line, lg_time = now, lg_level = level\<rparr>))))))"

text \<open>The destructor hands the message to the destination \<open>func\<close>, which acts on the state \<open>out\<close>.\<close>

definition Logger_delete :: "(Slice \<Rightarrow> 'o \<Rightarrow> 'o result) \<Rightarrow> Logger \<Rightarrow> 'o \<Rightarrow> 'o result" where
  "Logger_delete func lg out =
     bindR (put_cstr (literal '' - '') (lg_stream lg)) (\<lambda>stream.
     bindR (put_Slice (Slice_ptr (sf_data (lg_file lg)) (sf_size (lg_file lg))) stream) (\<lambda>stream.
     bindR (put_cstr (literal '' '') stream) (\<lambda>stream.
     bindR (put_int (lg_line lg) stream) (\<lambda>stream.
     bindR (put_cstr (literal [CHR 0x0A]) stream) (\<lambda>stream.
     func (LogStream_slice stream) out)))))"

text \<open>\<^verbatim>\<open>fputs(s.data(), stdout)\<close>: the size of the slice is not used.\<close>

definition DefaultDestination :: "Slice \<Rightarrow> string \<Rightarrow> string result" where
  "DefaultDestination s out = bindR (string_of_cstr (slice_data s)) (\<lambda>text. Inr (out @ text))"

section \<open>The global state and the macros\<close>

record 'o log_globals =
  gLogLevel :: LogLevel
  log_func :: "Slice \<Rightarrow> 'o \<Rightarrow> 'o result"

definition initial_globals :: "string log_globals" where
  "initial_globals = \<lparr>gLogLevel = INFO, log_func = DefaultDestination\<rparr>"

definition setLogLevel :: "LogLevel \<Rightarrow> 'o log_globals \<Rightarrow> 'o log_globals" where
  "setLogLevel level g = g\<lparr>gLogLevel := level\<rparr>"

definition Logger_destination :: "(Slice \<Rightarrow> 'o \<Rightarrow> 'o result) \<Rightarrow> 'o log_globals \<Rightarrow> 'o log_globals" where
  "Logger_destination d g = g\<lparr>log_func := d\<rparr>"

text \<open>The conditions of the macros: only the three lowest levels look at \<^verbatim>\<open>gLogLevel\<close>.\<close>

fun log_enabled :: "LogLevel \<Rightarrow> LogLevel \<Rightarrow> bool" where
  "log_enabled g TRACE \<longleftrightarrow> g \<le> TRACE"
| "log_enabled g DEBUG \<longleftrightarrow> g \<le> DEBUG"
| "log_enabled g INFO \<longleftrightarrow> g \<le> INFO"
| "log_enabled g level \<longleftrightarrow> True"

text \<open>The statement \<^verbatim>\<open>LOG_XXX << ...;\<close> in a file whose \<^verbatim>\<open>__FILE__\<close> is \<open>file\<close>: construct a logger, run the insertions
  on its stream, destroy it.\<close>

definition LOG :: "'o log_globals \<Rightarrow> LogLevel \<Rightarrow> string \<Rightarrow> 32 word \<Rightarrow> Timestamp \<Rightarrow> 32 word \<Rightarrow>
    (LogStream \<Rightarrow> LogStream result) \<Rightarrow> 'o \<Rightarrow> 'o result" where
  "LOG g level file line now tid insertions out =
     (if log_enabled (gLogLevel g) level
      then bindR (Logger_new now tid (SourceFile_array (literal file)) line level) (\<lambda>lg.
           bindR (insertions (lg_stream lg)) (\<lambda>stream.
           Logger_delete (log_func g) (lg\<lparr>lg_stream := stream\<rparr>) out))
      else Inr out)"

section \<open>Source files\<close>

definition file_basename :: "string \<Rightarrow> string" where
  "file_basename path = rev (takeWhile (\<lambda>c. c \<noteq> CHR ''/'') (rev path))"

lemma strrchr_slash:
  assumes "CHR 0x00 \<notin> set s"
  shows "strrchr CHR ''/'' (literal s) =
    (if CHR ''/'' \<in> set s then Some (CHR ''/'' # literal (file_basename s)) else None)"
  using assms
proof (induction s)
  case (Cons x s)
  have "file_basename (x # s) = (if CHR ''/'' \<in> set s then file_basename s else if x = CHR ''/'' then s else x # s)"
    by (auto simp: file_basename_def takeWhile_append takeWhile_eq_all_conv)
  with Cons show ?case by (auto simp: literal_def)
qed (simp add: literal_def)

lemma basename_no_slash: "CHR ''/'' \<notin> set s \<Longrightarrow> file_basename s = s"
proof -
  assume "CHR ''/'' \<notin> set s"
  then have "takeWhile (\<lambda>c. c \<noteq> CHR ''/'') (rev s) = rev s"
    by (subst takeWhile_eq_all_conv) auto
  then show ?thesis unfolding file_basename_def by (simp only: rev_rev_ident)
qed

lemma length_basename: "length (file_basename s) \<le> length s"
  using length_takeWhile_le [of _ "rev s"] by (simp add: file_basename_def)

lemma set_basename: "set (file_basename s) \<subseteq> set s"
  by (auto simp: file_basename_def dest: set_takeWhileD)

lemma SourceFile_array_eq:
  assumes "CHR 0x00 \<notin> set s" "length s < max_size"
  shows "SourceFile_array (literal s) = \<lparr>sf_data = literal (file_basename s), sf_size = length (file_basename s)\<rparr>"
proof -
  have l: "length (literal s) = Suc (length s)" for s by (simp add: literal_def)
  have "sz_sub (Suc (length s)) 1 = length s" using assms by (simp add: max_size_def size_t_mod_def)
  moreover have "sz_sub (length s) (length s - length (file_basename s)) = length (file_basename s)"
    using assms length_basename [of s] by (simp add: max_size_def size_t_mod_def)
  ultimately show ?thesis
    using assms by (simp add: SourceFile_array_def strrchr_slash Let_def l basename_no_slash)
qed

text \<open>C18: the two constructors of \<^verbatim>\<open>SourceFile\<close>, the one for arrays that computes the size at compile time and the
  one for C strings that calls \<^verbatim>\<open>strlen\<close>, give the same result, the part of the path after the last slash.\<close>

theorem SourceFile_constructors_agree:
  assumes "CHR 0x00 \<notin> set path" "length path < 2 ^ 31"
  shows "SourceFile_cstr (literal path) = Inr (SourceFile_array (literal path)) \<and>
    Slice_str (Slice_ptr (sf_data (SourceFile_array (literal path))) (sf_size (SourceFile_array (literal path)))) = file_basename path"
proof -
  have m: "length path < max_size" using assms by (simp add: max_size_def)
  define n where "n = length (file_basename path)"
  have n: "n < 2 ^ 31" using length_basename [of path] assms by (simp add: n_def)
  have "sint (word_of_nat n :: 32 word) = int n" using n
    by (simp add: sint_uint uint_word_of_int unsigned_of_nat signed_take_bit_int_eq_self take_bit_nat_eq_self flip: of_nat_take_bit)
  then have sz: "size_t_of_int (sint (word_of_nat n :: 32 word)) = n"
    using n by (simp add: size_t_of_int_def size_t_mod_def)
  have "CHR 0x00 \<notin> set (file_basename path)" using set_basename assms by blast
  then have "strlen (literal (file_basename path)) = Inr n" by (simp add: literal_def strlen_ok n_def)
  then have "SourceFile_cstr (literal path) = Inr \<lparr>sf_data = literal (file_basename path), sf_size = n\<rparr>"
    using assms sz by (auto simp: SourceFile_cstr_def strrchr_slash Let_def basename_no_slash)
  moreover have "SourceFile_array (literal path) = \<lparr>sf_data = literal (file_basename path), sf_size = n\<rparr>"
    using SourceFile_array_eq [OF assms(1) m] by (simp add: n_def)
  ultimately show ?thesis by (simp add: Slice_ptr_def Slice_str_def literal_def n_def)
qed

theorem SourceFile_constructors_agree_witness:
  "SourceFile_cstr (literal ''log/logger.cc'') = Inr (SourceFile_array (literal ''log/logger.cc''))"
  using SourceFile_constructors_agree [of "''log/logger.cc''"] by simp

section \<open>Messages\<close>

lemma appends_bind:
  assumes s: "appends s ls r" and t: "\<And>ls'. LogStream_inv ls' \<Longrightarrow> appends t ls' (k ls')"
  shows "appends (s @ t) ls (bindR r k)"
proof (cases "fb_cur ls + length s \<le> kSmallBufferSize")
  case True
  then obtain a where a: "r = Inr a" "LogStream_inv a" "FixedBuffer_content a = FixedBuffer_content ls @ s"
      "fb_cur a = fb_cur ls + length s" "drop (fb_cur a) (fb_data a) = drop (fb_cur a) (fb_data ls)"
    using s by (auto simp: appends_def okR_def)
  have d: "drop (fb_cur a + n) (fb_data a) = drop (fb_cur a + n) (fb_data ls)" for n
    using arg_cong [OF a(5), of "drop n"] by (simp add: add.commute)
  have "okR (k a) (\<lambda>b. LogStream_inv b \<and> FixedBuffer_content b = FixedBuffer_content ls @ s @ t \<and>
      fb_cur b = fb_cur ls + length (s @ t) \<and> drop (fb_cur b) (fb_data b) = drop (fb_cur b) (fb_data ls))"
    if "fb_cur ls + length (s @ t) \<le> kSmallBufferSize"
  proof -
    have "okR (k a) (\<lambda>b. LogStream_inv b \<and> FixedBuffer_content b = FixedBuffer_content ls @ s @ t \<and>
        fb_cur b = fb_cur a + length t \<and> drop (fb_cur b) (fb_data b) = drop (fb_cur b) (fb_data a))"
      using t [OF a(2)] that a by (simp add: appends_def)
    then show ?thesis by (rule okR_mono) (use d a(4) in auto)
  qed
  then show ?thesis using t [OF a(2)] a by (auto simp: appends_def)
next
  case False
  then show ?thesis using s by (simp add: appends_def)
qed

primrec level_text :: "LogLevel \<Rightarrow> string" where
  "level_text TRACE = ''TRACE ''"
| "level_text DEBUG = ''DEBUG ''"
| "level_text INFO = ''INFO  ''"
| "level_text WARN = ''WARN  ''"
| "level_text ERROR = ''ERROR ''"
| "level_text FATAL = ''FATAL ''"
| "level_text NUM_LOG_LEVELS = []"

definition log_text :: "Timestamp \<Rightarrow> 32 word \<Rightarrow> LogLevel \<Rightarrow> string \<Rightarrow> string \<Rightarrow> 32 word \<Rightarrow> string" where
  "log_text now tid level msg file line =
     Timestamp_toFormatedString True now @ ''Z '' @ printf_d (sint tid) @ '' '' @ level_text level @ msg @
     '' - '' @ file_basename file @ '' '' @ printf_d (sint line) @ [CHR 0x0A]"

lemma put_int_spec: "LogStream_inv ls \<Longrightarrow> appends (printf_d (sint i)) ls (put_int i ls)"
  using put_formatted_spec length_printf_d [OF _ sint_bound(2), of i] by (simp add: put_int_def)

lemma put_literal_spec: "LogStream_inv ls \<Longrightarrow> CHR 0x00 \<notin> set s \<Longrightarrow> appends s ls (put_cstr (literal s) ls)"
  unfolding literal_def by (rule put_cstr_spec)

lemma put_level_spec:
  assumes "LogStream_inv ls" "level \<noteq> NUM_LOG_LEVELS"
  shows "appends (level_text level) ls (put_cstr (LogLevelName ! level_num level) ls)"
  using assms put_literal_spec [OF assms(1)] by (cases level) (simp_all add: LogLevelName_def)

lemma put_file_spec:
  assumes "LogStream_inv ls" "CHR 0x00 \<notin> set file" "length file < max_size"
  shows "appends (file_basename file) ls
    (put_Slice (Slice_ptr (sf_data (SourceFile_array (literal file))) (sf_size (SourceFile_array (literal file)))) ls)"
  using LogStream_append_spec [OF assms(1), of "Slice_ptr (literal (file_basename file)) (length (file_basename file))"]
  by (simp add: SourceFile_array_eq [OF assms(2,3)] put_Slice_def Slice_ptr_def Slice_str_def) (simp add: literal_def)

text \<open>The slice a destination gets for the message \<open>s\<close>: the array of the stream, with the zeros it was initialised with
  behind the message.\<close>

definition message_slice :: "string \<Rightarrow> Slice" where
  "message_slice s = \<lparr>slice_data = s @ replicate (kSmallBufferSize - length s) CHR 0x00, slice_size = length s\<rparr>"

lemma appends_new:
  assumes "appends s LogStream_new r"
  shows "bindR r (\<lambda>stream. f (LogStream_slice stream)) =
    (if length s \<le> kSmallBufferSize then f (message_slice s) else Inl Assertion_failed)"
proof (cases "length s \<le> kSmallBufferSize")
  case True
  then obtain a where a: "r = Inr a" "FixedBuffer_content a = s" "fb_cur a = length s"
      "drop (fb_cur a) (fb_data a) = drop (fb_cur a) (fb_data LogStream_new)"
    using assms LogStream_new_inv by (auto simp: appends_def okR_def)
  have "fb_data a = FixedBuffer_content a @ drop (fb_cur a) (fb_data a)" by (simp add: FixedBuffer_content_def)
  also have "\<dots> = s @ replicate (kSmallBufferSize - length s) CHR 0x00"
    using a by (simp add: LogStream_new_def FixedBuffer_new_def)
  finally show ?thesis using True a
    by (simp add: message_slice_def LogStream_slice_def FixedBuffer_slice_def Slice_ptr_def FixedBuffer_size_def)
next
  case False
  then show ?thesis using assms LogStream_new_inv by (simp add: appends_def)
qed

lemma LOG_eq:
  assumes "level \<noteq> NUM_LOG_LEVELS" "CHR 0x00 \<notin> set file" "length file < max_size"
    and "\<And>ls. LogStream_inv ls \<Longrightarrow> appends msg ls (insertions ls)"
    and "log_enabled (gLogLevel g) level"
  shows "LOG g level file line now tid insertions out =
    (if length (log_text now tid level msg file line) \<le> kSmallBufferSize
     then log_func g (message_slice (log_text now tid level msg file line)) out
     else Inl Assertion_failed)"
proof -
  let ?chain = "bindR (put_string (Timestamp_toFormatedString True now) LogStream_new) (\<lambda>s.
     bindR (put_cstr (literal ''Z '') s) (\<lambda>s. bindR (put_int tid s) (\<lambda>s. bindR (put_cstr (literal '' '') s) (\<lambda>s.
     bindR (put_cstr (LogLevelName ! level_num level) s) (\<lambda>s. bindR (insertions s) (\<lambda>s.
     bindR (put_cstr (literal '' - '') s) (\<lambda>s.
     bindR (put_Slice (Slice_ptr (sf_data (SourceFile_array (literal file))) (sf_size (SourceFile_array (literal file)))) s) (\<lambda>s.
     bindR (put_cstr (literal '' '') s) (\<lambda>s. bindR (put_int line s) (\<lambda>s.
     put_cstr (literal [CHR 0x0A]) s))))))))))"
  have "appends (log_text now tid level msg file line) LogStream_new ?chain"
    unfolding log_text_def
    by (intro appends_bind put_string_spec put_literal_spec put_int_spec put_level_spec put_file_spec assms LogStream_new_inv)
      simp_all
  from appends_new [OF this, of "\<lambda>s. log_func g s out"]
  have "bindR ?chain (\<lambda>stream. log_func g (LogStream_slice stream) out) =
    (if length (log_text now tid level msg file line) \<le> kSmallBufferSize
     then log_func g (message_slice (log_text now tid level msg file line)) out
     else Inl Assertion_failed)" .
  moreover have "level_num level < length LogLevelName" using assms(1) by (cases level) (simp_all add: LogLevelName_def)
  ultimately show ?thesis
    using assms(5) by (simp add: LOG_def Logger_new_def Logger_delete_def bindR_assoc)
qed

text \<open>C15: a \<^verbatim>\<open>LOG_XXX\<close> statement hands its destination exactly one message: time, thread id, level, the inserted
  text, file name without its directories, line and newline, in a slice of the message's length; when the
  message is longer than 4096 bytes it fails an assertion instead. A statement of one of the three lowest
  levels, when that is below \<^verbatim>\<open>gLogLevel\<close>, does nothing.\<close>

theorem LOG_correct:
  assumes "level \<noteq> NUM_LOG_LEVELS" "CHR 0x00 \<notin> set file" "length file < max_size"
    and "\<And>ls. LogStream_inv ls \<Longrightarrow> appends msg ls (insertions ls)"
  shows "LOG g level file line now tid insertions out =
    (if level < WARN \<and> level < gLogLevel g then Inr out
     else if length (log_text now tid level msg file line) \<le> 4096
     then log_func g \<lparr>slice_data = log_text now tid level msg file line @
             replicate (4096 - length (log_text now tid level msg file line)) CHR 0x00,
           slice_size = length (log_text now tid level msg file line)\<rparr> out
     else Inl Assertion_failed)"
proof -
  have e: "log_enabled (gLogLevel g) level \<longleftrightarrow> \<not> (level < WARN \<and> level < gLogLevel g)"
    by (cases level) (auto simp: less_LogLevel_def less_eq_LogLevel_def)
  show ?thesis
  proof (cases "log_enabled (gLogLevel g) level")
    case True
    with e have "\<not> (level < WARN \<and> level < gLogLevel g)" by simp
    then show ?thesis
      using LOG_eq [OF assms True, of line now tid out] by (simp only: message_slice_def kSmallBufferSize_def if_False)
  next
    case False
    then show ?thesis using e by (simp add: LOG_def)
  qed
qed

theorem LOG_correct_witness:
  "LOG (setLogLevel ERROR initial_globals) INFO ''a/b.cc'' 7 0 1 (put_string ''hi'') [] = Inr []"
  by (subst LOG_correct [OF _ _ _ put_string_spec])
    (simp_all add: max_size_def setLogLevel_def less_LogLevel_def)

lemma DefaultDestination_eq:
  assumes "CHR 0x00 \<notin> set s"
  shows "DefaultDestination \<lparr>slice_data = s @ replicate n CHR 0x00, slice_size = k\<rparr> out =
    (if n = 0 then Inl Out_of_bounds else Inr (out @ s))"
proof (cases n)
  case 0
  have "strlen s = Inl Out_of_bounds" using assms by (induction s) auto
  then show ?thesis using 0 by (simp add: DefaultDestination_def string_of_cstr_def)
next
  case (Suc m)
  then show ?thesis using assms by (simp add: DefaultDestination_def string_of_cstr_ok)
qed

lemma printf_0d_no_nul: "CHR 0x00 \<notin> set (printf_0d w i)"
proof -
  have "CHR 0x00 \<notin> set (dec n)" for n using dec_digits [of "CHR 0x00" n] by (auto simp: is_digit_def)
  then show ?thesis by (auto simp: printf_0d_def pad_left_def)
qed

lemma log_text_no_nul:
  assumes "CHR 0x00 \<notin> set file" "CHR 0x00 \<notin> set msg"
  shows "CHR 0x00 \<notin> set (log_text now tid level msg file line)"
proof -
  have "CHR 0x00 \<notin> set (tm_string tm)" for tm
    by (simp add: printf_0d_no_nul printf_d_no_nul tm_string_def printf_wd_def pad_left_def)
  then have "CHR 0x00 \<notin> set (Timestamp_toFormatedString True now)"
    by (auto simp: Timestamp_toFormatedString_def snprintf_def Let_def printf_0d_no_nul dest!: in_set_takeD)
  moreover have "CHR 0x00 \<notin> set (level_text level)" by (cases level) simp_all
  ultimately show ?thesis using assms set_basename [of "file"] by (simp add: log_text_def printf_d_no_nul subset_iff) blast
qed

lemma log_text_length: "length (log_text now tid level msg file line) \<le> 67 + length msg + length file"
proof -
  have "length (Timestamp_toFormatedString True now) \<le> 31"
    by (simp add: Timestamp_toFormatedString_def snprintf_def Let_def)
  moreover have "length (level_text level) \<le> 6" by (cases level) simp_all
  moreover have "length (printf_d (sint tid)) \<le> 11" "length (printf_d (sint line)) \<le> 11"
    using length_printf_d [OF _ sint_bound(2), of tid] length_printf_d [OF _ sint_bound(2), of line] by simp_all
  ultimately show ?thesis using length_basename [of "file"] by (simp add: log_text_def)
qed

section \<open>Destinations\<close>

text \<open>What a destination promises: it takes the slices \<open>takes\<close> describes and adds their text to what it holds. A \<^verbatim>\<open>LOG_XXX\<close> statement
  whose message is such a slice then adds exactly the message.\<close>

locale log_destination =
  fixes func :: "Slice \<Rightarrow> 'o \<Rightarrow> 'o result"
    and inv :: "'o \<Rightarrow> bool"
    and content :: "'o \<Rightarrow> string"
    and takes :: "Slice \<Rightarrow> bool"
  assumes func_ok: "inv out \<Longrightarrow> takes s \<Longrightarrow> okR (func s out) (\<lambda>out'. inv out' \<and> content out' = content out @ Slice_str s)"
begin

lemma LOG_adds:
  assumes "level \<noteq> NUM_LOG_LEVELS" "CHR 0x00 \<notin> set file" "length file < max_size"
    and "\<And>ls. LogStream_inv ls \<Longrightarrow> appends msg ls (insertions ls)"
    and "log_enabled (gLogLevel g) level" "log_func g = func" "inv out"
    and "length (log_text now tid level msg file line) \<le> kSmallBufferSize"
    and "takes (message_slice (log_text now tid level msg file line))"
  shows "okR (LOG g level file line now tid insertions out)
    (\<lambda>out'. inv out' \<and> content out' = content out @ log_text now tid level msg file line)"
proof -
  have "Slice_str (message_slice t) = t" for t by (simp add: message_slice_def Slice_str_def)
  then show ?thesis
    using func_ok [OF assms(7,9)] LOG_eq [OF assms(1-5), of line now tid out] assms(6,8) by simp
qed

end

text \<open>The default destination takes the messages that leave room for a terminator and do not contain one.\<close>

definition stdout_takes :: "Slice \<Rightarrow> bool" where
  "stdout_takes s \<longleftrightarrow> (\<exists>t. s = message_slice t \<and> CHR 0x00 \<notin> set t \<and> length t < kSmallBufferSize)"

interpretation stdout_log: log_destination DefaultDestination "\<lambda>_. True" "\<lambda>out. out" stdout_takes
  by unfold_locales (auto simp: stdout_takes_def message_slice_def DefaultDestination_eq Slice_str_def)

text \<open>The default destination prints a message of less than 4096 bytes whole; for a message of exactly
  4096 bytes there is no terminator and \<^verbatim>\<open>fputs\<close> reads past the end of the buffer.\<close>

lemma LOG_default_destination:
  assumes "CHR 0x00 \<notin> set file" "length file < max_size" "CHR 0x00 \<notin> set msg" "level \<in> {INFO, WARN, ERROR, FATAL}"
    and "length (log_text now tid level msg file line) \<le> 4096"
  shows "LOG initial_globals level file line now tid (put_string msg) out =
    (if length (log_text now tid level msg file line) = 4096 then Inl Out_of_bounds
     else Inr (out @ log_text now tid level msg file line))"
proof -
  have "level \<noteq> NUM_LOG_LEVELS" "log_enabled (gLogLevel initial_globals) level" "log_func initial_globals = DefaultDestination"
    using assms(4) by (auto simp: initial_globals_def)
  with LOG_eq [of level "file" msg "put_string msg" initial_globals, OF _ assms(1,2) put_string_spec] assms(5)
  show ?thesis by (simp add: message_slice_def kSmallBufferSize_def DefaultDestination_eq log_text_no_nul [OF assms(1,3)])
qed

end
