(* ===== verification/Log_Files.thy ===== *)
theory Log_Files
  imports Loggers
begin

text \<open>
  \<^verbatim>\<open>AppendFile\<close> (log/file.h, log/file.cc) and \<^verbatim>\<open>LogFile\<close> (log/log_file.h, log/log_file.cc). The state \<open>log_state\<close> is the
  contents of the files on disk, in the order they were created, the counter that is static in
  \<^verbatim>\<open>LogFile::Append\<close>, and the number of calls made so far, by which the answers of the operating system
  (\<open>log_os\<close>: the clock, whether a file can be opened, how many bytes a write takes, how many of the
  buffered bytes stdio writes out) are indexed. What is shown: a write loop that ends and writes a prefix,
  all of it when every call makes progress; that rolling loses nothing and never writes into an
  older file; the bound on the size of a file; when the rolling assertion fails.
\<close>

section \<open>The operating system and the disk\<close>

record log_os =
  os_time :: "nat \<Rightarrow> int"
  os_fopen :: "nat \<Rightarrow> string \<Rightarrow> bool"
  os_fwrite :: "nat \<Rightarrow> nat \<Rightarrow> nat"
  os_spill :: "nat \<Rightarrow> nat \<Rightarrow> nat"
  os_process :: process_os

type_synonym disk = "(string \<times> string) list"

text \<open>Appending to the file of a name, which is created when it is not there.\<close>

fun disk_append :: "string \<Rightarrow> string \<Rightarrow> disk \<Rightarrow> disk" where
  "disk_append name s [] = [(name, s)]"
| "disk_append name s ((n, c) # d) = (if n = name then (n, c @ s) # d else (n, c) # disk_append name s d)"

record log_state =
  lg_disk :: disk
  lg_count :: nat
  lg_tick :: nat

section \<open>\<open>AppendFile\<close>\<close>

text \<open>The stream \<^verbatim>\<open>fd_\<close> is the name of the file and the bytes in its buffer that are not on disk yet.\<close>

record AppendFile =
  af_name :: string
  af_pending :: string
  has_written :: nat

text \<open>\<^verbatim>\<open>fopen\<close> with mode \<^verbatim>\<open>ae\<close>. When it returns a null pointer, \<^verbatim>\<open>setbuffer\<close> is called with it.\<close>

definition AppendFile_new :: "log_os \<Rightarrow> string \<Rightarrow> log_state \<Rightarrow> (AppendFile \<times> log_state) result" where
  "AppendFile_new os filename st =
     (if os_fopen os (lg_tick st) filename
      then Inr (\<lparr>af_name = filename, af_pending = [], has_written = 0\<rparr>,
                st\<lparr>lg_disk := disk_append filename [] (lg_disk st), lg_tick := lg_tick st + 1\<rparr>)
      else Inl Null_dereference)"

text \<open>\<^verbatim>\<open>fflush\<close> and \<^verbatim>\<open>fclose\<close> write out what is buffered.\<close>

definition AppendFile_Flush :: "AppendFile \<Rightarrow> log_state \<Rightarrow> AppendFile \<times> log_state" where
  "AppendFile_Flush f st =
     (f\<lparr>af_pending := []\<rparr>, st\<lparr>lg_disk := disk_append (af_name f) (af_pending f) (lg_disk st)\<rparr>)"

definition AppendFile_delete :: "AppendFile \<Rightarrow> log_state \<Rightarrow> log_state" where
  "AppendFile_delete f st = st\<lparr>lg_disk := disk_append (af_name f) (af_pending f) (lg_disk st)\<rparr>"

text \<open>\<^verbatim>\<open>fwrite_unlocked\<close> of the bytes \<open>ptr\<close> takes at most as many as it is offered, and may write out some of
  what is buffered.\<close>

definition fwrite_unlocked :: "log_os \<Rightarrow> string \<Rightarrow> AppendFile \<Rightarrow> log_state \<Rightarrow> nat \<times> AppendFile \<times> log_state" where
  "fwrite_unlocked os ptr f st =
     (let n = min (os_fwrite os (lg_tick st) (length ptr)) (length ptr);
          pending = af_pending f @ take n ptr;
          k = os_spill os (lg_tick st) (length pending)
      in (n, f\<lparr>af_pending := drop k pending\<rparr>,
          st\<lparr>lg_disk := disk_append (af_name f) (take k pending) (lg_disk st), lg_tick := lg_tick st + 1\<rparr>))"

text \<open>The loop of \<^verbatim>\<open>Append\<close>; \<open>data\<close> is the bytes of the slice.\<close>

function append_loop :: "log_os \<Rightarrow> string \<Rightarrow> nat \<Rightarrow> nat \<Rightarrow> AppendFile \<Rightarrow> log_state \<Rightarrow> AppendFile \<times> log_state" where
  "append_loop os data written remaining f st =
     (if 0 < remaining
      then (case fwrite_unlocked os (drop written data) f st of (n, f', st') \<Rightarrow>
              if n = 0 then (f', st')
              else append_loop os data (written + n) (sz_sub remaining n) f' st')
      else (f, st))"
  by pat_completeness auto
termination
  by (relation "measure (\<lambda>(os, data, written, remaining, f, st). length data - written)")
    (auto simp: fwrite_unlocked_def Let_def)

declare append_loop.simps [simp del]

definition AppendFile_Append :: "log_os \<Rightarrow> Slice \<Rightarrow> AppendFile \<Rightarrow> log_state \<Rightarrow> (AppendFile \<times> log_state) result" where
  "AppendFile_Append os s f st =
     (if slice_data s = [] \<or> slice_size s = 0 then Inr (f, st)
      else boundsR (slice_size s \<le> length (slice_data s))
        (case fwrite_unlocked os (Slice_str s) f st of (written, f', st') \<Rightarrow>
           case append_loop os (Slice_str s) written (sz_sub (slice_size s) written) f' st' of (f'', st'') \<Rightarrow>
             Inr (f''\<lparr>has_written := has_written f'' + slice_size s\<rparr>, st'')))"

section \<open>\<open>LogFile\<close>\<close>

definition kRollingSize :: nat where
  "kRollingSize = 100 * 1024 * 1024"

definition kFlushInterval :: int where
  "kFlushInterval = 5"

definition kCheckInterval :: nat where
  "kCheckInterval = 1024"

definition kRollPerDay :: int where
  "kRollPerDay = 60 * 60 * 24"

record LogFile =
  lf_basename :: string
  lf_file :: "AppendFile option"
  last_roll :: int
  last_flush :: int
  start_period :: int

text \<open>\<^verbatim>\<open>strftime\<close> with the format \<^verbatim>\<open>.%Y%m%d-%H%M%S.\<close>\<close>

definition strftime_stamp :: "tm \<Rightarrow> string" where
  "strftime_stamp tm =
     ''.'' @ printf_d (tm_year tm + 1900) @ printf_0d 2 (tm_mon tm + 1) @ printf_0d 2 (tm_mday tm) @ ''-'' @
     printf_0d 2 (tm_hour tm) @ printf_0d 2 (tm_min tm) @ printf_0d 2 (tm_sec tm) @ ''.''"

text \<open>The name, the time it was made of, and the state after the call of \<^verbatim>\<open>time\<close>.\<close>

definition getLogFileName :: "log_os \<Rightarrow> string \<Rightarrow> log_state \<Rightarrow> (string \<times> int \<times> log_state) result" where
  "getLogFileName os basename st =
     (let now = os_time os (lg_tick st)
      in bindR (process_hostname (os_process os)) (\<lambda>hostname.
         bindR (process_pidString (os_process os)) (\<lambda>pid.
         Inr (basename @ strftime_stamp (gmtime_r now) @ hostname @ ''.'' @ pid @ ''.log'', now,
              st\<lparr>lg_tick := lg_tick st + 1\<rparr>))))"

text \<open>The assignment to \<^verbatim>\<open>file_\<close> destroys the old file after the new one is open.\<close>

definition rollToNewFile :: "log_os \<Rightarrow> LogFile \<Rightarrow> log_state \<Rightarrow> (LogFile \<times> log_state) result" where
  "rollToNewFile os lf st =
     bindR (getLogFileName os (lf_basename lf) st) (\<lambda>(filename, now, st).
     assertR (last_roll lf < now)
       (bindR (AppendFile_new os filename st) (\<lambda>(file, st).
        Inr (lf\<lparr>last_roll := now, last_flush := now, start_period := now sdiv kRollPerDay * kRollPerDay, lf_file := Some file\<rparr>,
             case lf_file lf of None \<Rightarrow> st | Some old \<Rightarrow> AppendFile_delete old st))))"

text \<open>The constructor. The three time members are not initialised: they hold the arbitrary value \<open>garbage\<close> when
  \<^verbatim>\<open>rollToNewFile\<close> reads \<^verbatim>\<open>last_roll_\<close>.\<close>

definition LogFile_new :: "log_os \<Rightarrow> int \<Rightarrow> string \<Rightarrow> log_state \<Rightarrow> (LogFile \<times> log_state) result" where
  "LogFile_new os garbage filename st =
     rollToNewFile os
       \<lparr>lf_basename = filename, lf_file = None, last_roll = garbage, last_flush = garbage, start_period = garbage\<rparr> st"

definition LogFile_delete :: "LogFile \<Rightarrow> log_state \<Rightarrow> log_state" where
  "LogFile_delete lf st = (case lf_file lf of None \<Rightarrow> st | Some f \<Rightarrow> AppendFile_delete f st)"

definition LogFile_Append :: "log_os \<Rightarrow> Slice \<Rightarrow> LogFile \<Rightarrow> log_state \<Rightarrow> (LogFile \<times> log_state) result" where
  "LogFile_Append os s lf st =
     ptrR Null_dereference (lf_file lf) (\<lambda>file.
     bindR (AppendFile_Append os s file st) (\<lambda>(file, st).
       let lf = lf\<lparr>lf_file := Some file\<rparr>
       in if kRollingSize < has_written file then rollToNewFile os lf st
          else
            let st = st\<lparr>lg_count := lg_count st + 1\<rparr>
            in if kCheckInterval \<le> lg_count st
               then
                 let now = os_time os (lg_tick st);
                     st = st\<lparr>lg_count := 0, lg_tick := lg_tick st + 1\<rparr>
                 in if now sdiv kRollPerDay * kRollPerDay \<noteq> start_period lf then rollToNewFile os lf st
                    else if kFlushInterval < now - last_flush lf
                    then (case AppendFile_Flush file st of (file, st) \<Rightarrow>
                            Inr (lf\<lparr>last_flush := now, lf_file := Some file\<rparr>, st))
                    else Inr (lf, st)
               else Inr (lf, st)))"

section \<open>The stream of a file\<close>

definition disk_file :: "string \<Rightarrow> disk \<Rightarrow> string" where
  "disk_file name d = (case map_of d name of None \<Rightarrow> [] | Some c \<Rightarrow> c)"

lemma map_of_disk_append: "map_of (disk_append name s d) = (map_of d)(name \<mapsto> disk_file name d @ s)"
  by (induction name s d rule: disk_append.induct) (auto simp: fun_eq_iff disk_file_def)

lemma disk_append_append: "disk_append name t (disk_append name s d) = disk_append name (s @ t) d"
  by (induction name s d rule: disk_append.induct) auto

definition disk_names :: "disk \<Rightarrow> string set" where
  "disk_names d = fst ` set d"

lemma disk_names_simps [simp]:
  "disk_names [] = {}" "disk_names ((n, c) # d) = insert n (disk_names d)" "disk_names (d @ e) = disk_names d \<union> disk_names e"
  by (auto simp: disk_names_def)

lemma names_disk_append: "disk_names (disk_append n s d) = insert n (disk_names d)"
  by (induction n s d rule: disk_append.induct) auto

text \<open>What has been written to the open file \<open>f\<close>: the disk as it will be once the buffer is written out.\<close>

definition settled :: "AppendFile \<Rightarrow> log_state \<Rightarrow> disk" where
  "settled f st = disk_append (af_name f) (af_pending f) (lg_disk st)"

text \<open>The hypothesis that a write of at least one byte takes at least one byte.\<close>

definition fwrite_progress :: "log_os \<Rightarrow> bool" where
  "fwrite_progress os \<longleftrightarrow> (\<forall>t n. 0 < n \<longrightarrow> 0 < os_fwrite os t n)"

text \<open>What the disk becomes by the write loop: some prefix of the data is appended, all of it when every
  call takes at least one byte. Nothing else changes.\<close>

definition writes :: "log_os \<Rightarrow> string \<Rightarrow> AppendFile \<Rightarrow> log_state \<Rightarrow> AppendFile \<Rightarrow> log_state \<Rightarrow> bool" where
  "writes os data f st f' st' \<longleftrightarrow>
     (\<exists>w \<le> length data. settled f' st' = disk_append (af_name f) (af_pending f @ take w data) (lg_disk st) \<and>
        (fwrite_progress os \<longrightarrow> w = length data)) \<and>
     af_name f' = af_name f \<and> lg_count st' = lg_count st \<and> disk_names (lg_disk st) \<subseteq> disk_names (lg_disk st')"

lemma fwrite_unlocked_spec:
  assumes "fwrite_unlocked os ptr f st = (n, f', st')"
  shows "n \<le> length ptr" "settled f' st' = disk_append (af_name f) (af_pending f @ take n ptr) (lg_disk st)"
    "af_name f' = af_name f" "has_written f' = has_written f" "lg_count st' = lg_count st"
    "fwrite_progress os \<Longrightarrow> ptr \<noteq> [] \<Longrightarrow> 0 < n" "disk_names (lg_disk st) \<subseteq> disk_names (lg_disk st')"
  using assms by (auto simp: fwrite_unlocked_def names_disk_append fwrite_progress_def Let_def settled_def disk_append_append simp del: drop_append take_append)

lemma append_loop_spec:
  assumes "append_loop os data written remaining f st = (f', st')"
    and "written + remaining = length data" "remaining < size_t_mod"
  shows "writes os (drop written data) f st f' st' \<and> has_written f' = has_written f"
  using assms
proof (induction os data written remaining f st rule: append_loop.induct)
  case (1 os data written remaining f st)
  obtain n g su where fw: "fwrite_unlocked os (drop written data) f st = (n, g, su)"
    by (cases "fwrite_unlocked os (drop written data) f st")
  note spec = fwrite_unlocked_spec [OF fw]
  consider "remaining = 0" | "0 < remaining" "n = 0" | "0 < remaining" "0 < n" by blast
  then show ?case
  proof cases
    case 1
    with "1.prems" show ?thesis by (simp add: append_loop.simps writes_def settled_def)
  next
    case 2
    have "\<not> fwrite_progress os" using spec(6) 2 "1.prems" by auto
    moreover have "(f', st') = (g, su)" using "1.prems"(1) 2 fw by (simp add: append_loop.simps)
    ultimately show ?thesis using spec 2 by (auto simp: writes_def intro!: exI [of _ 0])
  next
    case 3
    have rem: "sz_sub remaining n = remaining - n" using spec(1) "1.prems" by simp
    have rest: "writes os (drop (written + n) data) g su f' st' \<and> has_written f' = has_written g"
      by (rule "1.IH" [OF 3(1) fw [symmetric] refl]) (use 3 "1.prems" fw spec(1) rem in \<open>auto simp: append_loop.simps [of os data written]\<close>)
    then obtain w where w: "w \<le> length data - (written + n)"
        "settled f' st' = disk_append (af_name g) (af_pending g @ take w (drop (written + n) data)) (lg_disk su)"
        "fwrite_progress os \<longrightarrow> w = length data - (written + n)"
      by (auto simp: writes_def)
    have "settled f' st' = disk_append (af_name f) (af_pending f @ take n (drop written data) @ take w (drop (written + n) data)) (lg_disk st)"
      using w(2) spec(2,3) by (simp add: settled_def flip: disk_append_append)
    also have "take n (drop written data) @ take w (drop (written + n) data) = take (n + w) (drop written data)"
      by (simp add: take_add add.commute)
    finally show ?thesis
      using w spec rest "1.prems" by (auto simp: writes_def intro!: exI [of _ "n + w"])
  qed
qed

lemma AppendFile_Append_spec:
  assumes "slice_size s \<le> length (slice_data s)" "slice_size s < size_t_mod"
  shows "okR (AppendFile_Append os s f st) (\<lambda>(f', st').
    writes os (Slice_str s) f st f' st' \<and> has_written f' = has_written f + slice_size s)"
proof (cases "slice_size s = 0")
  case True
  then show ?thesis by (simp add: AppendFile_Append_def writes_def settled_def Slice_str_def)
next
  case False
  obtain n g su where fw: "fwrite_unlocked os (Slice_str s) f st = (n, g, su)"
    by (cases "fwrite_unlocked os (Slice_str s) f st")
  note spec = fwrite_unlocked_spec [OF fw]
  have len: "length (Slice_str s) = slice_size s" using assms by (simp add: Slice_str_def)
  then have rem: "sz_sub (slice_size s) n = slice_size s - n" using spec(1) assms by simp
  obtain f' st' where l: "append_loop os (Slice_str s) n (slice_size s - n) g su = (f', st')"
    by (cases "append_loop os (Slice_str s) n (slice_size s - n) g su")
  have "writes os (drop n (Slice_str s)) g su f' st' \<and> has_written f' = has_written g"
    by (rule append_loop_spec [OF l]) (use len spec(1) assms in auto)
  then obtain w where w: "w \<le> slice_size s - n" "has_written f' = has_written g" "af_name f' = af_name g" "lg_count st' = lg_count su"
      "disk_names (lg_disk su) \<subseteq> disk_names (lg_disk st')"
      "settled f' st' = disk_append (af_name g) (af_pending g @ take w (drop n (Slice_str s))) (lg_disk su)"
      "fwrite_progress os \<longrightarrow> w = slice_size s - n"
    using len by (auto simp: writes_def)
  have "settled f' st' = disk_append (af_name f) (af_pending f @ take n (Slice_str s) @ take w (drop n (Slice_str s))) (lg_disk st)"
    using w(6) spec(2,3) by (simp add: settled_def flip: disk_append_append)
  also have "take n (Slice_str s) @ take w (drop n (Slice_str s)) = take (n + w) (Slice_str s)"
    by (simp add: take_add)
  finally have "writes os (Slice_str s) f st (f'\<lparr>has_written := has_written f' + slice_size s\<rparr>) st'"
    using w spec len by (auto simp: writes_def settled_def intro!: exI [of _ "n + w"])
  moreover have "AppendFile_Append os s f st = Inr (f'\<lparr>has_written := has_written f' + slice_size s\<rparr>, st')"
    using False assms len by (auto simp: AppendFile_Append_def fw rem l)
  ultimately show ?thesis using w spec by simp
qed

section \<open>Names\<close>

definition parse_stamp :: "string \<Rightarrow> tm" where
  "parse_stamp s =
     \<lparr>tm_year = field 1 4 s - 1900, tm_mon = field 5 2 s - 1, tm_mday = field 7 2 s,
      tm_hour = field 10 2 s, tm_min = field 12 2 s, tm_sec = field 14 2 s\<rparr>"

lemma strftime_stamp_fields:
  assumes "tm_ok tm" "1000 \<le> tm_year tm + 1900" "tm_year tm + 1900 \<le> 9999"
  shows "parse_stamp (strftime_stamp tm @ s) = tm"
proof -
  have y: "length (printf_d (tm_year tm + 1900)) = 4" "undec (printf_d (tm_year tm + 1900)) = nat (tm_year tm + 1900)"
    using length_printf_d_exact [OF assms(2,3)] assms(2) by (simp_all add: printf_d_def)
  show ?thesis
    using assms by (simp add: strftime_stamp_def parse_stamp_def field_def tm_fields y tm_ok_def)
qed

definition in_calendar :: "int \<Rightarrow> bool" where
  "in_calendar t \<longleftrightarrow> 0 \<le> t \<and> t < 253402300800"

definition LogFile_name :: "log_os \<Rightarrow> string \<Rightarrow> int \<Rightarrow> string" where
  "LogFile_name os base t =
     base @ strftime_stamp (gmtime_r t) @ projr (process_hostname (os_process os)) @ ''.'' @
     projr (process_pidString (os_process os)) @ ''.log''"

lemma LogFile_name_inject:
  assumes "LogFile_name os base t = LogFile_name os base u" "in_calendar t" "in_calendar u"
  shows "t = u"
proof -
  have p: "parse_stamp (strftime_stamp (gmtime_r v) @ s) = gmtime_r v" if "in_calendar v" for v s
    using that gmtime_r_ok [of v] gmtime_r_year [of v] by (intro strftime_stamp_fields) (auto simp: in_calendar_def)
  define r where "r = projr (process_hostname (os_process os)) @ ''.'' @ projr (process_pidString (os_process os)) @ ''.log''"
  have "strftime_stamp (gmtime_r t) @ r = strftime_stamp (gmtime_r u) @ r"
    using assms(1) by (simp add: LogFile_name_def r_def)
  then have "parse_stamp (strftime_stamp (gmtime_r t) @ r) = parse_stamp (strftime_stamp (gmtime_r u) @ r)" by simp
  then have "gmtime_r t = gmtime_r u" using p assms(2,3) by simp
  then have "timegm (gmtime_r t) = timegm (gmtime_r u)" by simp
  then show ?thesis using gmtime_r_ok by simp
qed

text \<open>What \<^verbatim>\<open>gethostname\<close> promises: it fills at most the buffer it is given.\<close>

definition hostname_fits :: "log_os \<Rightarrow> bool" where
  "hostname_fits os \<longleftrightarrow>
     (case sys_gethostname (os_process os) of None \<Rightarrow> True | Some b \<Rightarrow> length b = 256)"

lemma getLogFileName_eq:
  assumes "hostname_fits os"
  shows "getLogFileName os base st =
    Inr (LogFile_name os base (os_time os (lg_tick st)), os_time os (lg_tick st), st\<lparr>lg_tick := lg_tick st + 1\<rparr>)"
proof -
  have "okR (process_hostname (os_process os)) (\<lambda>h. length h \<le> 255 \<and> CHR 0x00 \<notin> set h)"
    using assms by (intro process_hostname_ok) (simp add: hostname_fits_def)
  then obtain h where "process_hostname (os_process os) = Inr h" by (auto simp: okR_def)
  then show ?thesis by (simp add: getLogFileName_def LogFile_name_def process_pidString_eq Let_def)
qed

section \<open>Rolling\<close>

lemma disk_append_last: "n \<notin> disk_names ds \<Longrightarrow> disk_append n s (ds @ [(n, c)]) = ds @ [(n, c @ s)]"
  by (induction ds) auto

lemma disk_append_new: "n \<notin> disk_names d \<Longrightarrow> disk_append n s d = d @ [(n, s)]"
  by (induction d) auto

lemma disk_append_old: "n \<in> disk_names d \<Longrightarrow> disk_append n s (d @ e) = disk_append n s d @ e"
  by (induction n s d rule: disk_append.induct) auto

text \<open>The log so far is \<open>W\<close>: the files in order, the last one the open file, hold it; each has the name of the
  second it was opened in, and no name is used twice. No closed file is larger than \<open>kRollingSize\<close> by more than
  the largest slice, \<open>B\<close>.\<close>

definition LogFile_holds :: "nat \<Rightarrow> log_os \<Rightarrow> LogFile \<Rightarrow> AppendFile \<Rightarrow> log_state \<Rightarrow> disk \<Rightarrow> string \<Rightarrow> string \<Rightarrow> bool" where
  "LogFile_holds B os lf f st ds c W \<longleftrightarrow>
     lf_file lf = Some f \<and> settled f st = ds @ [(af_name f, c)] \<and> af_name f \<in> disk_names (lg_disk st) \<and>
     af_name f \<notin> disk_names ds \<and> distinct (map fst ds) \<and> concat (map snd ds) @ c = W \<and>
     (\<forall>n \<in> disk_names (lg_disk st). \<exists>t. in_calendar t \<and> t \<le> last_roll lf \<and> n = LogFile_name os (lf_basename lf) t) \<and>
     has_written f = length c \<and> (\<forall>p \<in> set ds. length (snd p) \<le> kRollingSize + B)"

definition LogFile_inv :: "nat \<Rightarrow> log_os \<Rightarrow> string \<Rightarrow> LogFile \<times> log_state \<Rightarrow> bool" where
  "LogFile_inv B os W p \<longleftrightarrow>
     (\<exists>f ds c. LogFile_holds B os (fst p) f (snd p) ds c W \<and> length c \<le> kRollingSize)"

lemma LogFile_holds_names:
  assumes "LogFile_holds B os lf f st ds c W"
  shows "disk_names (settled f st) = disk_names (lg_disk st)"
proof -
  have "af_name f \<in> disk_names (lg_disk st)" using assms by (simp add: LogFile_holds_def)
  then show ?thesis by (simp add: settled_def names_disk_append insert_absorb)
qed

lemma LogFile_invI: "LogFile_holds B os lf f st ds c W \<Longrightarrow> length c \<le> kRollingSize \<Longrightarrow> LogFile_inv B os W (lf, st)"
  unfolding LogFile_inv_def fst_conv snd_conv by blast

lemma rollToNewFile_ok:
  assumes h: "LogFile_holds B os lf f st ds c W" and c: "length c \<le> kRollingSize + B"
    and host: "hostname_fits os" and cal: "in_calendar (os_time os (lg_tick st))"
    and r: "rollToNewFile os lf st = Inr p"
  shows "LogFile_inv B os W p"
proof -
  define now where "now = os_time os (lg_tick st)"
  define new where "new = LogFile_name os (lf_basename lf) now"
  have f: "lf_file lf = Some f" using h by (simp add: LogFile_holds_def)
  have now: "last_roll lf < now"
    and p: "p = (lf\<lparr>last_roll := now, last_flush := now, start_period := now sdiv kRollPerDay * kRollPerDay,
        lf_file := Some \<lparr>af_name = new, af_pending = [], has_written = 0\<rparr>\<rparr>,
      st\<lparr>lg_tick := lg_tick st + 2,
         lg_disk := disk_append (af_name f) (af_pending f) (disk_append new [] (lg_disk st))\<rparr>)"
    using r f by (auto simp: rollToNewFile_def getLogFileName_eq [OF host] result_simps AppendFile_new_def AppendFile_delete_def
        new_def now_def split: if_splits)
  have fresh: "new \<notin> disk_names (lg_disk st)"
  proof
    assume "new \<in> disk_names (lg_disk st)"
    then obtain t where "in_calendar t" "t \<le> last_roll lf" "new = LogFile_name os (lf_basename lf) t"
      using h by (auto simp: LogFile_holds_def)
    then show False using LogFile_name_inject [of os "lf_basename lf" now t] cal now by (simp add: new_def now_def)
  qed
  have disk: "disk_append (af_name f) (af_pending f) (disk_append new [] (lg_disk st)) = settled f st @ [(new, [])]"
    using h fresh by (simp add: LogFile_holds_def disk_append_new disk_append_old settled_def)
  note names = LogFile_holds_names [OF h]
  have d: "settled f st = ds @ [(af_name f, c)]" using h by (simp add: LogFile_holds_def)
  have old: "\<exists>t. in_calendar t \<and> t \<le> now \<and> n = LogFile_name os (lf_basename lf) t" if "n \<in> disk_names (lg_disk st)" for n
    using h that now by (force simp: LogFile_holds_def)
  have "LogFile_holds B os (fst p) \<lparr>af_name = new, af_pending = [], has_written = 0\<rparr> (snd p) (settled f st) [] W"
    unfolding LogFile_holds_def
  proof (intro conjI)
    show "settled \<lparr>af_name = new, af_pending = [], has_written = 0\<rparr> (snd p) =
        settled f st @ [(af_name \<lparr>af_name = new, af_pending = [], has_written = 0\<rparr>, [])]"
      using fresh names by (simp add: p disk settled_def [of "\<lparr>af_name = new, af_pending = [], has_written = 0\<rparr>"] disk_append_last)
    show "\<forall>n \<in> disk_names (lg_disk (snd p)). \<exists>t. in_calendar t \<and> t \<le> last_roll (fst p) \<and> n = LogFile_name os (lf_basename (fst p)) t"
    proof
      fix n assume "n \<in> disk_names (lg_disk (snd p))"
      then have "n = new \<or> n \<in> disk_names (lg_disk st)" using names by (auto simp: p disk)
      then show "\<exists>t. in_calendar t \<and> t \<le> last_roll (fst p) \<and> n = LogFile_name os (lf_basename (fst p)) t"
      proof
        assume "n = new"
        then show ?thesis using cal by (intro exI [of _ now]) (simp add: p new_def now_def)
      next
        assume "n \<in> disk_names (lg_disk st)"
        from old [OF this] show ?thesis by (simp add: p)
      qed
    qed
    show "\<forall>q \<in> set (settled f st). length (snd q) \<le> kRollingSize + B"
      using h c by (auto simp: d LogFile_holds_def)
    show "distinct (map fst (settled f st))" using h by (simp add: d LogFile_holds_def) (simp add: disk_names_def)
    show "concat (map snd (settled f st)) @ [] = W" using h by (simp add: d LogFile_holds_def)
    show "af_name \<lparr>af_name = new, af_pending = [], has_written = 0\<rparr> \<notin> disk_names (settled f st)"
      using fresh names by simp
  qed (simp_all add: p disk)
  from LogFile_invI [OF this] show ?thesis by simp
qed

lemma LogFile_holds_flush:
  assumes "LogFile_holds B os lf f st ds c W" "AppendFile_Flush f st = (f', st')" "lf' = lf\<lparr>last_flush := t, lf_file := Some f'\<rparr>"
  shows "LogFile_holds B os lf' f' st' ds c W"
proof -
  have e: "f' = f\<lparr>af_pending := []\<rparr>" "st' = st\<lparr>lg_disk := settled f st\<rparr>"
    using assms(2) by (auto simp: AppendFile_Flush_def settled_def)
  have "settled f' st' = settled f st" by (simp add: e settled_def disk_append_append)
  then show ?thesis using assms(1,3) LogFile_holds_names [OF assms(1)] by (simp add: LogFile_holds_def e)
qed

lemma LogFile_holds_state:
  "LogFile_holds B os lf f st ds c W \<Longrightarrow> lg_disk st' = lg_disk st \<Longrightarrow> LogFile_holds B os lf f st' ds c W"
  by (simp add: LogFile_holds_def settled_def)

lemma LogFile_holds_append:
  assumes h: "LogFile_holds B os lf f st ds c W" and w: "writes os s f st f' st'" "fwrite_progress os"
    and "has_written f' = has_written f + length s"
  shows "LogFile_holds B os (lf\<lparr>lf_file := Some f'\<rparr>) f' st' ds (c @ s) (W @ s)"
proof -
  have w': "settled f' st' = disk_append (af_name f) s (settled f st)" "af_name f' = af_name f"
      "disk_names (lg_disk st) \<subseteq> disk_names (lg_disk st')"
    using w by (auto simp: writes_def settled_def disk_append_append)
  have f: "af_name f \<in> disk_names (lg_disk st)" using h by (simp add: LogFile_holds_def)
  have "insert (af_name f) (disk_names (lg_disk st')) = insert (af_name f) (disk_names (lg_disk st))"
    using arg_cong [OF w'(1), of disk_names] w'(2) by (simp add: settled_def names_disk_append)
  then have names: "disk_names (lg_disk st') = disk_names (lg_disk st)" using f w'(3) by (simp add: insert_absorb subset_iff)
  have "settled f' st' = ds @ [(af_name f', c @ s)]" using h w' by (simp add: LogFile_holds_def disk_append_last)
  then show ?thesis using h w'(2) names assms(4) by (simp add: LogFile_holds_def)
qed

text \<open>The hypotheses on the operating system: writes make progress, the host name fits, the clock shows a time from the
  epoch up to the year 9999.\<close>

definition log_os_ok :: "log_os \<Rightarrow> bool" where
  "log_os_ok os \<longleftrightarrow> fwrite_progress os \<and> hostname_fits os \<and> (\<forall>t. in_calendar (os_time os t))"

lemma LogFile_Append_keeps:
  assumes os: "log_os_ok os" and inv: "LogFile_inv B os W (lf, st)" and s: "Slice_valid s" "slice_size s \<le> B"
  shows "safeR (LogFile_Append os s lf st) (LogFile_inv B os (W @ Slice_str s))"
proof -
  obtain f ds c where h: "LogFile_holds B os lf f st ds c W" and c: "length c \<le> kRollingSize"
    using inv by (auto simp: LogFile_inv_def)
  have len: "length (Slice_str s) = slice_size s" using s by (simp add: Slice_valid_def Slice_str_def)
  have "okR (AppendFile_Append os s f st) (\<lambda>(f', st').
      writes os (Slice_str s) f st f' st' \<and> has_written f' = has_written f + slice_size s)"
    using s by (intro AppendFile_Append_spec) (simp_all add: Slice_valid_def)
  then obtain f' st' where a: "AppendFile_Append os s f st = Inr (f', st')" "writes os (Slice_str s) f st f' st'"
      "has_written f' = has_written f + slice_size s"
    by (auto simp: okR_def)
  define lf' where "lf' = lf\<lparr>lf_file := Some f'\<rparr>"
  have h': "LogFile_holds B os lf' f' st' ds (c @ Slice_str s) (W @ Slice_str s)"
    unfolding lf'_def using LogFile_holds_append [OF h a(2)] os a(3) len by (simp add: log_os_ok_def)
  have hw: "has_written f' = length (c @ Slice_str s)" using h' by (simp add: LogFile_holds_def)
  have roll: "safeR (rollToNewFile os lf' su) (LogFile_inv B os (W @ Slice_str s))" if "lg_disk su = lg_disk st'" for su
    unfolding safeR_def
    using rollToNewFile_ok [OF LogFile_holds_state [OF h' that]] c len s os by (simp add: log_os_ok_def)
  have keep: "LogFile_inv B os (W @ Slice_str s) (lf', su)" if "lg_disk su = lg_disk st'" "\<not> kRollingSize < has_written f'" for su
    using LogFile_invI [OF LogFile_holds_state [OF h' that(1)]] that(2) hw by simp
  have flush: "LogFile_inv B os (W @ Slice_str s) (lf'\<lparr>last_flush := t, lf_file := Some g\<rparr>, sv)"
    if "lg_disk su = lg_disk st'" "\<not> kRollingSize < has_written f'" "AppendFile_Flush f' su = (g, sv)" for su sv g t
    using LogFile_invI [OF LogFile_holds_flush [OF LogFile_holds_state [OF h' that(1)] that(3) refl]] that(2) hw by simp
  have "lf_file lf = Some f" using h by (simp add: LogFile_holds_def)
  then show ?thesis
    unfolding LogFile_Append_def
    by (simp add: a(1) Let_def roll keep flip: lf'_def split: prod.split)
      (auto intro: flush [of "st'\<lparr>lg_count := 0, lg_tick := Suc (lg_tick st')\<rparr>"])
qed

lemma rollToNewFile_eq:
  assumes "hostname_fits os" "\<And>t n. os_fopen os t n"
  shows "rollToNewFile os lf st =
    (let now = os_time os (lg_tick st); new = LogFile_name os (lf_basename lf) now;
         st = st\<lparr>lg_tick := lg_tick st + 2, lg_disk := disk_append new [] (lg_disk st)\<rparr>
     in assertR (last_roll lf < now)
       (Inr (lf\<lparr>last_roll := now, last_flush := now, start_period := now sdiv kRollPerDay * kRollPerDay,
          lf_file := Some \<lparr>af_name = new, af_pending = [], has_written = 0\<rparr>\<rparr>,
        case lf_file lf of None \<Rightarrow> st | Some old \<Rightarrow> AppendFile_delete old st)))"
  by (cases st) (simp add: rollToNewFile_def getLogFileName_eq [OF assms(1)] AppendFile_new_def assms(2) Let_def split: option.split)

lemma LogFile_new_ok:
  assumes "log_os_ok os" "lg_disk st = []"
  shows "safeR (LogFile_new os garbage base st) (LogFile_inv B os [])"
proof -
  have host: "hostname_fits os" and cal: "in_calendar (os_time os t)" for t using assms by (auto simp: log_os_ok_def)
  define now where "now = os_time os (lg_tick st)"
  define f where "f = \<lparr>af_name = LogFile_name os base now, af_pending = [], has_written = 0\<rparr>"
  have "LogFile_holds B os lf f su [] [] []"
    if "lf_file lf = Some f" "lg_disk su = [(af_name f, [])]" "lf_basename lf = base" "last_roll lf = now" for lf su
    using that cal by (auto simp: LogFile_holds_def settled_def f_def now_def)
  from LogFile_invI [OF this] show ?thesis
    using assms(2)
    by (simp add: LogFile_new_def rollToNewFile_def getLogFileName_eq [OF host] AppendFile_new_def wp_simps f_def now_def)
qed

lemma LogFile_run_keeps:
  assumes "log_os_ok os" "\<forall>s \<in> set ss. Slice_valid s \<and> slice_size s \<le> B" "LogFile_inv B os W p"
  shows "safeR (foldR (\<lambda>s (lf, st). LogFile_Append os s lf st) ss p) (LogFile_inv B os (W @ concat (map Slice_str ss)))"
  using assms(2,3)
proof (induction ss arbitrary: W p)
  case (Cons s ss)
  obtain lf st where p: "p = (lf, st)" by (cases p)
  have "safeR (LogFile_Append os s lf st) (LogFile_inv B os (W @ Slice_str s))"
    using Cons.prems by (intro LogFile_Append_keeps assms(1)) (auto simp: p)
  then show ?case
    using Cons.IH [of "W @ Slice_str s"] Cons.prems(1) by (auto simp: p wp_simps intro: safeR_mono)
qed simp

lemma LogFile_Append_quiet:
  assumes f: "lf_file lf = Some f" and s: "Slice_valid s"
    and "has_written f + slice_size s \<le> kRollingSize" "lg_count st + 1 < kCheckInterval"
  shows "okR (LogFile_Append os s lf st) (\<lambda>(lf', st'). True)"
proof -
  have "okR (AppendFile_Append os s f st) (\<lambda>(f', st').
      writes os (Slice_str s) f st f' st' \<and> has_written f' = has_written f + slice_size s)"
    using s by (intro AppendFile_Append_spec) (simp_all add: Slice_valid_def)
  then obtain f' st' where "AppendFile_Append os s f st = Inr (f', st')" "lg_count st' = lg_count st"
      "has_written f' = has_written f + slice_size s"
    by (auto simp: okR_def writes_def)
  then show ?thesis using assms by (simp add: LogFile_Append_def Let_def)
qed

text \<open>Closing the log leaves on disk what it holds.\<close>

lemma LogFile_inv_disk:
  assumes "LogFile_inv B os W (lf, st)"
  shows "concat (map snd (lg_disk (LogFile_delete lf st))) = W" "distinct (map fst (lg_disk (LogFile_delete lf st)))"
    "\<forall>p \<in> set (lg_disk (LogFile_delete lf st)). length (snd p) \<le> kRollingSize + B"
proof -
  obtain f ds c where h: "LogFile_holds B os lf f st ds c W" "length c \<le> kRollingSize"
    using assms by (auto simp: LogFile_inv_def)
  then have "lg_disk (LogFile_delete lf st) = ds @ [(af_name f, c)]"
    by (simp add: LogFile_holds_def LogFile_delete_def AppendFile_delete_def settled_def)
  then show "concat (map snd (lg_disk (LogFile_delete lf st))) = W" "distinct (map fst (lg_disk (LogFile_delete lf st)))"
    "\<forall>p \<in> set (lg_disk (LogFile_delete lf st)). length (snd p) \<le> kRollingSize + B"
    using h by (auto simp: LogFile_holds_def disk_names_def)
qed

section \<open>Properties\<close>

text \<open>An operating system on which every call succeeds, one second apart from call to call.\<close>

definition demo_log_os :: log_os where
  "demo_log_os = \<lparr>os_time = (\<lambda>t. 1000000000 + int (min t 1000)), os_fopen = (\<lambda>t n. True), os_fwrite = (\<lambda>t n. n),
     os_spill = (\<lambda>t n. 0), os_process = \<lparr>sys_gettid = 1, sys_getpid = 1, sys_gethostname = None\<rparr>\<rparr>"

definition empty_log_state :: log_state where
  "empty_log_state = \<lparr>lg_disk = [], lg_count = 0, lg_tick = 0\<rparr>"

lemma demo_log_os_ok: "log_os_ok demo_log_os" "hostname_fits demo_log_os" "os_fopen demo_log_os t n"
  by (simp_all add: log_os_ok_def demo_log_os_def hostname_fits_def fwrite_progress_def in_calendar_def min.strict_coboundedI2)

text \<open>\<^verbatim>\<open>AppendFile::Append\<close> returns; it appends a prefix of the slice to the file and leaves the other files alone; the
  prefix is the whole slice when every write makes progress. \<^verbatim>\<open>has_written_\<close> grows by the size of the slice, written or not.\<close>

lemma AppendFile_Append_correct:
  assumes "Slice_valid s"
  shows "okR (AppendFile_Append os s f st) (\<lambda>(f', st'). \<exists>w \<le> slice_size s.
    lg_disk (AppendFile_delete f' st') = disk_append (af_name f) (take w (Slice_str s)) (lg_disk (AppendFile_delete f st)) \<and>
    (fwrite_progress os \<longrightarrow> w = slice_size s) \<and> has_written f' = has_written f + slice_size s)"
proof -
  have len: "length (Slice_str s) = slice_size s" using assms by (simp add: Slice_valid_def Slice_str_def)
  have "okR (AppendFile_Append os s f st) (\<lambda>(f', st').
      writes os (Slice_str s) f st f' st' \<and> has_written f' = has_written f + slice_size s)"
    using assms by (intro AppendFile_Append_spec) (simp_all add: Slice_valid_def)
  then show ?thesis
    by (rule okR_mono) (auto simp: writes_def len settled_def AppendFile_delete_def disk_append_append)
qed

text \<open>C14: a log that is opened on an empty directory, written to and closed loses nothing: the files, in the order they
  were opened, hold the slices in order; no two have the same name; and each is at most 100 MB plus the largest slice
  long.\<close>

theorem LogFile_integrity:
  assumes "log_os_ok os" "lg_disk st = []" "\<forall>s \<in> set ss. Slice_valid s \<and> slice_size s \<le> B"
    and "bindR (LogFile_new os garbage base st) (foldR (\<lambda>s (lf, st). LogFile_Append os s lf st) ss) = Inr (lf', st')"
    and "d = lg_disk (LogFile_delete lf' st')"
  shows "concat (map snd d) = concat (map Slice_str ss) \<and> distinct (map fst d) \<and>
    (\<forall>p \<in> set d. length (snd p) \<le> 100 * 1024 * 1024 + B)"
proof -
  have "safeR (bindR (LogFile_new os garbage base st) (foldR (\<lambda>s (lf, st). LogFile_Append os s lf st) ss))
      (LogFile_inv B os ([] @ concat (map Slice_str ss)))"
    unfolding safeR_bindR
    by (rule safeR_mono [OF LogFile_new_ok [OF assms(1,2)]]) (rule LogFile_run_keeps [OF assms(1,3)])
  then have "LogFile_inv B os (concat (map Slice_str ss)) (lf', st')" using assms(4) by (simp add: safeR_def)
  from LogFile_inv_disk [OF this] show ?thesis by (simp add: assms(5) kRollingSize_def)
qed

theorem LogFile_integrity_witness:
  "\<exists>lf' st'. bindR (LogFile_new demo_log_os 0 ''log'' empty_log_state)
      (foldR (\<lambda>s (lf, st). LogFile_Append demo_log_os s lf st) [Slice_string ''hi'']) = Inr (lf', st') \<and>
    concat (map snd (lg_disk (LogFile_delete lf' st'))) = ''hi''"
proof -
  obtain lf st f where lf: "LogFile_new demo_log_os 0 ''log'' empty_log_state = Inr (lf, st)" "lf_file lf = Some f"
      "has_written f = 0" "lg_count st = 0"
    by (simp add: LogFile_new_def rollToNewFile_eq [OF demo_log_os_ok(2,3)] Let_def)
      (simp add: demo_log_os_def empty_log_state_def)
  have v: "Slice_valid (Slice_string ''hi'')" "slice_size (Slice_string ''hi'') \<le> 2" "Slice_str (Slice_string ''hi'') = ''hi''"
    by (simp_all add: Slice_valid_def Slice_string_def Slice_str_def max_size_def)
  then have "okR (LogFile_Append demo_log_os (Slice_string ''hi'') lf st) (\<lambda>(lf', st'). True)"
    using lf by (intro LogFile_Append_quiet [OF lf(2)]) (simp_all add: kRollingSize_def kCheckInterval_def)
  then obtain lf' st' where "LogFile_Append demo_log_os (Slice_string ''hi'') lf st = Inr (lf', st')" by (auto simp: okR_def)
  then have run: "bindR (LogFile_new demo_log_os 0 ''log'' empty_log_state)
      (foldR (\<lambda>s (lf, st). LogFile_Append demo_log_os s lf st) [Slice_string ''hi'']) = Inr (lf', st')"
    using lf by simp
  then show ?thesis
    using LogFile_integrity [OF demo_log_os_ok(1) _ _ run refl, of 2] v by (simp add: empty_log_state_def)
qed

text \<open>The constructor of \<^verbatim>\<open>LogFile\<close> compares the clock with the uninitialised \<^verbatim>\<open>last_roll_\<close>: it ends the program by a failed
  assertion exactly when the value found there is not less than the current time.\<close>

lemma LogFile_new_uninitialised:
  assumes "hostname_fits os" "\<And>t n. os_fopen os t n"
  shows "LogFile_new os garbage base st = Inl Assertion_failed \<longleftrightarrow> os_time os (lg_tick st) \<le> garbage"
  by (simp add: LogFile_new_def rollToNewFile_eq [OF assms] Let_def assertR_def)

text \<open>C30: when the files can be opened, \<^verbatim>\<open>LogFile::Append\<close> fails exactly when it has to roll, because the file is now larger than 100 MB
  or because at the 1024th call since the last check the day has changed, and the time that this roll reads is not later than that of the last
  roll: the assertion of \<^verbatim>\<open>rollToNewFile\<close>. So it does fail when 100 MB are exceeded within the second of the last roll. Here
  \<open>st'\<close> is the state after the data has been written, whose tick is that of the next look at the clock.\<close>

theorem LogFile_Append_roll_assertion:
  assumes "hostname_fits os" "\<And>t n. os_fopen os t n" "lf_file lf = Some f" "Slice_valid s"
  shows "\<exists>f' st'. AppendFile_Append os s f st = Inr (f', st') \<and> has_written f' = has_written f + slice_size s \<and>
    (\<forall>e. LogFile_Append os s lf st = Inl e \<longleftrightarrow> e = Assertion_failed \<and>
      (if 100 * 1024 * 1024 < has_written f + slice_size s then os_time os (lg_tick st') \<le> last_roll lf
       else 1024 \<le> lg_count st' + 1 \<and> os_time os (lg_tick st') sdiv (24 * 60 * 60) * (24 * 60 * 60) \<noteq> start_period lf \<and>
            os_time os (lg_tick st' + 1) \<le> last_roll lf))"
proof -
  have "okR (AppendFile_Append os s f st) (\<lambda>(f', st').
      writes os (Slice_str s) f st f' st' \<and> has_written f' = has_written f + slice_size s)"
    using assms(4) by (intro AppendFile_Append_spec) (simp_all add: Slice_valid_def)
  then obtain f' st' where a: "AppendFile_Append os s f st = Inr (f', st')" "has_written f' = has_written f + slice_size s"
    by (auto simp: okR_def)
  have roll: "rollToNewFile os (lf\<lparr>lf_file := Some f'\<rparr>) su = Inl e \<longleftrightarrow> e = Assertion_failed \<and> os_time os (lg_tick su) \<le> last_roll lf" for su e
    by (auto simp: rollToNewFile_eq [OF assms(1,2)] Let_def assertR_def)
  have "LogFile_Append os s lf st = Inl e \<longleftrightarrow> e = Assertion_failed \<and>
      (if 100 * 1024 * 1024 < has_written f' then os_time os (lg_tick st') \<le> last_roll lf
       else 1024 \<le> lg_count st' + 1 \<and> os_time os (lg_tick st') sdiv (24 * 60 * 60) * (24 * 60 * 60) \<noteq> start_period lf \<and>
            os_time os (lg_tick st' + 1) \<le> last_roll lf)" for e
    using assms(3) a(1) by (auto simp: LogFile_Append_def Let_def roll kRollingSize_def kCheckInterval_def kRollPerDay_def split: prod.splits)
  with a show ?thesis by (intro exI [of _ f'] exI [of _ st']) simp
qed

text \<open>The same call with a full file, in the second of the last roll and later.\<close>

theorem LogFile_Append_roll_assertion_witness:
  "LogFile_Append demo_log_os (Slice_string ''hi'') \<lparr>lf_basename = ''log'',
      lf_file = Some \<lparr>af_name = ''f'', af_pending = [], has_written = 104857600\<rparr>,
      last_roll = 1000001000, last_flush = 0, start_period = 0\<rparr> empty_log_state = Inl Assertion_failed \<and>
   (\<forall>e. LogFile_Append demo_log_os (Slice_string ''hi'') \<lparr>lf_basename = ''log'',
      lf_file = Some \<lparr>af_name = ''f'', af_pending = [], has_written = 104857600\<rparr>,
      last_roll = 7, last_flush = 0, start_period = 0\<rparr> empty_log_state \<noteq> Inl e)"
proof -
  let ?lf = "\<lambda>r. \<lparr>lf_basename = ''log'', lf_file = Some \<lparr>af_name = ''f'', af_pending = [], has_written = 104857600\<rparr>,
      last_roll = r, last_flush = 0, start_period = 0\<rparr>"
  have s: "Slice_valid (Slice_string ''hi'')" "slice_size (Slice_string ''hi'') = 2"
    by (simp_all add: Slice_valid_def Slice_string_def max_size_def)
  have t: "\<not> os_time demo_log_os t \<le> 7" "os_time demo_log_os t \<le> 1000001000" for t by (simp_all add: demo_log_os_def)
  have lf: "lf_file (?lf r) = Some \<lparr>af_name = ''f'', af_pending = [], has_written = 104857600\<rparr>" for r by simp
  have "LogFile_Append demo_log_os (Slice_string ''hi'') (?lf 1000001000) empty_log_state = Inl Assertion_failed"
    using LogFile_Append_roll_assertion [OF demo_log_os_ok(2,3) lf [of 1000001000] s(1), where st = empty_log_state] s(2) t by auto
  moreover have "LogFile_Append demo_log_os (Slice_string ''hi'') (?lf 7) empty_log_state \<noteq> Inl e" for e
    using LogFile_Append_roll_assertion [OF demo_log_os_ok(2,3) lf [of 7] s(1), where st = empty_log_state] s(2) t by auto
  ultimately show ?thesis by blast
qed

end
