(* ===== verification/Async_Log.thy ===== *)
theory Async_Log
  imports Log_Files
begin

text \<open>
  \<^verbatim>\<open>AsyncLogging\<close> (log/async_logging.h, log/async_logging.cc): the front end that any thread may append to and the worker
  thread that writes the buffers to the log file. A \<^verbatim>\<open>unique_ptr\<close> is an \<open>option\<close>, \<open>None\<close> when it is null. The operations
  are functions; their interleaving is the step relation \<open>async_step\<close>, whose steps are the sections under the
  mutex and the work of the worker between them. A wait that times out or wakes up is one step, which may
  come at any time. Shown: nothing appended is lost or reordered while the worker runs, the worker's assertions
  hold and its pointers are not null; but what is in the buffers when the worker is stopped is never written.
\<close>

section \<open>The object and its operations\<close>

record AsyncLogging =
  cur_buffer :: "FixedBuffer option"
  next_buffer :: "FixedBuffer option"
  al_buffers :: "FixedBuffer option list"
  al_thread :: bool
  al_done :: bool
  log_file :: LogFile
  al_os :: log_state

definition AsyncLogging_new :: "log_os \<Rightarrow> int \<Rightarrow> string \<Rightarrow> log_state \<Rightarrow> AsyncLogging result" where
  "AsyncLogging_new os garbage filename st =
     bindR (LogFile_new os garbage filename st) (\<lambda>(lf, st).
       Inr \<lparr>cur_buffer = Some (FixedBuffer_new kSmallBufferSize), next_buffer = Some (FixedBuffer_new kSmallBufferSize),
            al_buffers = [], al_thread = False, al_done = False, log_file = lf, al_os = st\<rparr>)"

definition AsyncLogging_Append :: "Slice \<Rightarrow> AsyncLogging \<Rightarrow> AsyncLogging result" where
  "AsyncLogging_Append s al =
     ptrR Null_dereference (cur_buffer al) (\<lambda>cur.
       if slice_size s \<le> FixedBuffer_space cur
       then bindR (FixedBuffer_append s cur) (\<lambda>cur. Inr (al\<lparr>cur_buffer := Some cur\<rparr>))
       else
         let al = al\<lparr>al_buffers := al_buffers al @ [Some cur]\<rparr>;
             (cur, next) = (case next_buffer al of
                Some b \<Rightarrow> (b, None)
              | None \<Rightarrow> (FixedBuffer_new kSmallBufferSize, None))
         in bindR (FixedBuffer_append s cur) (\<lambda>cur. Inr (al\<lparr>cur_buffer := Some cur, next_buffer := next\<rparr>)))"

text \<open>The local variables of \<^verbatim>\<open>ThreadFunction\<close>.\<close>

record worker =
  tempBuffer1 :: "FixedBuffer option"
  tempBuffer2 :: "FixedBuffer option"
  tempBuffers :: "FixedBuffer option list"

definition worker_start :: worker where
  "worker_start = \<lparr>tempBuffer1 = Some (FixedBuffer_new kSmallBufferSize),
     tempBuffer2 = Some (FixedBuffer_new kSmallBufferSize), tempBuffers = []\<rparr>"

definition worker_asserts :: "worker \<Rightarrow> bool" where
  "worker_asserts w \<longleftrightarrow> tempBuffer1 w \<noteq> None \<and> tempBuffer2 w \<noteq> None \<and> tempBuffers w = []"

text \<open>The swaps under the mutex.\<close>

definition worker_swap :: "worker \<Rightarrow> AsyncLogging \<Rightarrow> worker \<times> AsyncLogging" where
  "worker_swap w al =
     (let (temp1, cur) = (cur_buffer al, tempBuffer1 w);
          (temp2, next) = (if next_buffer al = None then (next_buffer al, tempBuffer2 w) else (tempBuffer2 w, next_buffer al))
      in (\<lparr>tempBuffer1 = temp1, tempBuffer2 = temp2, tempBuffers = al_buffers al\<rparr>,
          al\<lparr>cur_buffer := cur, next_buffer := next, al_buffers := tempBuffers w\<rparr>))"

text \<open>Moving the two temporary buffers to the end of the vector.\<close>

definition worker_collect :: "worker \<Rightarrow> worker" where
  "worker_collect w =
     (let w = w\<lparr>tempBuffers := tempBuffers w @ [tempBuffer1 w], tempBuffer1 := None\<rparr>
      in if tempBuffer2 w \<noteq> None then w\<lparr>tempBuffers := tempBuffers w @ [tempBuffer2 w], tempBuffer2 := None\<rparr> else w)"

text \<open>One iteration of the loop that writes.\<close>

definition worker_write :: "log_os \<Rightarrow> FixedBuffer option \<Rightarrow> AsyncLogging \<Rightarrow> AsyncLogging result" where
  "worker_write os it al =
     ptrR Null_dereference it (\<lambda>b.
     bindR (LogFile_Append os (FixedBuffer_slice b) (log_file al) (al_os al)) (\<lambda>(lf, st).
     Inr (al\<lparr>log_file := lf, al_os := st\<rparr>)))"

text \<open>From \<^verbatim>\<open>resize(2)\<close> to the end of the loop's body.\<close>

definition worker_recycle :: "worker \<Rightarrow> worker result" where
  "worker_recycle w =
     (let temps = take 2 (tempBuffers w @ [None, None])
      in ptrR Null_dereference (last temps) (\<lambda>b1.
         ptrR Null_dereference (last (butlast temps)) (\<lambda>b2.
         Inr \<lparr>tempBuffer1 = Some (FixedBuffer_reset b1), tempBuffer2 = Some (FixedBuffer_reset b2), tempBuffers = []\<rparr>)))"

text \<open>\<^verbatim>\<open>StartWorker\<close> replaces the thread object; replacing one that is still joinable ends the program.\<close>

definition StartWorker :: "AsyncLogging \<Rightarrow> AsyncLogging result" where
  "StartWorker al = (if al_thread al then Inl Aborted else Inr (al\<lparr>al_thread := True\<rparr>))"

text \<open>\<^verbatim>\<open>StopWorker\<close> up to \<^verbatim>\<open>join\<close>, which is called through \<^verbatim>\<open>thread_\<close>. The effect of \<^verbatim>\<open>join\<close> on the thread object is not
  part of the state: the model follows one start and one stop, and not what a second \<^verbatim>\<open>StartWorker\<close> or \<^verbatim>\<open>StopWorker\<close>
  after \<^verbatim>\<open>join\<close> would do.\<close>

definition StopWorker_request :: "AsyncLogging \<Rightarrow> AsyncLogging result" where
  "StopWorker_request al =
     (let al = al\<lparr>al_done := True\<rparr> in if al_thread al then Inr al else Inl Null_dereference)"

section \<open>Interleaving\<close>

text \<open>Where the worker is: not started by \<^verbatim>\<open>StartWorker\<close>; at the test of \<^verbatim>\<open>done\<close>; in \<^verbatim>\<open>wait_for\<close>; writing, with the
  buffers still to write; returned, so that \<^verbatim>\<open>join\<close> in \<^verbatim>\<open>StopWorker\<close> returns.\<close>

datatype worker_pc = Not_running | Checking | Waiting | Writing "FixedBuffer option list" | Exited

record async =
  as_log :: AsyncLogging
  as_worker :: worker
  as_pc :: worker_pc
  as_appended :: string

text \<open>What follows the wait: swap, collect, start to write.\<close>

definition async_take :: "async \<Rightarrow> async" where
  "async_take a =
     (let (w, al) = worker_swap (as_worker a) (as_log a); w = worker_collect w
      in a\<lparr>as_log := al, as_worker := w, as_pc := Writing (tempBuffers w)\<rparr>)"

inductive async_step :: "log_os \<Rightarrow> async \<Rightarrow> async \<Rightarrow> bool" for os where
  append: "Slice_valid s \<Longrightarrow> AsyncLogging_Append s (as_log a) = Inr al \<Longrightarrow>
    async_step os a (a\<lparr>as_log := al, as_appended := as_appended a @ Slice_str s\<rparr>)"
| start: "as_pc a = Not_running \<Longrightarrow> StartWorker (as_log a) = Inr al \<Longrightarrow>
    async_step os a (a\<lparr>as_log := al, as_worker := worker_start, as_pc := Checking\<rparr>)"
| lock: "as_pc a = Checking \<Longrightarrow> \<not> al_done (as_log a) \<Longrightarrow> worker_asserts (as_worker a) \<Longrightarrow> al_buffers (as_log a) \<noteq> [] \<Longrightarrow>
    async_step os a (async_take a)"
| wait: "as_pc a = Checking \<Longrightarrow> \<not> al_done (as_log a) \<Longrightarrow> worker_asserts (as_worker a) \<Longrightarrow> al_buffers (as_log a) = [] \<Longrightarrow>
    async_step os a (a\<lparr>as_pc := Waiting\<rparr>)"
| wake: "as_pc a = Waiting \<Longrightarrow> async_step os a (async_take a)"
| write_one: "as_pc a = Writing (b # bs) \<Longrightarrow> worker_write os b (as_log a) = Inr al \<Longrightarrow>
    async_step os a (a\<lparr>as_log := al, as_pc := Writing bs\<rparr>)"
| recycle: "as_pc a = Writing [] \<Longrightarrow> worker_recycle (as_worker a) = Inr w \<Longrightarrow>
    async_step os a (a\<lparr>as_worker := w, as_pc := Checking\<rparr>)"
| leave: "as_pc a = Checking \<Longrightarrow> al_done (as_log a) \<Longrightarrow> async_step os a (a\<lparr>as_pc := Exited\<rparr>)"
| stop: "StopWorker_request (as_log a) = Inr al \<Longrightarrow> async_step os a (a\<lparr>as_log := al\<rparr>)"

definition async_init :: "log_os \<Rightarrow> async \<Rightarrow> bool" where
  "async_init os a \<longleftrightarrow> log_os_ok os \<and> as_worker a = worker_start \<and> as_pc a = Not_running \<and> as_appended a = [] \<and>
     (\<exists>garbage filename st. lg_disk st = [] \<and> AsyncLogging_new os garbage filename st = Inr (as_log a))"

section \<open>The invariant\<close>

definition buf_ok :: "FixedBuffer option \<Rightarrow> bool" where
  "buf_ok b \<longleftrightarrow> (case b of None \<Rightarrow> False | Some b \<Rightarrow> LogStream_inv b)"

definition buf_content :: "FixedBuffer option \<Rightarrow> string" where
  "buf_content b = (case b of None \<Rightarrow> [] | Some b \<Rightarrow> FixedBuffer_content b)"

definition buf_empty :: "FixedBuffer option \<Rightarrow> bool" where
  "buf_empty b \<longleftrightarrow> buf_ok b \<and> buf_content b = []"

text \<open>What the front end holds, oldest first.\<close>

definition front_content :: "AsyncLogging \<Rightarrow> string" where
  "front_content al = concat (map buf_content (al_buffers al)) @ buf_content (cur_buffer al)"

definition front_inv :: "AsyncLogging \<Rightarrow> bool" where
  "front_inv al \<longleftrightarrow> buf_ok (cur_buffer al) \<and> (next_buffer al = None \<and> al_buffers al \<noteq> [] \<or> buf_empty (next_buffer al)) \<and>
     list_all buf_ok (al_buffers al)"

fun in_flight :: "worker_pc \<Rightarrow> FixedBuffer option list" where
  "in_flight (Writing bs) = bs"
| "in_flight _ = []"

fun worker_inv :: "worker \<Rightarrow> worker_pc \<Rightarrow> bool" where
  "worker_inv w (Writing bs) \<longleftrightarrow> list_all buf_ok (tempBuffers w) \<and> list_all buf_ok bs \<and> 2 \<le> length (tempBuffers w)"
| "worker_inv w Exited \<longleftrightarrow> True"
| "worker_inv w pc \<longleftrightarrow> buf_empty (tempBuffer1 w) \<and> buf_empty (tempBuffer2 w) \<and> tempBuffers w = []"

definition async_inv :: "log_os \<Rightarrow> async \<Rightarrow> bool" where
  "async_inv os a \<longleftrightarrow> log_os_ok os \<and> front_inv (as_log a) \<and> worker_inv (as_worker a) (as_pc a) \<and>
     (\<exists>W. LogFile_inv kSmallBufferSize os W (log_file (as_log a), al_os (as_log a)) \<and>
          as_appended a = W @ concat (map buf_content (in_flight (as_pc a))) @ front_content (as_log a))"

lemma buf_simps [simp]:
  "buf_ok (Some b) \<longleftrightarrow> LogStream_inv b" "\<not> buf_ok None" "buf_content (Some b) = FixedBuffer_content b" "\<not> buf_empty None"
  "buf_empty (Some (FixedBuffer_new kSmallBufferSize))"
  using LogStream_new_inv by (simp_all add: buf_ok_def buf_content_def buf_empty_def LogStream_new_def)

lemma buf_reset [simp]: "LogStream_inv b \<Longrightarrow> buf_empty (Some (FixedBuffer_reset b))"
  by (simp add: buf_empty_def LogStream_inv_def FixedBuffer_reset_def FixedBuffer_inv_def FixedBuffer_content_def)

text \<open>Appending to the front end: the bytes go to the end of what it holds, or the slice is larger than a buffer.\<close>

lemma AsyncLogging_Append_spec:
  assumes inv: "front_inv al" and s: "Slice_valid s"
  shows "if slice_size s \<le> kSmallBufferSize
    then okR (AsyncLogging_Append s al) (\<lambda>al'. front_inv al' \<and> front_content al' = front_content al @ Slice_str s \<and>
           log_file al' = log_file al \<and> al_os al' = al_os al \<and> al_thread al' = al_thread al \<and> al_done al' = al_done al)
    else AsyncLogging_Append s al = Inl Assertion_failed"
proof -
  obtain cur where cur: "cur_buffer al = Some cur" "LogStream_inv cur"
    using inv by (cases "cur_buffer al") (auto simp: front_inv_def)
  have len: "length (Slice_str s) = slice_size s" "slice_size s \<le> length (slice_data s)"
    using s by (simp_all add: Slice_valid_def Slice_str_def)
  have app: "appends (Slice_str s) b (FixedBuffer_append s b)" if "LogStream_inv b" for b
    using LogStream_append_spec [OF that len(2)] by (simp add: LogStream_append_def)
  have cs: "fb_cur cur \<le> kSmallBufferSize" "FixedBuffer_space cur = kSmallBufferSize - fb_cur cur"
    using cur(2) by (auto simp: LogStream_inv_def FixedBuffer_inv_def FixedBuffer_space_def)
  show ?thesis
  proof (cases "slice_size s \<le> FixedBuffer_space cur")
    case True
    then have "fb_cur cur + length (Slice_str s) \<le> kSmallBufferSize" using cs len(1) by simp
    then have "okR (FixedBuffer_append s cur) (\<lambda>b. LogStream_inv b \<and> FixedBuffer_content b = FixedBuffer_content cur @ Slice_str s)"
      using app [OF cur(2)] by (auto simp: appends_def okR_def)
    then obtain b where "FixedBuffer_append s cur = Inr b" "LogStream_inv b" "FixedBuffer_content b = FixedBuffer_content cur @ Slice_str s"
      by (auto simp: okR_def)
    moreover have "slice_size s \<le> kSmallBufferSize" using True cs by simp
    ultimately show ?thesis using True cur inv by (simp add: AsyncLogging_Append_def front_inv_def front_content_def)
  next
    case False
    define new where "new = (case next_buffer al of Some b \<Rightarrow> b | None \<Rightarrow> FixedBuffer_new kSmallBufferSize)"
    have new: "LogStream_inv new" "FixedBuffer_content new = []" "fb_cur new = 0"
    proof -
      have "buf_empty (Some new)" using inv by (auto simp: front_inv_def new_def split: option.split)
      then show "LogStream_inv new" "FixedBuffer_content new = []" by (simp_all add: buf_empty_def)
      then show "fb_cur new = 0" by (auto simp: LogStream_inv_def FixedBuffer_inv_def FixedBuffer_content_def kSmallBufferSize_def)
    qed
    have eq: "AsyncLogging_Append s al = bindR (FixedBuffer_append s new) (\<lambda>b.
        Inr (al\<lparr>al_buffers := al_buffers al @ [Some cur], cur_buffer := Some b, next_buffer := None\<rparr>))"
      using False cur(1) by (simp add: AsyncLogging_Append_def new_def split: option.split)
    show ?thesis
    proof (cases "slice_size s \<le> kSmallBufferSize")
      case True
      then obtain b where "FixedBuffer_append s new = Inr b" "LogStream_inv b" "FixedBuffer_content b = Slice_str s"
        using app [OF new(1)] new(2,3) len(1) by (auto simp: appends_def okR_def)
      then show ?thesis using True eq cur inv by (simp add: front_inv_def front_content_def)
    next
      case False
      then show ?thesis using app [OF new(1)] new(3) len(1) eq by (simp add: appends_def)
    qed
  qed
qed

lemma AsyncLogging_Append_keeps:
  assumes "front_inv al" "Slice_valid s" "AsyncLogging_Append s al = Inr al'"
  shows "front_inv al' \<and> front_content al' = front_content al @ Slice_str s \<and> log_file al' = log_file al \<and> al_os al' = al_os al"
  using AsyncLogging_Append_spec [OF assms(1,2)] assms(3) by (auto split: if_splits)

text \<open>The front end is a destination for log messages.\<close>

interpretation async_front: log_destination AsyncLogging_Append front_inv front_content
    "\<lambda>s. Slice_valid s \<and> slice_size s \<le> kSmallBufferSize"
proof unfold_locales
  show "okR (AsyncLogging_Append s al) (\<lambda>al'. front_inv al' \<and> front_content al' = front_content al @ Slice_str s)"
    if "front_inv al" "Slice_valid s \<and> slice_size s \<le> kSmallBufferSize" for al s
    using AsyncLogging_Append_spec [of al s] that by (auto intro: okR_mono)
qed

text \<open>The swap hands the worker everything the front end held, as at least two buffers, and leaves it empty ones.\<close>

lemma async_take_spec:
  assumes "front_inv (as_log a)" "buf_empty (tempBuffer1 (as_worker a))" "buf_empty (tempBuffer2 (as_worker a))"
    "tempBuffers (as_worker a) = []"
  shows "front_inv (as_log (async_take a))" "front_content (as_log (async_take a)) = []"
    "worker_inv (as_worker (async_take a)) (as_pc (async_take a))"
    "concat (map buf_content (in_flight (as_pc (async_take a)))) = front_content (as_log a)"
    "log_file (as_log (async_take a)) = log_file (as_log a)" "al_os (as_log (async_take a)) = al_os (as_log a)"
    "as_appended (async_take a) = as_appended a"
proof -
  let ?al = "as_log a" and ?w = "as_worker a"
  have e: "tempBuffer1 ?w \<noteq> None" "tempBuffer2 ?w \<noteq> None" "buf_ok (tempBuffer1 ?w)" "buf_content (tempBuffer1 ?w) = []"
      "buf_ok (tempBuffer2 ?w)" "buf_content (tempBuffer2 ?w) = []"
    using assms(2,3) by (auto simp: buf_empty_def buf_ok_def split: option.splits)
  note defs = async_take_def worker_swap_def worker_collect_def front_inv_def front_content_def Let_def
  have next_cases: "next_buffer ?al = None \<and> al_buffers ?al \<noteq> [] \<or> next_buffer ?al \<noteq> None"
    using assms(1) by (auto simp: front_inv_def)
  have len: "al_buffers ?al \<noteq> [] \<Longrightarrow> Suc 0 \<le> length (al_buffers ?al)" by (cases "al_buffers ?al") simp_all
  show "front_inv (as_log (async_take a))" using assms e by (auto simp: defs)
  show "front_content (as_log (async_take a)) = []" using assms e by (simp add: defs)
  show "worker_inv (as_worker (async_take a)) (as_pc (async_take a))"
    using assms(1) e next_cases len by (auto simp: defs)
  show "concat (map buf_content (in_flight (as_pc (async_take a)))) = front_content (as_log a)"
    using e by (simp add: defs)
qed (simp_all add: async_take_def worker_swap_def Let_def)

lemma worker_recycle_ok:
  assumes "list_all buf_ok (tempBuffers w)" "2 \<le> length (tempBuffers w)"
  shows "okR (worker_recycle w) (\<lambda>w'. buf_empty (tempBuffer1 w') \<and> buf_empty (tempBuffer2 w') \<and> tempBuffers w' = [])"
proof -
  obtain x y ts where t: "tempBuffers w = x # y # ts"
    using assms(2) by (cases "tempBuffers w"; cases "tl (tempBuffers w)") auto
  with assms(1) obtain b1 b2 where "x = Some b1" "y = Some b2" "LogStream_inv b1" "LogStream_inv b2"
    by (cases x; cases y) auto
  then show ?thesis by (simp add: worker_recycle_def t numeral_2_eq_2)
qed

lemma LogStream_slice_valid:
  assumes "LogStream_inv b"
  shows "Slice_valid (FixedBuffer_slice b)" "slice_size (FixedBuffer_slice b) \<le> kSmallBufferSize"
    "Slice_str (FixedBuffer_slice b) = FixedBuffer_content b"
  using assms by (auto simp: LogStream_inv_def FixedBuffer_inv_def FixedBuffer_slice_def Slice_ptr_def Slice_valid_def
      FixedBuffer_size_def Slice_str_def FixedBuffer_content_def)

lemma worker_write_keeps:
  assumes "log_os_ok os" "LogFile_inv kSmallBufferSize os W (log_file al, al_os al)" "buf_ok it" "worker_write os it al = Inr al'"
  shows "LogFile_inv kSmallBufferSize os (W @ buf_content it) (log_file al', al_os al') \<and>
    al' = al\<lparr>log_file := log_file al', al_os := al_os al'\<rparr>"
proof -
  obtain b where b: "it = Some b" "LogStream_inv b" using assms(3) by (cases it) auto
  obtain lf st where r: "LogFile_Append os (FixedBuffer_slice b) (log_file al) (al_os al) = Inr (lf, st)"
    and al': "al' = al\<lparr>log_file := lf, al_os := st\<rparr>"
    using assms(4) by (auto simp: worker_write_def b(1) bindR_eq_Inr)
  from LogFile_Append_keeps [OF assms(1,2) LogStream_slice_valid(1,2) [OF b(2)]] r
  have "LogFile_inv kSmallBufferSize os (W @ FixedBuffer_content b) (lf, st)"
    by (simp add: safeR_def LogStream_slice_valid(3) [OF b(2)])
  then show ?thesis by (simp add: al' b(1))
qed

lemma async_inv_step: "async_step os a a' \<Longrightarrow> async_inv os a \<Longrightarrow> async_inv os a'"
proof (induction rule: async_step.induct)
  case (append s a al)
  then have "front_inv (as_log a)" by (simp add: async_inv_def)
  from AsyncLogging_Append_keeps [OF this append(1,2)] append(3) show ?case by (auto simp: async_inv_def)
next
  case (lock a)
  then have "front_inv (as_log a)" "buf_empty (tempBuffer1 (as_worker a))" "buf_empty (tempBuffer2 (as_worker a))"
    "tempBuffers (as_worker a) = []" by (auto simp: async_inv_def)
  from async_take_spec [OF this] lock show ?case by (auto simp: async_inv_def)
next
  case (wake a)
  then have "front_inv (as_log a)" "buf_empty (tempBuffer1 (as_worker a))" "buf_empty (tempBuffer2 (as_worker a))"
    "tempBuffers (as_worker a) = []" by (auto simp: async_inv_def)
  from async_take_spec [OF this] wake show ?case by (auto simp: async_inv_def)
next
  case (write_one a b bs al)
  then obtain W where W: "LogFile_inv kSmallBufferSize os W (log_file (as_log a), al_os (as_log a))" "log_os_ok os" "buf_ok b"
      "as_appended a = W @ buf_content b @ concat (map buf_content bs) @ front_content (as_log a)"
    by (auto simp: async_inv_def)
  from worker_write_keeps [OF W(2,1,3) write_one(2)]
  have w: "LogFile_inv kSmallBufferSize os (W @ buf_content b) (log_file al, al_os al)"
    and al: "al = (as_log a)\<lparr>log_file := log_file al, al_os := al_os al\<rparr>" by auto
  have "front_inv al = front_inv (as_log a)" "front_content al = front_content (as_log a)"
    by (subst al, simp add: front_inv_def) (subst al, simp add: front_content_def)
  then show ?case using w W write_one by (auto simp: async_inv_def)
next
  case (recycle a w)
  then have "list_all buf_ok (tempBuffers (as_worker a))" "2 \<le> length (tempBuffers (as_worker a))" by (auto simp: async_inv_def)
  from worker_recycle_ok [OF this] recycle show ?case by (auto simp: async_inv_def okR_def)
next
  case (start a al)
  then show ?case by (auto simp: async_inv_def StartWorker_def worker_start_def front_inv_def front_content_def split: if_splits)
next
  case (stop a al)
  then show ?case by (auto simp: async_inv_def StopWorker_request_def front_inv_def front_content_def split: if_splits)
qed (auto simp: async_inv_def)

lemma async_inv_init: "async_init os a \<Longrightarrow> async_inv os a"
proof -
  assume "async_init os a"
  then obtain garbage filename st where os: "log_os_ok os" and st: "lg_disk st = []"
    and a: "as_worker a = worker_start" "as_pc a = Not_running" "as_appended a = []"
    and new: "AsyncLogging_new os garbage filename st = Inr (as_log a)"
    by (auto simp: async_init_def)
  obtain lf su where lf: "LogFile_new os garbage filename st = Inr (lf, su)"
    and al: "as_log a = \<lparr>cur_buffer = Some (FixedBuffer_new kSmallBufferSize), next_buffer = Some (FixedBuffer_new kSmallBufferSize),
            al_buffers = [], al_thread = False, al_done = False, log_file = lf, al_os = su\<rparr>"
    using new by (auto simp: AsyncLogging_new_def bindR_eq_Inr)
  have "LogFile_inv kSmallBufferSize os [] (lf, su)" using LogFile_new_ok [OF os st] lf by (simp add: safeR_def)
  moreover have "buf_ok (Some (FixedBuffer_new kSmallBufferSize))" "buf_content (Some (FixedBuffer_new kSmallBufferSize)) = []"
    using buf_simps(5) unfolding buf_empty_def by blast+
  ultimately show ?thesis using os a by (auto simp: async_inv_def al worker_start_def front_inv_def front_content_def)
qed

interpretation async: invariant_system "async_init os" "async_step os" "async_inv os" for os
  by unfold_locales (auto intro: async_inv_init async_inv_step)

section \<open>Properties\<close>

text \<open>What the log's files hold once the file is closed, oldest first.\<close>

definition async_disk :: "async \<Rightarrow> string" where
  "async_disk a = concat (map snd (lg_disk (LogFile_delete (log_file (as_log a)) (al_os (as_log a)))))"

text \<open>A run on the demonstration system: one message is appended, the worker is started and stopped before its first
  test of \<^verbatim>\<open>done\<close>.\<close>

lemma stopping_run:
  "\<exists>a0 a1 a. async_init demo_log_os a0 \<and> (async_step demo_log_os)\<^sup>*\<^sup>* a0 a1 \<and> al_done (as_log a1) \<and> as_pc a1 = Checking \<and>
     async_step demo_log_os a1 a \<and> as_pc a = Exited \<and> as_appended a = ''lost'' \<and> async_disk a = []"
proof -
  obtain lf st where lf: "LogFile_new demo_log_os 0 ''log'' empty_log_state = Inr (lf, st)"
    by (simp add: LogFile_new_def rollToNewFile_eq [OF demo_log_os_ok(2,3)] Let_def)
      (simp add: demo_log_os_def empty_log_state_def)
  have "LogFile_inv 0 demo_log_os [] (lf, st)"
    using LogFile_new_ok [OF demo_log_os_ok(1), of empty_log_state 0 "''log''" 0] lf by (simp add: safeR_def empty_log_state_def)
  then have disk: "concat (map snd (lg_disk (LogFile_delete lf st))) = []" by (rule LogFile_inv_disk)
  obtain al where al: "AsyncLogging_new demo_log_os 0 ''log'' empty_log_state = Inr al" "log_file al = lf" "al_os al = st" "\<not> al_thread al"
    by (simp add: AsyncLogging_new_def lf)
  define a0 where "a0 = \<lparr>as_log = al, as_worker = worker_start, as_pc = Not_running, as_appended = []\<rparr>"
  have "lg_disk empty_log_state = []" by (simp add: empty_log_state_def)
  then have init: "async_init demo_log_os a0" using al(1) demo_log_os_ok(1) by (auto simp: async_init_def a0_def)
  have s: "Slice_valid (Slice_string ''lost'')" "slice_size (Slice_string ''lost'') \<le> kSmallBufferSize"
      "Slice_str (Slice_string ''lost'') = ''lost''"
    by (simp_all add: Slice_valid_def Slice_string_def Slice_str_def max_size_def kSmallBufferSize_def)
  have fresh: "front_inv al" "front_content al = []"
    using async_inv_init [OF init] by (auto simp: async_inv_def a0_def)
  obtain al1 where al1: "AsyncLogging_Append (Slice_string ''lost'') al = Inr al1" "front_content al1 = ''lost''"
      "log_file al1 = lf" "al_os al1 = st" "\<not> al_thread al1"
    using AsyncLogging_Append_spec [OF fresh(1) s(1)] s al fresh by (auto simp: okR_def)
  let ?a1 = "a0\<lparr>as_log := al1, as_appended := as_appended a0 @ Slice_str (Slice_string ''lost'')\<rparr>"
  let ?a2 = "?a1\<lparr>as_log := (as_log ?a1)\<lparr>al_thread := True\<rparr>, as_worker := worker_start, as_pc := Checking\<rparr>"
  let ?a3 = "?a2\<lparr>as_log := (as_log ?a2)\<lparr>al_done := True\<rparr>\<rparr>"
  let ?a4 = "?a3\<lparr>as_pc := Exited\<rparr>"
  have "async_step demo_log_os a0 ?a1" by (rule async_step.append) (use s al1 in \<open>simp_all add: a0_def\<close>)
  moreover have "async_step demo_log_os ?a1 ?a2" by (rule async_step.start) (use al1(5) in \<open>simp_all add: a0_def StartWorker_def\<close>)
  moreover have "async_step demo_log_os ?a2 ?a3" by (rule async_step.stop) (simp add: StopWorker_request_def)
  moreover have "async_step demo_log_os ?a3 ?a4" by (rule async_step.leave) simp_all
  ultimately have "(async_step demo_log_os)\<^sup>*\<^sup>* a0 ?a3" "async_step demo_log_os ?a3 ?a4"
    by (meson rtranclp.rtrancl_refl rtranclp.rtrancl_into_rtrancl)+
  moreover have "al_done (as_log ?a3)" "as_pc ?a3 = Checking" by simp_all
  moreover have "as_appended ?a4 = ''lost''" "async_disk ?a4 = []" "as_pc ?a4 = Exited"
    using al1 s(3) disk by (simp_all add: a0_def async_disk_def)
  ultimately show ?thesis using init by blast
qed

lemma stopped_run:
  "\<exists>a0 a. async_init demo_log_os a0 \<and> (async_step demo_log_os)\<^sup>*\<^sup>* a0 a \<and> as_pc a = Exited \<and> as_appended a = ''lost'' \<and> async_disk a = []"
  using stopping_run by (meson rtranclp.rtrancl_into_rtrancl)

text \<open>C11: whatever the interleaving of appending threads and worker, every byte that was appended is, in the order of the
  calls, in the log files, or in a buffer the worker is about to write, or in a buffer of the front end.\<close>

theorem AsyncLogging_no_loss:
  assumes "async_init os a0" "(async_step os)\<^sup>*\<^sup>* a0 a"
  shows "as_appended a = async_disk a @ concat (map buf_content (in_flight (as_pc a))) @ front_content (as_log a)"
proof -
  obtain W where W: "LogFile_inv kSmallBufferSize os W (log_file (as_log a), al_os (as_log a))"
      "as_appended a = W @ concat (map buf_content (in_flight (as_pc a))) @ front_content (as_log a)"
    using async.reachable_inv [OF assms] by (auto simp: async_inv_def)
  from LogFile_inv_disk(1) [OF W(1)] W(2) show ?thesis by (simp add: async_disk_def)
qed

theorem AsyncLogging_no_loss_witness:
  "\<exists>a0 a. async_init demo_log_os a0 \<and> (async_step demo_log_os)\<^sup>*\<^sup>* a0 a \<and>
     as_appended a = ''lost'' \<and> async_disk a @ concat (map buf_content (in_flight (as_pc a))) @ front_content (as_log a) = ''lost''"
proof -
  obtain a0 a where r: "async_init demo_log_os a0" "(async_step demo_log_os)\<^sup>*\<^sup>* a0 a" "as_appended a = ''lost''"
    using stopped_run by auto
  with AsyncLogging_no_loss [OF r(1,2)] show ?thesis by auto
qed

text \<open>C16: the worker is safe in every reachable state: the three assertions at the head of its loop hold, the buffers it
  writes are not null, the vector it cuts down to two buffers has two, and an append of at most 4096 bytes
  succeeds.\<close>

theorem AsyncLogging_safe:
  assumes "async_init os a0" "(async_step os)\<^sup>*\<^sup>* a0 a"
  shows "(as_pc a = Checking \<longrightarrow> worker_asserts (as_worker a)) \<and>
    (\<forall>b bs. as_pc a = Writing (b # bs) \<longrightarrow> b \<noteq> None) \<and>
    (as_pc a = Writing [] \<longrightarrow> (\<exists>w. worker_recycle (as_worker a) = Inr w)) \<and>
    (Slice_valid s \<and> slice_size s \<le> 4096 \<longrightarrow> (\<exists>al. AsyncLogging_Append s (as_log a) = Inr al))"
proof -
  have inv: "front_inv (as_log a)" "worker_inv (as_worker a) (as_pc a)"
    using async.reachable_inv [OF assms] by (auto simp: async_inv_def)
  have "as_pc a = Checking \<longrightarrow> worker_asserts (as_worker a)"
    using inv(2) by (auto simp: worker_asserts_def buf_empty_def buf_ok_def split: option.splits)
  moreover have "\<forall>b bs. as_pc a = Writing (b # bs) \<longrightarrow> b \<noteq> None" using inv(2) by (auto simp: buf_ok_def split: option.splits)
  moreover have "as_pc a = Writing [] \<longrightarrow> (\<exists>w. worker_recycle (as_worker a) = Inr w)"
    using inv(2) worker_recycle_ok [of "as_worker a"] by (auto simp: okR_def)
  moreover have "Slice_valid s \<and> slice_size s \<le> 4096 \<longrightarrow> (\<exists>al. AsyncLogging_Append s (as_log a) = Inr al)"
    using AsyncLogging_Append_spec [OF inv(1), of s] by (auto simp: okR_def kSmallBufferSize_def)
  ultimately show ?thesis by blast
qed

theorem AsyncLogging_safe_witness:
  "\<exists>a :: async. as_pc a = Exited \<and> as_appended a = ''lost'' \<and> (\<exists>al. AsyncLogging_Append Slice_default (as_log a) = Inr al)"
proof -
  obtain a0 a where r: "async_init demo_log_os a0" "(async_step demo_log_os)\<^sup>*\<^sup>* a0 a" "as_appended a = ''lost''" "as_pc a = Exited"
    using stopped_run by auto
  have "Slice_valid Slice_default" "slice_size Slice_default \<le> 4096" by (simp_all add: Slice_default_def Slice_valid_def)
  with AsyncLogging_safe [OF r(1,2), of Slice_default] r(3,4) show ?thesis by blast
qed

text \<open>C31: \<^verbatim>\<open>StopWorker\<close> loses what is still in the front end: there is a run in which a message was appended, the worker
  was then stopped and has returned, so that nobody will write the buffers any more, and the files are empty.\<close>

theorem StopWorker_loses_messages:
  "\<exists>os a0 a. async_init os a0 \<and> (async_step os)\<^sup>*\<^sup>* a0 a \<and> as_pc a = Exited \<and> as_appended a = ''lost'' \<and> async_disk a = [] \<and>
     {a'. async_step os a a'} \<subseteq> {a'. async_disk a' = [] \<and> as_pc a' = Exited}"
proof -
  obtain a0 a where r: "async_init demo_log_os a0" "(async_step demo_log_os)\<^sup>*\<^sup>* a0 a" "as_pc a = Exited" "as_appended a = ''lost''"
      "async_disk a = []"
    using stopped_run by auto
  have inv: "front_inv (as_log a)" using async.reachable_inv [OF r(1,2)] by (simp add: async_inv_def)
  have "async_disk a' = [] \<and> as_pc a' = Exited" if "async_step demo_log_os a a'" for a'
    using that
  proof (cases rule: async_step.cases)
    case (append s al)
    then show ?thesis using AsyncLogging_Append_keeps [OF inv append(2,3)] r by (simp add: async_disk_def)
  qed (use r in \<open>auto simp: async_disk_def StopWorker_request_def split: if_splits\<close>)
  then have "{a'. async_step demo_log_os a a'} \<subseteq> {a'. async_disk a' = [] \<and> as_pc a' = Exited}" by blast
  then show ?thesis using r by blast
qed

section \<open>The abstract log\<close>

text \<open>What the asynchronous log promises: the bytes it is given (\<open>given\<close>, the history of all of them) are added to what is
  pending, once each, and a first part of that is moved, in order, to what is written. Nothing else makes bytes
  pending, and nothing that is written changes any more. A step may move nothing.\<close>

record abstract_log =
  given :: string
  written :: string
  pending :: string

inductive log_spec :: "abstract_log \<Rightarrow> abstract_log \<Rightarrow> bool" where
  add: "log_spec l (l\<lparr>given := given l @ s, pending := pending l @ s\<rparr>)"
| flush: "pending l = x @ y \<Longrightarrow> log_spec l (l\<lparr>written := written l @ x, pending := y\<rparr>)"

lemma log_spec_stutter: "log_spec l l"
  using log_spec.add [of l "[]"] by simp

definition abs_log :: "async \<Rightarrow> abstract_log" where
  "abs_log a = \<lparr>given = as_appended a, written = async_disk a,
     pending = concat (map buf_content (in_flight (as_pc a))) @ front_content (as_log a)\<rparr>"

lemma async_disk_eq: "LogFile_inv B os W (log_file (as_log a), al_os (as_log a)) \<Longrightarrow> async_disk a = W"
  unfolding async_disk_def by (rule LogFile_inv_disk)

lemma async_take_abs:
  assumes "front_inv (as_log a)" "buf_empty (tempBuffer1 (as_worker a))" "buf_empty (tempBuffer2 (as_worker a))"
    "tempBuffers (as_worker a) = []" "in_flight (as_pc a) = []"
  shows "abs_log (async_take a) = abs_log a"
  using async_take_spec [OF assms(1-4)] assms(5) by (simp add: abs_log_def async_disk_def)

lemma async_write_abs:
  assumes inv: "async_inv os a" and pc: "as_pc a = Writing (b # bs)" and w: "worker_write os b (as_log a) = Inr al"
  shows "log_spec (abs_log a) (abs_log (a\<lparr>as_log := al, as_pc := Writing bs\<rparr>))"
proof -
  obtain W where W: "LogFile_inv kSmallBufferSize os W (log_file (as_log a), al_os (as_log a))" "log_os_ok os" "buf_ok b"
    using inv pc by (auto simp: async_inv_def)
  from worker_write_keeps [OF W(2,1,3) w]
  have w: "LogFile_inv kSmallBufferSize os (W @ buf_content b) (log_file al, al_os al)"
    and al: "al = (as_log a)\<lparr>log_file := log_file al, al_os := al_os al\<rparr>" by auto
  have "front_content al = front_content (as_log a)" by (subst al) (simp add: front_content_def)
  then have "abs_log (a\<lparr>as_log := al, as_pc := Writing bs\<rparr>) = (abs_log a)\<lparr>written := written (abs_log a) @ buf_content b,
      pending := concat (map buf_content bs) @ front_content (as_log a)\<rparr>"
    using async_disk_eq [of _ os "W @ buf_content b" "a\<lparr>as_log := al, as_pc := Writing bs\<rparr>"] w async_disk_eq [OF W(1)] by (simp add: abs_log_def)
  then show ?thesis using pc log_spec.flush [of "abs_log a" "buf_content b"] by (simp add: abs_log_def)
qed

text \<open>C12: the asynchronous log refines the abstract one. It starts empty, and every step of its interleaved threads, seen through the
  bytes appended so far, the files and the buffers, is a step of the abstract log: an append makes its bytes pending
  once, the worker only moves pending bytes in order to the end of the files, and no step makes up, repeats or drops
  a byte. So what was appended is at any time what is written followed by what is pending.\<close>

theorem AsyncLogging_refines_log:
  assumes "async_init os a0" "(async_step os)\<^sup>*\<^sup>* a0 a" "async_step os a a'"
  shows "abs_log a0 = \<lparr>given = [], written = [], pending = []\<rparr> \<and> log_spec (abs_log a) (abs_log a') \<and>
    given (abs_log a') = written (abs_log a') @ pending (abs_log a')"
proof (intro conjI)
  have inv0: "async_inv os a0" and inv: "async_inv os a"
    using async_inv_init [OF assms(1)] async.reachable_inv [OF assms(1,2)] by auto
  have app: "as_appended a0 = []" using assms(1) by (simp add: async_init_def)
  with inv0 obtain W where "LogFile_inv kSmallBufferSize os W (log_file (as_log a0), al_os (as_log a0))" "W = []"
      "concat (map buf_content (in_flight (as_pc a0))) @ front_content (as_log a0) = []"
    by (auto simp: async_inv_def)
  then show "abs_log a0 = \<lparr>given = [], written = [], pending = []\<rparr>" using app by (simp add: abs_log_def async_disk_eq)
  have "async_inv os a'" by (rule async_inv_step [OF assms(3) inv])
  then show "given (abs_log a') = written (abs_log a') @ pending (abs_log a')"
    by (auto simp: async_inv_def abs_log_def async_disk_eq)
  have front: "front_inv (as_log a)" using inv by (simp add: async_inv_def)
  from assms(3) show "log_spec (abs_log a) (abs_log a')"
  proof (cases rule: async_step.cases)
    case (append s al)
    from AsyncLogging_Append_keeps [OF front append(2,3)] append(1)
    have "abs_log a' = (abs_log a)\<lparr>given := given (abs_log a) @ Slice_str s, pending := pending (abs_log a) @ Slice_str s\<rparr>" by (simp add: abs_log_def async_disk_def)
    then show ?thesis using log_spec.add [of "abs_log a" "Slice_str s"] by simp
  next
    case lock
    then have "abs_log a' = abs_log a" using inv by (auto simp: async_inv_def intro!: async_take_abs)
    then show ?thesis by (simp add: log_spec_stutter)
  next
    case wake
    then have "abs_log a' = abs_log a" using inv by (auto simp: async_inv_def intro!: async_take_abs)
    then show ?thesis by (simp add: log_spec_stutter)
  next
    case (write_one b bs al)
    then show ?thesis using async_write_abs [OF inv write_one(2,3)] by simp
  next
    case (start al)
    then have "abs_log a' = abs_log a"
      by (auto simp: abs_log_def async_disk_def StartWorker_def front_content_def split: if_splits)
    then show ?thesis by (simp add: log_spec_stutter)
  next
    case (stop al)
    then have "abs_log a' = abs_log a"
      by (auto simp: abs_log_def async_disk_def StopWorker_request_def front_content_def split: if_splits)
    then show ?thesis by (simp add: log_spec_stutter)
  qed (simp_all add: abs_log_def async_disk_def log_spec_stutter)
qed

theorem AsyncLogging_refines_log_witness:
  "\<exists>a0 a'. async_init demo_log_os a0 \<and> async_step demo_log_os a0 a' \<and> log_spec (abs_log a0) (abs_log a') \<and>
     given (abs_log a') = ''hi'' \<and> pending (abs_log a') = ''hi''"
proof -
  obtain a0 where init: "async_init demo_log_os a0" using stopped_run by blast
  then have inv: "async_inv demo_log_os a0" by (rule async_inv_init)
  have s: "Slice_valid (Slice_string ''hi'')" "slice_size (Slice_string ''hi'') \<le> kSmallBufferSize"
      "Slice_str (Slice_string ''hi'') = ''hi''"
    by (simp_all add: Slice_valid_def Slice_string_def Slice_str_def max_size_def kSmallBufferSize_def)
  have "front_inv (as_log a0)" using inv by (simp add: async_inv_def)
  from async_front.func_ok [OF this, of "Slice_string ''hi''"] s obtain al where al: "AsyncLogging_Append (Slice_string ''hi'') (as_log a0) = Inr al"
      "front_content al = front_content (as_log a0) @ ''hi''"
    by (auto simp: okR_def)
  let ?a = "a0\<lparr>as_log := al, as_appended := as_appended a0 @ Slice_str (Slice_string ''hi'')\<rparr>"
  have step: "async_step demo_log_os a0 ?a" by (rule async_step.append [OF s(1) al(1)])
  from AsyncLogging_refines_log [OF init rtranclp.rtrancl_refl step]
  have "abs_log a0 = \<lparr>given = [], written = [], pending = []\<rparr>" "log_spec (abs_log a0) (abs_log ?a)" by auto
  moreover from this have "pending (abs_log ?a) = ''hi''" "given (abs_log ?a) = ''hi''" using al(2) s(3) by (simp_all add: abs_log_def)
  ultimately show ?thesis using init step by blast
qed

section \<open>Stopping\<close>

text \<open>The steps of the worker are those that change its position.\<close>

definition worker_step :: "log_os \<Rightarrow> async \<Rightarrow> async \<Rightarrow> bool" where
  "worker_step os a a' \<longleftrightarrow> async_step os a a' \<and> as_pc a' \<noteq> as_pc a"



text \<open>The other threads only append, or stop the worker once more. What they append lengthens the way of a worker that still
  waits, by at most one buffer each time, and not that of a worker that has left the wait.\<close>

lemma async_take_simps [simp]:
  "as_pc (async_take a) \<noteq> Checking" "as_pc (async_take a) \<noteq> Waiting" "as_pc (async_take a) \<noteq> Not_running" "as_pc (async_take a) \<noteq> Exited"
  "al_done (as_log (async_take a)) = al_done (as_log a)" "al_thread (as_log (async_take a)) = al_thread (as_log a)"
  by (simp_all add: async_take_def worker_swap_def Let_def split: prod.splits)


text \<open>Runs in which the steps are counted: \<open>n\<close> steps of the worker, and \<open>w\<close> steps of other threads while the worker waits. Any
  number of steps of other threads may come between them.\<close>

inductive counted_run :: "log_os \<Rightarrow> async \<Rightarrow> nat \<Rightarrow> nat \<Rightarrow> async \<Rightarrow> bool" for os a where
  none: "counted_run os a 0 0 a"
| worker: "counted_run os a n w b \<Longrightarrow> worker_step os b c \<Longrightarrow> counted_run os a (Suc n) w c"
| other: "counted_run os a n w b \<Longrightarrow> async_step os b c \<Longrightarrow> as_pc c = as_pc b \<Longrightarrow>
    counted_run os a n (if as_pc b = Waiting then Suc w else w) c"


lemma counted_run_complete: "(async_step os)\<^sup>*\<^sup>* a b \<Longrightarrow> \<exists>n w. counted_run os a n w b"
proof (induction rule: rtranclp_induct)
  case (step b c)
  then obtain n w where "counted_run os a n w b" by blast
  then show ?case
    using step(2) counted_run.worker [of os a n w b c] counted_run.other [of os a n w b c]
    by (cases "as_pc c = as_pc b") (auto simp: worker_step_def)
qed (auto intro: counted_run.none)







end
