(* ===== verification/Weak_Callbacks.thy ===== *)
theory Weak_Callbacks
  imports Polly_Prelude "HOL-Library.Char_ord" "HOL-Library.List_Lexorder"
begin

text \<open>
  The example examples/callback/weak.cc: \<^verbatim>\<open>shared_from_this\<close> used well and badly, and the \<^verbatim>\<open>StockFactory\<close> that caches the
  stocks in use through weak pointers and a custom deleter. Of the standard library, the control blocks of \<^verbatim>\<open>shared_ptr\<close> are
  modelled: an object, the number of owners, and the weak pointer that \<^verbatim>\<open>enable_shared_from_this\<close> keeps. The test cases of
  the file are definitions too. Shown: one thread at a time, there is at most one live stock for a key and the
  factory's map holds exactly the live stocks; with several threads, a deleter may erase the entry of a newer stock.
\<close>

section \<open>\<open>shared_ptr\<close> and \<open>enable_shared_from_this\<close>\<close>

record ctrl =
  cb_object :: nat
  cb_uses :: nat

record shared_mem =
  live :: "nat list"
  ctrls :: "ctrl list"
  weak_this :: "nat \<Rightarrow> nat option"
  sm_next :: nat

definition empty_mem :: shared_mem where
  "empty_mem = \<lparr>live = [], ctrls = [], weak_this = (\<lambda>_. None), sm_next = 0\<rparr>"

definition new_object :: "shared_mem \<Rightarrow> nat \<times> shared_mem" where
  "new_object m = (sm_next m, m\<lparr>live := sm_next m # live m, sm_next := sm_next m + 1\<rparr>)"

definition delete_object :: "nat \<Rightarrow> shared_mem \<Rightarrow> shared_mem result" where
  "delete_object x m = (if x \<in> set (live m) then Inr (m\<lparr>live := removeAll x (live m)\<rparr>) else Inl Use_after_free)"

text \<open>A \<^verbatim>\<open>shared_ptr\<close> made from a plain pointer owns the object by a new control block, which the object's
  weak pointer gets to know if its class derives from \<^verbatim>\<open>enable_shared_from_this\<close>.\<close>

definition shared_ptr_new :: "bool \<Rightarrow> nat \<Rightarrow> shared_mem \<Rightarrow> nat \<times> shared_mem" where
  "shared_ptr_new enabled x m =
     (length (ctrls m), m\<lparr>ctrls := ctrls m @ [\<lparr>cb_object = x, cb_uses = 1\<rparr>],
        weak_this := (if enabled then (weak_this m)(x \<mapsto> length (ctrls m)) else weak_this m)\<rparr>)"

definition make_shared :: "bool \<Rightarrow> shared_mem \<Rightarrow> nat \<times> shared_mem" where
  "make_shared enabled m = (case new_object m of (x, m) \<Rightarrow> shared_ptr_new enabled x m)"

definition use_count :: "nat \<Rightarrow> shared_mem \<Rightarrow> nat" where
  "use_count p m = cb_uses (ctrls m ! p)"

definition shared_ptr_copy :: "nat \<Rightarrow> shared_mem \<Rightarrow> shared_mem" where
  "shared_ptr_copy p m = m\<lparr>ctrls := (ctrls m)[p := (ctrls m ! p)\<lparr>cb_uses := use_count p m + 1\<rparr>]\<rparr>"

definition shared_ptr_delete :: "nat \<Rightarrow> shared_mem \<Rightarrow> shared_mem result" where
  "shared_ptr_delete p m =
     (let m' = m\<lparr>ctrls := (ctrls m)[p := (ctrls m ! p)\<lparr>cb_uses := use_count p m - 1\<rparr>]\<rparr>
      in if use_count p m' = 0 then delete_object (cb_object (ctrls m ! p)) m' else Inr m')"

definition shared_from_this :: "nat \<Rightarrow> shared_mem \<Rightarrow> (nat \<times> shared_mem) result" where
  "shared_from_this x m =
     (case weak_this m x of
        None \<Rightarrow> Inl Bad_weak_ptr
      | Some p \<Rightarrow> if use_count p m = 0 then Inl Bad_weak_ptr else Inr (p, shared_ptr_copy p m))"

definition Good_getptr :: "nat \<Rightarrow> shared_mem \<Rightarrow> (nat \<times> shared_mem) result" where
  "Good_getptr x m = shared_from_this x m"

definition Bad_getptr :: "nat \<Rightarrow> shared_mem \<Rightarrow> (nat \<times> shared_mem) result" where
  "Bad_getptr x m = Inr (shared_ptr_new False x m)"

text \<open>The test case: the use count it prints, whether the exception was caught, the memory at the end.\<close>

definition test_Example :: "(nat \<times> bool \<times> shared_mem) result" where
  "test_Example =
     (let (gp1, m) = make_shared True empty_mem
      in bindR (Good_getptr (cb_object (ctrls m ! gp1)) m) (\<lambda>(gp2, m).
         let count = use_count gp2 m;
             (not_so_good, m) = new_object m;
             caught = (Good_getptr not_so_good m = Inl Bad_weak_ptr)
         in bindR (delete_object not_so_good m) (\<lambda>m.
            let (bp1, m) = make_shared False m
            in bindR (shared_ptr_delete bp1 m) (\<lambda>m. bindR (shared_ptr_delete gp2 m) (\<lambda>m.
               bindR (shared_ptr_delete gp1 m) (\<lambda>m. Inr (count, caught, m)))))))"

text \<open>The two lines that are commented out in it.\<close>

definition bad_lines :: "shared_mem result" where
  "bad_lines =
     (let (bp1, m) = make_shared False empty_mem
      in bindR (Bad_getptr (cb_object (ctrls m ! bp1)) m) (\<lambda>(bp2, m).
         bindR (shared_ptr_delete bp2 m) (shared_ptr_delete bp1)))"

section \<open>\<open>Stock\<close> and \<open>StockFactory\<close>\<close>

record Stock =
  stock_key :: string
  stock_uses :: nat

text \<open>The factory with its number of owners, and the stocks that exist with theirs. A weak pointer is \<open>None\<close> when it is
  empty.\<close>

record StockFactory =
  fa_uses :: nat
  stocks :: "(string \<times> nat option) list"
  stock_heap :: "nat \<rightharpoonup> Stock"
  stock_next :: nat

definition StockFactory_new :: StockFactory where
  "StockFactory_new = \<lparr>fa_uses = 1, stocks = [], stock_heap = Map.empty, stock_next = 0\<rparr>"

text \<open>\<^verbatim>\<open>weak_ptr::lock\<close>: a further owner, unless there is none.\<close>

definition weak_lock :: "nat option \<Rightarrow> StockFactory \<Rightarrow> (nat \<times> StockFactory) option" where
  "weak_lock p f =
     (case p of
        None \<Rightarrow> None
      | Some i \<Rightarrow>
          case stock_heap f i of
            None \<Rightarrow> None
          | Some s \<Rightarrow> if stock_uses s = 0 then None
                      else Some (i, f\<lparr>stock_heap := (stock_heap f)(i \<mapsto> s\<lparr>stock_uses := stock_uses s + 1\<rparr>)\<rparr>))"

text \<open>\<^verbatim>\<open>get\<close>: \<^verbatim>\<open>stocks_[key]\<close> makes an empty entry if there is none.\<close>

definition StockFactory_get :: "string \<Rightarrow> StockFactory \<Rightarrow> nat \<times> StockFactory" where
  "StockFactory_get key f =
     (let f = (if map_of (stocks f) key = None then f\<lparr>stocks := map_assign key None (stocks f)\<rparr> else f)
      in case weak_lock (the (map_of (stocks f) key)) f of
           Some ret \<Rightarrow> ret
         | None \<Rightarrow>
             let ret = stock_next f
             in (ret, f\<lparr>stock_heap := (stock_heap f)(ret \<mapsto> \<lparr>stock_key = key, stock_uses = 1\<rparr>), stock_next := ret + 1,
                        stocks := map_assign key (Some ret) (stocks f)\<rparr>))"

definition StockFactory_size :: "StockFactory \<Rightarrow> nat" where
  "StockFactory_size f = length (stocks f)"

definition StockFactory_deleteSock :: "nat \<Rightarrow> StockFactory \<Rightarrow> StockFactory result" where
  "StockFactory_deleteSock i f =
     ptrR Use_after_free (stock_heap f i) (\<lambda>s. Inr (f\<lparr>stocks := map_erase (stock_key s) (stocks f)\<rparr>))"

text \<open>The deleter: the factory is told if it still exists, then the stock is deleted.\<close>

definition stock_deleter :: "nat \<Rightarrow> StockFactory \<Rightarrow> StockFactory result" where
  "stock_deleter i f =
     bindR (if 0 < fa_uses f then StockFactory_deleteSock i f else Inr f) (\<lambda>f.
     ptrR Use_after_free (stock_heap f i) (\<lambda>_. Inr (f\<lparr>stock_heap := (stock_heap f)(i := None)\<rparr>)))"

text \<open>An owner of a stock gives it up; the last one leaves it to the deleter.\<close>

definition stock_drop :: "nat \<Rightarrow> StockFactory \<Rightarrow> (bool \<times> StockFactory) result" where
  "stock_drop i f =
     ptrR Use_after_free (stock_heap f i) (\<lambda>s.
     Inr (stock_uses s = 1, f\<lparr>stock_heap := (stock_heap f)(i \<mapsto> s\<lparr>stock_uses := stock_uses s - 1\<rparr>)\<rparr>))"

definition stock_release :: "nat \<Rightarrow> StockFactory \<Rightarrow> StockFactory result" where
  "stock_release i f = bindR (stock_drop i f) (\<lambda>(last, f). if last then stock_deleter i f else Inr f)"

definition StockFactory_release :: "StockFactory \<Rightarrow> StockFactory" where
  "StockFactory_release f = f\<lparr>fa_uses := fa_uses f - 1\<rparr>"

text \<open>The three test cases: whether their expectations are met, and the state at the end.\<close>

definition test_Exception :: "bool \<times> shared_mem result" where
  "test_Exception = (case new_object empty_mem of (factory, m) \<Rightarrow> (shared_from_this factory m = Inl Bad_weak_ptr, delete_object factory m))"

definition test_Stock :: "(bool \<times> StockFactory) result" where
  "test_Stock =
     (let (ibm, f) = StockFactory_get ''NYSE:IBM'' StockFactory_new;
          (ibm2, f) = StockFactory_get ''NYSE:IBM'' f
      in bindR (stock_release ibm2 f) (\<lambda>f. bindR (stock_release ibm f) (\<lambda>f.
         Inr (ibm = ibm2 \<and> StockFactory_size f = 0, f))))"

definition test_StockFactory :: "(bool \<times> StockFactory) result" where
  "test_StockFactory =
     (let (ibm, f) = StockFactory_get ''NYSE:IBM'' StockFactory_new;
          (ibm2, f) = StockFactory_get ''NYSE:IBM'' f
      in bindR (stock_release ibm2 f) (\<lambda>f.
         let f = StockFactory_release f
         in bindR (stock_release ibm f) (\<lambda>f. Inr (ibm = ibm2, f))))"

section \<open>Several threads\<close>

text \<open>The deleter of a stock runs after its last owner is gone, not at once: \<open>dying\<close> are the stocks between the two.\<close>

record stock_run =
  sr_factory :: StockFactory
  dying :: "nat list"

inductive stock_step :: "stock_run \<Rightarrow> stock_run \<Rightarrow> bool" where
  get: "StockFactory_get key (sr_factory r) = (i, f) \<Longrightarrow> stock_step r (r\<lparr>sr_factory := f\<rparr>)"
| drop: "stock_heap (sr_factory r) i = Some s \<Longrightarrow> 0 < stock_uses s \<Longrightarrow> stock_drop i (sr_factory r) = Inr (l, f) \<Longrightarrow>
    stock_step r (r\<lparr>sr_factory := f, dying := (if l then i # dying r else dying r)\<rparr>)"
| finish: "i \<in> set (dying r) \<Longrightarrow> stock_deleter i (sr_factory r) = Inr f \<Longrightarrow>
    stock_step r (r\<lparr>sr_factory := f, dying := removeAll i (dying r)\<rparr>)"

section \<open>One thread\<close>

text \<open>The entries of the map are the live stocks, each under its key.\<close>

definition factory_inv :: "StockFactory \<Rightarrow> bool" where
  "factory_inv f \<longleftrightarrow> 0 < fa_uses f \<and> map_sorted (stocks f) \<and>
     (\<forall>k p. map_of (stocks f) k = Some p \<longrightarrow> (\<exists>i s. p = Some i \<and> stock_heap f i = Some s \<and> stock_key s = k)) \<and>
     (\<forall>i s. stock_heap f i = Some s \<longrightarrow>
        map_of (stocks f) (stock_key s) = Some (Some i) \<and> 0 < stock_uses s \<and> i < stock_next f)"

lemma factory_inv_new: "factory_inv StockFactory_new"
  by (simp add: factory_inv_def StockFactory_new_def)

lemma factory_invD:
  assumes "factory_inv f"
  shows "map_of (stocks f) k = Some p \<Longrightarrow> \<exists>i s. p = Some i \<and> stock_heap f i = Some s \<and> stock_key s = k"
    "stock_heap f i = Some s \<Longrightarrow> map_of (stocks f) (stock_key s) = Some (Some i)"
    "stock_heap f i = Some s \<Longrightarrow> 0 < stock_uses s" "stock_heap f i = Some s \<Longrightarrow> i < stock_next f"
    "0 < fa_uses f" "map_sorted (stocks f)"
  using assms by (auto simp: factory_inv_def)

text \<open>\<^verbatim>\<open>get\<close> of a key whose stock is alive, and of one whose stock is not.\<close>

lemma StockFactory_get_old:
  assumes inv: "factory_inv f" and i: "stock_heap f i = Some s"
  shows "StockFactory_get (stock_key s) f = (i, f\<lparr>stock_heap := (stock_heap f)(i \<mapsto> s\<lparr>stock_uses := stock_uses s + 1\<rparr>)\<rparr>)"
  using factory_invD(2,3) [OF inv i] i by (simp add: StockFactory_get_def weak_lock_def Let_def)

lemma StockFactory_get_fresh:
  assumes inv: "factory_inv f" and k: "\<And>i s. stock_heap f i = Some s \<Longrightarrow> stock_key s \<noteq> key"
  shows "StockFactory_get key f = (stock_next f,
    f\<lparr>stocks := map_assign key (Some (stock_next f)) (map_assign key None (stocks f)),
      stock_heap := (stock_heap f)(stock_next f \<mapsto> \<lparr>stock_key = key, stock_uses = 1\<rparr>), stock_next := stock_next f + 1\<rparr>)"
proof -
  have "map_of (stocks f) key = None" using factory_invD(1) [OF inv, of key] k by (cases "map_of (stocks f) key") auto
  then show ?thesis by (simp add: StockFactory_get_def weak_lock_def Let_def)
qed

lemma factory_inv_uses:
  assumes inv: "factory_inv f" and i: "stock_heap f i = Some s" "0 < n"
  shows "factory_inv (f\<lparr>stock_heap := (stock_heap f)(i \<mapsto> s\<lparr>stock_uses := n\<rparr>)\<rparr>)"
  unfolding factory_inv_def
proof (intro conjI allI impI)
  fix k p assume "map_of (stocks (f\<lparr>stock_heap := (stock_heap f)(i \<mapsto> s\<lparr>stock_uses := n\<rparr>)\<rparr>)) k = Some p"
  then obtain j t where "p = Some j" "stock_heap f j = Some t" "stock_key t = k" using factory_invD(1) [OF inv, of k p] by auto
  then show "\<exists>j t. p = Some j \<and> stock_heap (f\<lparr>stock_heap := (stock_heap f)(i \<mapsto> s\<lparr>stock_uses := n\<rparr>)\<rparr>) j = Some t \<and> stock_key t = k"
    using i by (cases "j = i") auto
qed (use factory_invD(2-) [OF inv] i in \<open>auto split: if_splits\<close>)

lemma factory_inv_fresh:
  assumes inv: "factory_inv f" and k: "\<And>i s. stock_heap f i = Some s \<Longrightarrow> stock_key s \<noteq> key"
  shows "factory_inv (f\<lparr>stocks := map_assign key (Some (stock_next f)) (map_assign key None (stocks f)),
      stock_heap := (stock_heap f)(stock_next f \<mapsto> \<lparr>stock_key = key, stock_uses = 1\<rparr>), stock_next := stock_next f + 1\<rparr>)"
    (is "factory_inv ?f")
  unfolding factory_inv_def
proof (intro conjI allI impI)
  fix k' p assume p: "map_of (stocks ?f) k' = Some p"
  show "\<exists>i s. p = Some i \<and> stock_heap ?f i = Some s \<and> stock_key s = k'"
  proof (cases "k' = key")
    case False
    then obtain j t where j: "p = Some j" "stock_heap f j = Some t" "stock_key t = k'" using p factory_invD(1) [OF inv, of k' p] by auto
    then have "j \<noteq> stock_next f" using factory_invD(4) [OF inv j(2)] by simp
    then show ?thesis using j by auto
  qed (use p in auto)
next
  fix i s assume i: "stock_heap ?f i = Some s"
  show "map_of (stocks ?f) (stock_key s) = Some (Some i)" "0 < stock_uses s" "i < stock_next ?f"
    using i k factory_invD(2-4) [OF inv, of i s] by (auto split: if_splits)
qed (use factory_invD(5,6) [OF inv] in \<open>auto intro: map_sorted_assign\<close>)

lemma stock_release_inv:
  assumes inv: "factory_inv f" and i: "stock_heap f i = Some s"
  shows "okR (stock_release i f) factory_inv"
proof (cases "stock_uses s = 1")
  case False
  then have "factory_inv (f\<lparr>stock_heap := (stock_heap f)(i \<mapsto> s\<lparr>stock_uses := stock_uses s - 1\<rparr>)\<rparr>)"
    using factory_invD(3) [OF inv i] by (intro factory_inv_uses [OF inv i]) simp
  then show ?thesis using False i by (simp add: stock_release_def stock_drop_def)
next
  case True
  define g where "g = f\<lparr>stocks := map_erase (stock_key s) (stocks f), stock_heap := (stock_heap f)(i := None)\<rparr>"
  have "factory_inv g"
    unfolding factory_inv_def
  proof (intro conjI allI impI)
    fix k p assume "map_of (stocks g) k = Some p"
    then have k: "k \<noteq> stock_key s" "map_of (stocks f) k = Some p" by (auto simp: g_def split: if_splits)
    then obtain j t where "p = Some j" "stock_heap f j = Some t" "stock_key t = k" using factory_invD(1) [OF inv] by blast
    moreover from this have "j \<noteq> i" using i k(1) by auto
    ultimately show "\<exists>j t. p = Some j \<and> stock_heap g j = Some t \<and> stock_key t = k" by (simp add: g_def)
  next
    fix j t assume j: "stock_heap g j = Some t"
    then have jt: "j \<noteq> i" "stock_heap f j = Some t" by (auto simp: g_def split: if_splits)
    have "stock_key t \<noteq> stock_key s" using factory_invD(2) [OF inv jt(2)] factory_invD(2) [OF inv i] jt(1) by auto
    then show "map_of (stocks g) (stock_key t) = Some (Some j)" "0 < stock_uses t" "j < stock_next g"
      using factory_invD(2-4) [OF inv jt(2)] by (simp_all add: g_def)
  qed (use factory_invD(5,6) [OF inv] in \<open>auto simp: g_def intro: map_sorted_erase\<close>)
  moreover have "stock_release i f = Inr g"
    using True i factory_invD(5) [OF inv]
    by (simp add: stock_release_def stock_drop_def stock_deleter_def StockFactory_deleteSock_def g_def)
  ultimately show ?thesis by simp
qed

text \<open>The size of the map is the number of live stocks.\<close>

lemma StockFactory_size_live:
  assumes inv: "factory_inv f"
  shows "StockFactory_size f = card (dom (stock_heap f))"
proof -
  have d: "distinct (map fst (stocks f))" using factory_invD(6) [OF inv] by (simp add: map_sorted_def strict_sorted_iff)
  have "bij_betw (\<lambda>i. stock_key (the (stock_heap f i))) (dom (stock_heap f)) (set (map fst (stocks f)))"
  proof (rule bij_betw_imageI)
    show "inj_on (\<lambda>i. stock_key (the (stock_heap f i))) (dom (stock_heap f))"
    proof (rule inj_onI)
      fix i j assume "i \<in> dom (stock_heap f)" "j \<in> dom (stock_heap f)"
        "stock_key (the (stock_heap f i)) = stock_key (the (stock_heap f j))"
      then obtain s t where "stock_heap f i = Some s" "stock_heap f j = Some t" "stock_key s = stock_key t" by auto
      then show "i = j" using factory_invD(2) [OF inv, of i s] factory_invD(2) [OF inv, of j t] by simp
    qed
    have "k \<in> (\<lambda>i. stock_key (the (stock_heap f i))) ` dom (stock_heap f)" if h: "map_of (stocks f) k \<noteq> None" for k
    proof -
      obtain p where "map_of (stocks f) k = Some p" using h by auto
      from factory_invD(1) [OF inv this] obtain i s where "stock_heap f i = Some s" "stock_key s = k" by auto
      then show ?thesis by (intro image_eqI [of _ _ i]) auto
    qed
    moreover have "stock_key s \<in> fst ` set (stocks f)" if "stock_heap f i = Some s" for i s
      using factory_invD(2) [OF inv that] by (metis map_of_eq_None_iff option.distinct(1))
    ultimately show "(\<lambda>i. stock_key (the (stock_heap f i))) ` dom (stock_heap f) = set (map fst (stocks f))"
      by (auto simp: map_of_eq_None_iff)
  qed
  from bij_betw_same_card [OF this] show ?thesis using distinct_card [OF d] by (simp add: StockFactory_size_def)
qed

section \<open>The test cases\<close>

text \<open>The two \<^verbatim>\<open>Good\<close> pointers share their object, which is deleted once; without an owner the exception is thrown.\<close>

lemma test_Example_ok: "okR test_Example (\<lambda>(count, caught, m). count = 2 \<and> caught \<and> live m = [])"
  by (simp add: test_Example_def make_shared_def new_object_def shared_ptr_new_def Good_getptr_def shared_from_this_def empty_mem_def
      shared_ptr_copy_def use_count_def shared_ptr_delete_def delete_object_def Let_def)

text \<open>The lines that are commented out delete the object twice.\<close>

lemma bad_lines_double_delete: "bad_lines = Inl Use_after_free"
  by (simp add: bad_lines_def make_shared_def new_object_def shared_ptr_new_def Bad_getptr_def empty_mem_def
      use_count_def shared_ptr_delete_def delete_object_def Let_def)

lemma test_Exception_ok: "fst test_Exception \<and> okR (snd test_Exception) (\<lambda>m. live m = [])"
  by (simp add: test_Exception_def new_object_def empty_mem_def shared_from_this_def delete_object_def)

lemmas factory_evals = StockFactory_get_def StockFactory_new_def weak_lock_def stock_release_def stock_drop_def stock_deleter_def
  StockFactory_deleteSock_def StockFactory_release_def StockFactory_size_def map_erase_def Let_def

lemma test_Stock_ok: "okR test_Stock (\<lambda>(expected, f). expected \<and> stock_heap f = Map.empty)"
  by (simp add: test_Stock_def factory_evals fun_eq_iff)

lemma test_StockFactory_ok: "okR test_StockFactory (\<lambda>(expected, f). expected \<and> stock_heap f = Map.empty)"
  by (simp add: test_StockFactory_def factory_evals fun_eq_iff)

section \<open>Properties\<close>

text \<open>C21: with one thread at a time the factory keeps one stock per key: \<^verbatim>\<open>get\<close> returns a live stock of the key, the one that
  exists if there is one; giving up a stock never fails; both keep the invariant that the map holds
  exactly the live stocks; and \<^verbatim>\<open>size()\<close> is their number.\<close>

theorem StockFactory_one_per_key:
  assumes "factory_inv f" "StockFactory_get key f = (i, f')"
  shows "factory_inv f' \<and> (\<exists>s. stock_heap f' i = Some s \<and> stock_key s = key) \<and>
    (\<forall>j s. stock_heap f j = Some s \<and> stock_key s = key \<longrightarrow> j = i) \<and>
    (\<forall>j s. stock_heap f j = Some s \<longrightarrow> okR (stock_release j f) factory_inv) \<and>
    StockFactory_size f = card (dom (stock_heap f))"
proof -
  have "factory_inv f' \<and> (\<exists>s. stock_heap f' i = Some s \<and> stock_key s = key) \<and>
    (\<forall>j s. stock_heap f j = Some s \<and> stock_key s = key \<longrightarrow> j = i)"
  proof (cases "\<exists>j s. stock_heap f j = Some s \<and> stock_key s = key")
    case True
    then obtain j s where j: "stock_heap f j = Some s" "stock_key s = key" by blast
    have f': "i = j" "f' = f\<lparr>stock_heap := (stock_heap f)(j \<mapsto> s\<lparr>stock_uses := stock_uses s + 1\<rparr>)\<rparr>"
      using StockFactory_get_old [OF assms(1) j(1)] assms(2) j(2) by auto
    have "l = j" if "stock_heap f l = Some t" "stock_key t = key" for l t
      using factory_invD(2) [OF assms(1) that(1)] factory_invD(2) [OF assms(1) j(1)] that(2) j(2) by simp
    moreover have "factory_inv f'" unfolding f'(2) by (rule factory_inv_uses [OF assms(1) j(1)]) simp
    ultimately show ?thesis using f' j(2) by auto
  next
    case False
    then have none: "\<And>i s. stock_heap f i = Some s \<Longrightarrow> stock_key s \<noteq> key" by blast
    have f': "i = stock_next f" "f' = f\<lparr>stocks := map_assign key (Some (stock_next f)) (map_assign key None (stocks f)),
        stock_heap := (stock_heap f)(stock_next f \<mapsto> \<lparr>stock_key = key, stock_uses = 1\<rparr>), stock_next := stock_next f + 1\<rparr>"
      using StockFactory_get_fresh [OF assms(1) none] assms(2) by auto
    have "factory_inv f'" unfolding f'(2) by (rule factory_inv_fresh [OF assms(1) none])
    then show ?thesis using f' none by auto
  qed
  then show ?thesis using stock_release_inv [OF assms(1)] StockFactory_size_live [OF assms(1)] by blast
qed

theorem StockFactory_one_per_key_witness:
  "StockFactory_size StockFactory_new = 0 \<and> (\<exists>s. stock_heap (snd (StockFactory_get ''a'' StockFactory_new)) (fst (StockFactory_get ''a'' StockFactory_new)) = Some s \<and> stock_key s = ''a'')"
  using StockFactory_one_per_key [OF factory_inv_new surjective_pairing, of "''a''"] by (simp add: StockFactory_new_def)

text \<open>With several threads it does not: when a new stock is made for a key between the moment the old one lost its
  last owner and its deleter, the deleter erases the entry of the new stock, and the next \<^verbatim>\<open>get\<close> makes a second
  live stock of the same key.\<close>

lemma StockFactory_race:
  "\<exists>r. stock_step\<^sup>*\<^sup>* \<lparr>sr_factory = StockFactory_new, dying = []\<rparr> r \<and> dying r = [] \<and>
     (\<exists>i j s t. i \<noteq> j \<and> stock_heap (sr_factory r) i = Some s \<and> stock_heap (sr_factory r) j = Some t \<and>
        0 < stock_uses s \<and> 0 < stock_uses t \<and> stock_key s = stock_key t)"
proof -
  define s where "s = \<lparr>stock_key = ''k'', stock_uses = 1\<rparr>"
  define f1 where "f1 = \<lparr>fa_uses = 1, stocks = [(''k'', Some 0)], stock_heap = Map.empty(0 \<mapsto> s), stock_next = Suc 0\<rparr>"
  define f2 where "f2 = f1\<lparr>stock_heap := Map.empty(0 \<mapsto> s\<lparr>stock_uses := 0\<rparr>)\<rparr>"
  define f3 where "f3 = \<lparr>fa_uses = 1, stocks = [(''k'', Some (Suc 0))], stock_heap = [0 \<mapsto> s\<lparr>stock_uses := 0\<rparr>, Suc 0 \<mapsto> s], stock_next = 2\<rparr>"
  define f4 where "f4 = f3\<lparr>stocks := [], stock_heap := [Suc 0 \<mapsto> s]\<rparr>"
  define f5 where "f5 = \<lparr>fa_uses = 1, stocks = [(''k'', Some 2)], stock_heap = [Suc 0 \<mapsto> s, 2 \<mapsto> s], stock_next = 3\<rparr>"
  note defs = f1_def f2_def f3_def f4_def f5_def s_def factory_evals
  have g1: "StockFactory_get ''k'' StockFactory_new = (0, f1)" by (simp add: defs)
  have g2: "stock_drop 0 f1 = Inr (True, f2)" by (simp add: defs)
  have g3: "StockFactory_get ''k'' f2 = (Suc 0, f3)" by (simp add: defs)
  have g4: "stock_deleter 0 f3 = Inr f4" by (simp add: defs fun_eq_iff)
  have g5: "StockFactory_get ''k'' f4 = (2, f5)" by (simp add: defs)
  have "stock_step \<lparr>sr_factory = StockFactory_new, dying = []\<rparr> \<lparr>sr_factory = f1, dying = []\<rparr>"
    using stock_step.get [of "''k''" "\<lparr>sr_factory = StockFactory_new, dying = []\<rparr>"] g1 by simp
  moreover have "stock_step \<lparr>sr_factory = f1, dying = []\<rparr> \<lparr>sr_factory = f2, dying = [0]\<rparr>"
    using stock_step.drop [of "\<lparr>sr_factory = f1, dying = []\<rparr>" 0 s True f2] g2 by (simp add: f1_def) (simp add: s_def)
  moreover have "stock_step \<lparr>sr_factory = f2, dying = [0]\<rparr> \<lparr>sr_factory = f3, dying = [0]\<rparr>"
    using stock_step.get [of "''k''" "\<lparr>sr_factory = f2, dying = [0]\<rparr>"] g3 by simp
  moreover have "stock_step \<lparr>sr_factory = f3, dying = [0]\<rparr> \<lparr>sr_factory = f4, dying = []\<rparr>"
    using stock_step.finish [of 0 "\<lparr>sr_factory = f3, dying = [0]\<rparr>" f4] g4 by simp
  moreover have "stock_step \<lparr>sr_factory = f4, dying = []\<rparr> \<lparr>sr_factory = f5, dying = []\<rparr>"
    using stock_step.get [of "''k''" "\<lparr>sr_factory = f4, dying = []\<rparr>"] g5 by simp
  ultimately have "stock_step\<^sup>*\<^sup>* \<lparr>sr_factory = StockFactory_new, dying = []\<rparr> \<lparr>sr_factory = f5, dying = []\<rparr>"
    by (meson rtranclp.rtrancl_refl rtranclp.rtrancl_into_rtrancl)
  moreover have "stock_heap f5 (Suc 0) = Some s" "stock_heap f5 2 = Some s" "0 < stock_uses s" "Suc 0 \<noteq> 2" by (simp_all add: f5_def s_def)
  ultimately show ?thesis
    by (intro exI [of _ "\<lparr>sr_factory = f5, dying = []\<rparr>"] conjI exI [of _ "Suc 0"] exI [of _ 2] exI [of _ s]) simp_all
qed

end
