(* ===== verification/Spec2Isabelle.thy ===== *)
theory Spec2Isabelle
  imports Event_Loop_Thread Loop_Quit Echo_Run Async_Log Weak_Callbacks
begin

text \<open>
  A model of polly, a small reactor network library in C++ with a logging library, and what can be proved of it.

  \<^bold>\<open>The program.\<close> An event loop (\<^verbatim>\<open>net/eventloop.cc\<close>) belongs to one thread. It asks its poller
  (\<^verbatim>\<open>net/poller.cc\<close>) which file descriptors are ready, and lets the channel of each (\<^verbatim>\<open>net/channel.cc\<close>) call back
  its owner: the timer queue (\<^verbatim>\<open>net/timer_queue.cc\<close>), the acceptor (\<^verbatim>\<open>net/acceptor.cc\<close>), or a connection
  (\<^verbatim>\<open>net/tcp_connection.cc\<close>). A server (\<^verbatim>\<open>net/tcp_server.cc\<close>) owns an acceptor and its connections; the program
  \<^verbatim>\<open>examples/echo/main.cc\<close> is a server. Other threads hand work to the loop by \<^verbatim>\<open>RunInLoop\<close> and wake it through an
  eventfd; \<^verbatim>\<open>net/eventloop_thread.cc\<close> runs a loop in a thread of its own. A \<^verbatim>\<open>LOG_XXX\<close> statement (\<^verbatim>\<open>log/logger.cc\<close>) formats one
  message into a stream (\<^verbatim>\<open>log/log_stream.cc\<close>) and hands it to a destination, for instance the asynchronous log
  (\<^verbatim>\<open>log/async_logging.cc\<close>), whose worker thread writes it to rolling files (\<^verbatim>\<open>log/log_file.cc\<close>, \<^verbatim>\<open>log/file.cc\<close>).
  \<^verbatim>\<open>examples/callback/weak.cc\<close> is about shared and weak pointers.

  \<^bold>\<open>How it is modelled.\<close> A class is a record and a method a function that passes the state, of type
  \<open>'s result\<close> when it can fail: the left side is the failed assertion, the exception, the abort, or the use of memory that is
  out of bounds, freed or null. \<^verbatim>\<open>NDEBUG\<close> is not defined, so assertions are checked. Objects that are shared by pointer live at
  addresses in the state, with \<open>None\<close> for freed ones; \<^verbatim>\<open>shared_ptr\<close> is a use count. Variables captured by reference have
  addresses too, so that a lambda that outlives them is seen. Callbacks are data, and what they do is an argument of the functions
  that run them. The kernel is the record \<open>kernel\<close> (for the log \<open>log_os\<close> and \<open>process_os\<close>) of the answers to system calls,
  indexed by the number of calls made so far; what is assumed of it is a named hypothesis (\<open>settime_ok\<close>, \<open>clock_ok\<close>,
  \<open>log_os_ok\<close>, \<open>fwrite_progress\<close> and others). \<^verbatim>\<open>size_t\<close> arithmetic wraps, \<^verbatim>\<open>int64_t\<close> overflow is an error, flag words and the
  integers that are printed are words of their width, a \<^verbatim>\<open>double\<close> is a rational number, rounded where the code computes.
  Code that several threads run is an inductive step relation whose steps are the sections between which another thread can come
  in.

  \<^bold>\<open>The theories.\<close>
  \<^item> \<open>Polly_Prelude\<close>: errors and their calculus (\<open>okR\<close>, total, \<open>safeR\<close>, partial correctness, and \<open>failR\<close>, which names the errors that are possible), \<^verbatim>\<open>size_t\<close>, \<^verbatim>\<open>std::copy\<close>, \<^verbatim>\<open>std::map\<close>, and the
    interfaces \<open>byte_sink\<close>, \<open>byte_queue\<close> and \<open>invariant_system\<close>.
  \<^item> \<open>Slices\<close> (\<^verbatim>\<open>include/polly/slice.h\<close>): comparison is the order of unsigned byte strings. \<open>Buffers\<close> (\<^verbatim>\<open>util/buffer.h\<close>,
    \<^verbatim>\<open>util/buffer.cc\<close>): the growing buffer is a queue of bytes that never fails on a well-formed state, and reads
    exactly what \<^verbatim>\<open>readv\<close> delivers.
  \<^item> \<open>Formatting\<close>, \<open>Timestamps\<close> (\<^verbatim>\<open>util/timestamp.h\<close>, \<^verbatim>\<open>util/timestamp.cc\<close>): decimal texts read back; the calendar is right up to the
    year 9999; adding a delay is exact to a microsecond.
  \<^item> \<open>Net_State\<close>, \<open>Polling\<close> (channel, poller): registration keeps the poller's vector, map and indices
    consistent, except that removal from the middle leaves stale indices; dispatch runs the callbacks \<^verbatim>\<open>revents\<close> calls for as long as these leave the
    channel alone (\<open>intact\<close>).
  \<^item> \<open>Event_Loop\<close>, \<open>Loop_Threads\<close>, \<open>Event_Loop_Thread\<close>: \<^verbatim>\<open>loop()\<close> is a \<open>partial_function\<close>, \<open>None\<close> when it does not return, and returns
    when \<^verbatim>\<open>quit_\<close> is found set after an iteration; posted functors run once and in order and no wake-up is
    lost; \<^verbatim>\<open>Start\<close> publishes the loop, and the destructor's two races.
  \<^item> \<open>Timer_Queue\<close> (also \<^verbatim>\<open>util/timer.h\<close> and the constructor of \<^verbatim>\<open>EventLoop\<close>): timers fire when due, once, in order, and the timerfd is armed for
    the first one.
  \<^item> \<open>Tcp_Connection\<close>, \<open>Tcp_Delivery\<close>: the bytes accepted for sending are those given to the kernel and those in the
    send buffer, in order, whatever happens; they are delivered as long as the kernel takes some; the interface \<open>connection_callbacks\<close> is
    what the user's callbacks must keep.
  \<^item> \<open>Inet_Address\<close>, \<open>Acceptor\<close>, \<open>Tcp_Server\<close>, \<open>Echo_Server\<close>: addresses read back; accepting makes a registered connection with
    one owner; the echo program, whose callbacks interpret \<open>connection_callbacks\<close>, sends back what it receives; the use after free
    when a peer closes.
  \<^item> \<open>Echo_Run\<close>: the components composed. From an empty process through every iteration of the loop the echo program keeps an
    invariant over all of them (\<open>echo_inv\<close>), cannot fail before its counters are exhausted, and refines \<open>echo_spec\<close>, a map
    from connections to echoed bytes. This is for peers that stay connected (\<open>steady\<close>: no hang-up, no end of file, no hard write
    error) and descriptors that are new (\<open>boots\<close>, \<open>accepts_new\<close>); with a peer that leaves the program has the use after free
    shown in \<open>Tcp_Server\<close>.
    The same invariant shows that no callback of the program disturbs the dispatcher that called it.
  \<^item> \<open>Loop_Quit\<close>: no operation of the library takes a \<^verbatim>\<open>quit()\<close> back, and the loop returns at the end of the iteration in which a functor,
    a channel's callback or a timer calls it; the interface \<open>quit_callbacks\<close> is what this needs of the user's callbacks.
  \<^item> \<open>Process_Info\<close>, \<open>Log_Stream\<close>, \<open>Loggers\<close>: what each insertion writes; the text of a message; \<open>log_destination\<close>, what a destination promises,
    interpreted on standard output and on the asynchronous log.
  \<^item> \<open>Log_Files\<close>, \<open>Async_Log\<close>: rolling loses nothing and bounds the size of a file; nothing that is appended is lost or repeated while the
    worker runs, which refines a log of the bytes given, written and pending; a stopped worker returns whatever is appended meanwhile;
    what is lost when it is stopped.
  \<^item> \<open>Weak_Callbacks\<close>: one stock per key with one thread, the race with several.
  \<^item> This theory: the way of a message from the statement to the log.

  \<^bold>\<open>Bounds.\<close> No fuel is used: the loops are structural recursions, functions with a termination proof (the write loop of
  \<^verbatim>\<open>AppendFile\<close>, the calendar, the decimal conversion) or, for \<^verbatim>\<open>loop()\<close>, the partial function above. Sizes are at most \<open>max_size\<close>
  (\<open>2 ^ 63 - 1\<close>), which \<^verbatim>\<open>std::vector\<close> enforces. The clock is assumed to show a time before the year 10000 where it is printed. In \<open>Echo_Run\<close> the buffers
  and counters are bounded by the number of system calls made; 82 million is a round number below which no counter can overflow within one
  iteration.

  \<^bold>\<open>Not modelled.\<close> \<^verbatim>\<open>util/copyable.h\<close> is an empty tag class. What the library itself logs has no effect on its state and is left out
  of the network part, with the exception that \<^verbatim>\<open>LOG_FATAL\<close> does not end the program. The condition variable of the worker is
  a wait that may end at any time, so its \<^verbatim>\<open>notify_one\<close> has no effect in the model. Data races on a
  single variable and the weak memory model are outside of it: steps are atomic. The worker of the log is started and stopped
  once; a second \<^verbatim>\<open>StartWorker\<close> or \<^verbatim>\<open>StopWorker\<close> after the \<^verbatim>\<open>join\<close> is not covered. An address has no \<^verbatim>\<open>sin_family\<close>, which is the same for all, and
  the clock's microseconds are an integer whose range is a hypothesis (\<open>clock_ok\<close>) where it matters. Deleted and defaulted
  members and pure declarations have nothing to model, and one-line accessors are the selectors of the
  records. Apart from the tests this is all that is left of the sources.
\<close>

section \<open>From a log statement to the log files\<close>

lemma message_slice_valid:
  assumes "length m \<le> kSmallBufferSize"
  shows "Slice_valid (message_slice m)" "Slice_str (message_slice m) = m" "slice_size (message_slice m) \<le> kSmallBufferSize"
  using assms by (simp_all add: message_slice_def Slice_valid_def Slice_str_def kSmallBufferSize_def max_size_def)

text \<open>C13: with the asynchronous log as destination, an enabled \<^verbatim>\<open>LOG_XXX\<close> statement whose message has at most 4096 bytes succeeds
  in every reachable state of the log, and is a step of it that appends the whole message to the bytes the log has been given.\<close>

theorem LOG_reaches_log:
  assumes "async_init os a0" "(async_step os)\<^sup>*\<^sup>* a0 a"
    and "level \<noteq> NUM_LOG_LEVELS" "CHR 0x00 \<notin> set file" "length file < max_size"
    and "\<And>ls. LogStream_inv ls \<Longrightarrow> appends msg ls (insertions ls)"
    and "log_func g = AsyncLogging_Append" "log_enabled (gLogLevel g) level"
    and "length (log_text now tid level msg file line) \<le> 4096"
  shows "\<exists>al. LOG g level file line now tid insertions (as_log a) = Inr al \<and>
    front_content al = front_content (as_log a) @ log_text now tid level msg file line \<and>
    (async_step os)\<^sup>*\<^sup>* a0 (a\<lparr>as_log := al, as_appended := as_appended a @ log_text now tid level msg file line\<rparr>)"
proof -
  define m where "m = log_text now tid level msg file line"
  have len: "length m \<le> kSmallBufferSize" using assms(9) by (simp add: m_def kSmallBufferSize_def)
  note s = message_slice_valid [OF len]
  have front: "front_inv (as_log a)" using async.reachable_inv [OF assms(1,2)] by (simp add: async_inv_def)
  have "okR (LOG g level file line now tid insertions (as_log a)) (\<lambda>al. front_inv al \<and> front_content al = front_content (as_log a) @ m)"
    using async_front.LOG_adds [OF assms(3-6,8,7) front, of now tid line] len s by (simp add: m_def)
  then obtain al where al: "LOG g level file line now tid insertions (as_log a) = Inr al"
      "front_content al = front_content (as_log a) @ m"
    by (auto simp: okR_def)
  moreover have "LOG g level file line now tid insertions (as_log a) = AsyncLogging_Append (message_slice m) (as_log a)"
    using LOG_eq [OF assms(3-6,8), of line now tid "as_log a"] len by (simp add: assms(7) flip: m_def)
  ultimately have "async_step os a (a\<lparr>as_log := al, as_appended := as_appended a @ m\<rparr>)"
    using async_step.append [OF s(1)] s(2) by metis
  then show ?thesis using al rtranclp.rtrancl_into_rtrancl [OF assms(2)] by (auto simp: m_def)
qed

theorem LOG_reaches_log_witness:
  "\<exists>a al. async_init demo_log_os a \<and>
     LOG \<lparr>gLogLevel = INFO, log_func = AsyncLogging_Append\<rparr> INFO ''a/b.cc'' 7 0 1 (put_string ''hi'') (as_log a) = Inr al"
proof -
  obtain a where a: "async_init demo_log_os a" using stopped_run by blast
  have "length (log_text 0 1 INFO ''hi'' ''a/b.cc'' 7) \<le> 4096"
    using log_text_length [of 0 1 INFO "''hi''" "''a/b.cc''" 7] by simp
  with LOG_reaches_log [OF a rtranclp.rtrancl_refl, of INFO "''a/b.cc''" "''hi''" "put_string ''hi''"
      "\<lparr>gLogLevel = INFO, log_func = AsyncLogging_Append\<rparr>" 0 1 7] a
  show ?thesis by (auto simp: max_size_def put_string_spec)
qed

end
